(* ===== verification/Prelude.thy ===== *)
theory Prelude
  imports Main "HOL-Library.Word" "HOL-Library.Multiset"
begin

text \<open>
  Shared ground of the development: the names of the machine integers, the two
  collections of rewrite rules the component theories feed, facts on masks and
  on counting the threads that satisfy a predicate, and the contract of a
  transition system, from which every component with a step relation takes its
  induction over reachable states.
\<close>

unbundle bit_operations_syntax

section \<open>Machine integers\<close>

type_synonym u32 = "32 word"
type_synonym u64 = "64 word"

text \<open>The crate is modelled for a 64-bit target: \<open>usize\<close> is a 64-bit word.\<close>

type_synonym usize = "64 word"

named_theorems mask_simps "masks of power-of-two tables, read as remainders"
named_theorems count_simps "how the number of threads in a phase changes in one step"

lemma unat_and_mask [mask_simps]:
  fixes x :: "'a::len word"
  shows "unat (x AND mask k) = unat x mod 2 ^ k"
proof -
  have "unat (x AND mask k) = take_bit k (unat x)"
    by (simp only: take_bit_eq_mask [symmetric] unsigned_take_bit_eq)
  then show ?thesis by (simp only: take_bit_eq_mod)
qed

lemma unat_lt32: "unat (x :: u32) < 2 ^ 32"
  using unsigned_less [of x, where ?'a = nat] by simp

lemma unat_lt64: "unat (x :: 64 word) < 2 ^ 64"
  using unsigned_less [of x, where ?'a = nat] by simp

lemma word_of_unat:
  fixes w :: "'a::len word"
  shows "word_of_nat (unat w) = w"
  by simp

lemma unat_eq_imp_word_of_nat:
  fixes w :: "'a::len word"
  shows "unat w = n \<Longrightarrow> w = word_of_nat n"
  using word_of_unat [of w] by simp

lemma and_mask_le:
  fixes x m :: "'a::len word"
  shows "x AND m \<le> m"
  by (simp add: word_and_le1)

lemma and_mask_absorb [simp]:
  fixes x m :: "'a::len word"
  shows "(x AND m) AND m = x AND m"
  by (simp add: and.assoc)

lemma nat_and_mask [mask_simps]:
  "(n::nat) AND (2 ^ k - 1) = n mod 2 ^ k"
  unfolding mask_eq_exp_minus_1 [symmetric] take_bit_eq_mask [symmetric] take_bit_eq_mod ..

lemma nat_and_mask_Suc [mask_simps]:
  "(n::nat) AND (2 ^ k - Suc 0) = n mod 2 ^ k"
  using nat_and_mask [of n k] by simp

section \<open>Rotations\<close>

lemma bij_betw_rotate:
  assumes "0 < (m::nat)"
  shows "bij_betw (\<lambda>j. (a + j) mod m) {c..<c + m} {..<m}"
proof -
  have inj: "inj_on (\<lambda>j. (a + j) mod m) {c..<c + m}"
  proof (rule inj_onI)
    fix x y
    assume "x \<in> {c..<c + m}" "y \<in> {c..<c + m}" and eq: "(a + x) mod m = (a + y) mod m"
    then have "\<bar>int x - int y\<bar> < int m" by auto
    moreover from eq have "int m dvd int x - int y"
      by (metis add_diff_cancel_left mod_eq_dvd_iff of_nat_add of_nat_mod)
    ultimately show "x = y"
      by (metis abs_of_nat dvd_imp_le_int eq_iff_diff_eq_0 linorder_not_less of_nat_eq_iff)
  qed
  moreover have "(\<lambda>j. (a + j) mod m) ` {c..<c + m} = {..<m}"
    by (rule card_subset_eq) (use assms inj card_image [OF inj] in auto)
  ultimately show ?thesis by (simp add: bij_betw_def)
qed

lemma rotate_inj:
  assumes "x < m" and "y < m" and "(a + x) mod m = (a + y) mod (m::nat)"
  shows "x = y"
proof -
  have "inj_on (\<lambda>j. (a + j) mod m) {0..<0 + m}"
    using assms(1) by (intro bij_betw_imp_inj_on [OF bij_betw_rotate]) simp
  then show ?thesis using assms by (auto dest: inj_onD)
qed

lemma wrap_by_subtraction:
  "j < 2 * (m::nat) \<Longrightarrow> (if m \<le> j then j - m else j) = j mod m"
  by (auto simp: le_mod_geq)

section \<open>Counting the threads in a phase\<close>

text \<open>
  \<open>count_upto n P\<close> is the number of threads below \<open>n\<close> that satisfy \<open>P\<close>: the
  quantity an atomic counter of the code stands for.
\<close>

definition count_upto :: "nat \<Rightarrow> (nat \<Rightarrow> bool) \<Rightarrow> nat" where
  "count_upto n P = (\<Sum>i<n. of_bool (P i))"

lemma count_upto_cong:
  assumes "\<And>i. i < n \<Longrightarrow> P i = Q i"
  shows "count_upto n P = count_upto n Q"
  unfolding count_upto_def by (rule sum.cong) (use assms in auto)

lemma count_upto_split:
  assumes "i < n"
  shows "count_upto n P = of_bool (P i) + (\<Sum>j\<in>{..<n} - {i}. of_bool (P j))"
  using assms unfolding count_upto_def by (subst sum.remove [of _ i]) auto

text \<open>One thread changes phase, the others keep theirs.\<close>

lemma count_upto_change:
  assumes "i < n" and "\<And>j. j < n \<Longrightarrow> j \<noteq> i \<Longrightarrow> Q j = P j"
  shows "count_upto n Q + of_bool (P i) = count_upto n P + of_bool (Q i)"
proof -
  have "(\<Sum>j\<in>{..<n} - {i}. of_bool (Q j)) = (\<Sum>j\<in>{..<n} - {i}. (of_bool (P j) :: nat))"
    by (rule sum.cong) (use assms(2) in auto)
  then show ?thesis
    using count_upto_split [OF assms(1), of P] count_upto_split [OF assms(1), of Q] by simp
qed

lemma count_upto_enter:
  assumes "i < n" and "\<And>j. j < n \<Longrightarrow> j \<noteq> i \<Longrightarrow> Q j = P j" and "\<not> P i" and "Q i"
  shows "count_upto n Q = Suc (count_upto n P)"
  using count_upto_change [of i n Q P, OF assms(1,2)] assms(3,4) by simp

lemma count_upto_leave:
  assumes "i < n" and "\<And>j. j < n \<Longrightarrow> j \<noteq> i \<Longrightarrow> Q j = P j" and "P i" and "\<not> Q i"
  shows "Suc (count_upto n Q) = count_upto n P"
  using count_upto_change [of i n Q P, OF assms(1,2)] assms(3,4) by simp

lemma count_upto_same:
  assumes "i < n" and "\<And>j. j < n \<Longrightarrow> j \<noteq> i \<Longrightarrow> Q j = P j" and "P i = Q i"
  shows "count_upto n Q = count_upto n P"
  using count_upto_change [of i n Q P, OF assms(1,2)] assms(3) by simp

lemma count_upto_pos_iff: "0 < count_upto n P \<longleftrightarrow> (\<exists>i<n. P i)"
  unfolding count_upto_def by (auto simp: sum_eq_0_iff zero_less_iff_neq_zero)

lemma count_upto_0_iff: "count_upto n P = 0 \<longleftrightarrow> (\<forall>i<n. \<not> P i)"
  using count_upto_pos_iff [of n P] by auto

lemma count_upto_le: "count_upto n P \<le> n"
  unfolding count_upto_def
  by (rule order_trans [OF sum_mono [where g = "\<lambda>_. 1"]]) auto

lemma count_upto_mono:
  assumes "\<And>i. i < n \<Longrightarrow> P i \<Longrightarrow> Q i"
  shows "count_upto n P \<le> count_upto n Q"
  unfolding count_upto_def by (rule sum_mono) (use assms in auto)

lemma count_upto_less:
  assumes "i < n" and "Q i" and "\<not> P i" and "\<And>j. j < n \<Longrightarrow> P j \<Longrightarrow> Q j"
  shows "count_upto n P < count_upto n Q"
proof -
  have "count_upto n (\<lambda>j. P j \<or> j = i) = Suc (count_upto n P)"
    by (rule count_upto_enter [OF assms(1)]) (use assms in auto)
  moreover have "count_upto n (\<lambda>j. P j \<or> j = i) \<le> count_upto n Q"
    by (rule count_upto_mono) (use assms in auto)
  ultimately show ?thesis by simp
qed

section \<open>Transition systems\<close>

text \<open>
  The contract of a component whose behaviour is a step relation: an initial
  predicate, a step relation, and an invariant that holds initially and that every
  step keeps. The client's gain is that the invariant holds in every state the
  steps can reach.
\<close>

inductive reachable_from :: "('s \<Rightarrow> bool) \<Rightarrow> ('s \<Rightarrow> 's \<Rightarrow> bool) \<Rightarrow> 's \<Rightarrow> bool"
  for ini :: "'s \<Rightarrow> bool" and stp :: "'s \<Rightarrow> 's \<Rightarrow> bool"
where
  reach_init: "ini s \<Longrightarrow> reachable_from ini stp s"
| reach_step: "reachable_from ini stp s \<Longrightarrow> stp s t \<Longrightarrow> reachable_from ini stp t"

locale invariant_system =
  fixes ini :: "'s \<Rightarrow> bool"
    and stp :: "'s \<Rightarrow> 's \<Rightarrow> bool"
    and inv :: "'s \<Rightarrow> bool"
  assumes inv_init: "ini s \<Longrightarrow> inv s"
    and inv_step: "inv s \<Longrightarrow> stp s t \<Longrightarrow> inv t"
begin

lemma reachable_inv: "reachable_from ini stp s \<Longrightarrow> inv s"
  by (induction rule: reachable_from.induct) (auto intro: inv_init inv_step)

lemma reachable_conseq:
  assumes "reachable_from ini stp s" and "\<And>u. inv u \<Longrightarrow> Q u"
  shows "Q s"
  using assms reachable_inv by blast

end

section \<open>Progress\<close>

text \<open>
  Every run of \<open>stp\<close> from the state reaches \<open>goal\<close>, whatever steps it takes: it never
  gets stuck before, and does not go on for ever without.
\<close>

inductive inevitable :: "('s \<Rightarrow> 's \<Rightarrow> bool) \<Rightarrow> ('s \<Rightarrow> bool) \<Rightarrow> 's \<Rightarrow> bool"
  for stp :: "'s \<Rightarrow> 's \<Rightarrow> bool" and goal :: "'s \<Rightarrow> bool"
where
  inev_now: "goal s \<Longrightarrow> inevitable stp goal s"
| inev_later: "stp s t \<Longrightarrow> (\<And>u. stp s u \<Longrightarrow> inevitable stp goal u) \<Longrightarrow> inevitable stp goal s"

lemma inevitable_conseq:
  assumes "inevitable stp goal s" and "I s"
    and "\<And>s t. I s \<Longrightarrow> stp s t \<Longrightarrow> I t" and "\<And>s. I s \<Longrightarrow> goal s \<Longrightarrow> aim s"
  shows "inevitable stp aim s"
  using assms(1,2)
proof induction
  case (inev_now s)
  then show ?case using assms(4) by (blast intro: inevitable.inev_now)
next
  case (inev_later s t)
  then show ?case using assms(3) by (blast intro: inevitable.inev_later)
qed

lemma inevitable_happens:
  assumes "inevitable stp goal s" and "\<And>s t. stp s t \<Longrightarrow> step s t" and "reachable_from ini step s"
  shows "\<exists>s'. reachable_from ini step s' \<and> goal s'"
  using assms(1,3)
proof induction
  case (inev_later s t)
  then show ?case using assms(2) by (blast intro: reach_step)
qed blast

text \<open>
  A system whose \<open>calm\<close> steps decrease a rank and are possible until the goal is reached.
  The clients' gains: the goal is inevitable, and no run of calm steps is endless.
\<close>

locale progress_system = invariant_system ini stp inv
  for ini :: "'s \<Rightarrow> bool" and stp :: "'s \<Rightarrow> 's \<Rightarrow> bool" and inv :: "'s \<Rightarrow> bool" +
  fixes calm :: "'s \<Rightarrow> 's \<Rightarrow> bool"
    and goal :: "'s \<Rightarrow> bool"
    and rank :: "'s \<Rightarrow> 'k"
    and below :: "('k \<times> 'k) set"
  assumes calm_stp: "calm s t \<Longrightarrow> stp s t"
    and wf_below: "wf below"
    and rank_below: "inv s \<Longrightarrow> calm s t \<Longrightarrow> (rank t, rank s) \<in> below"
    and not_stuck: "inv s \<Longrightarrow> \<not> goal s \<Longrightarrow> \<exists>t. calm s t"
begin

lemma inevitable_goal:
  assumes "reachable_from ini stp s"
  shows "inevitable calm goal s"
  using assms
proof (induction "rank s" arbitrary: s rule: wf_induct_rule [OF wf_below])
  case 1
  show ?case
  proof (cases "goal s")
    case False
    have inv: "inv s" by (rule reachable_inv [OF "1.prems"])
    have "inevitable calm goal u" if "calm s u" for u
      using "1.hyps" [OF rank_below [OF inv that]] reach_step [OF "1.prems" calm_stp [OF that]] .
    with not_stuck [OF inv False] show ?thesis by (blast intro: inev_later)
  qed (rule inev_now)
qed

lemma calm_runs_end: "wf {(t, s). reachable_from ini stp s \<and> calm s t}"
proof (rule wf_subset [OF wf_inv_image [OF wf_below]])
  show "{(t, s). reachable_from ini stp s \<and> calm s t} \<subseteq> inv_image below rank"
    using rank_below reachable_inv by (auto simp: inv_image_def)
qed

end

section \<open>Refinement\<close>

text \<open>
  A forward simulation that may stutter: every step of the detailed system is a step of the
  specification on the abstracted states, or changes nothing there. The client's gain is
  that the abstraction of every reachable state is reachable in the specification, so that
  what holds of all states of the specification holds of the system.
\<close>

locale refinement = invariant_system ini stp inv
  for ini :: "'s \<Rightarrow> bool" and stp :: "'s \<Rightarrow> 's \<Rightarrow> bool" and inv :: "'s \<Rightarrow> bool" +
  fixes abs :: "'s \<Rightarrow> 'a"
    and spec_ini :: "'a \<Rightarrow> bool"
    and spec_stp :: "'a \<Rightarrow> 'a \<Rightarrow> bool"
  assumes abs_ini: "ini s \<Longrightarrow> spec_ini (abs s)"
    and abs_stp: "inv s \<Longrightarrow> stp s t \<Longrightarrow> abs t = abs s \<or> spec_stp (abs s) (abs t)"
begin

lemma abs_reachable: "reachable_from ini stp s \<Longrightarrow> reachable_from spec_ini spec_stp (abs s)"
proof (induction rule: reachable_from.induct)
  case (reach_init s)
  then show ?case by (intro reachable_from.reach_init abs_ini)
next
  case (reach_step s t)
  with abs_stp [OF reachable_inv [OF reach_step(1)] reach_step(2)] show ?case
    by (metis reachable_from.reach_step)
qed

lemma spec_invariant:
  assumes "reachable_from ini stp s" and "\<And>a. reachable_from spec_ini spec_stp a \<Longrightarrow> P a"
  shows "P (abs s)"
  by (rule assms(2)) (rule abs_reachable [OF assms(1)])

end

end
