(* ===== verification/Fences.thy ===== *)
theory Fences
  imports Prelude
begin

text \<open>
  Why the handshake of \<open>src/queue.rs\<close> needs its two \<open>fence(SeqCst)\<close>: the race between one
  push and one worker about to sleep, on a machine that may delay the visibility of a write.
  Each thread writes through a buffer of its own that reaches memory at an arbitrary later
  moment, reads memory directly, and passes a fence only with its buffer empty. The theory
  \<open>Handshake\<close> models the executions that remain once the fences are there.
\<close>

section \<open>The race\<close>

text \<open>
  The producer puts the runnable into an injector, passes its fence, if it has one, and loads
  \<open>parked\<close>; \<open>PSaw b\<close> records whether it saw a sleeper. The worker increments \<open>parked\<close>,
  passes its fence, if it has one, and scans the injector; \<open>WSaw b\<close> records whether it
  found the runnable.
\<close>

datatype producer_at = PPush | PFence | PLoad | PSaw bool

datatype worker_at = WIncrement | WFence | WSteal | WSaw bool

record litmus =
  producer_at :: producer_at
  push_buffered :: bool
  worker_at :: worker_at
  arm_buffered :: bool
  mem_runnable :: bool
  mem_parked :: bool

definition litmus_init :: "litmus \<Rightarrow> bool" where
  "litmus_init s \<longleftrightarrow> s = \<lparr>producer_at = PPush, push_buffered = False, worker_at = WIncrement,
     arm_buffered = False, mem_runnable = False, mem_parked = False\<rparr>"

text \<open>\<open>pfen\<close> and \<open>wfen\<close> say whether the producer's and the worker's fence are there.\<close>

inductive litmus_step :: "bool \<Rightarrow> bool \<Rightarrow> litmus \<Rightarrow> litmus \<Rightarrow> bool" for pfen wfen where
  push:
    "producer_at s = PPush \<Longrightarrow>
     litmus_step pfen wfen s (s\<lparr>push_buffered := True, producer_at := PFence\<rparr>)"
| push_visible:
    "push_buffered s \<Longrightarrow>
     litmus_step pfen wfen s (s\<lparr>push_buffered := False, mem_runnable := True\<rparr>)"
| producer_fence:
    "producer_at s = PFence \<Longrightarrow> pfen \<longrightarrow> \<not> push_buffered s \<Longrightarrow>
     litmus_step pfen wfen s (s\<lparr>producer_at := PLoad\<rparr>)"
| load_parked:
    "producer_at s = PLoad \<Longrightarrow>
     litmus_step pfen wfen s (s\<lparr>producer_at := PSaw (mem_parked s)\<rparr>)"
| fetch_add:
    "worker_at s = WIncrement \<Longrightarrow>
     litmus_step pfen wfen s (s\<lparr>arm_buffered := True, worker_at := WFence\<rparr>)"
| arm_visible:
    "arm_buffered s \<Longrightarrow>
     litmus_step pfen wfen s (s\<lparr>arm_buffered := False, mem_parked := True\<rparr>)"
| worker_fence:
    "worker_at s = WFence \<Longrightarrow> wfen \<longrightarrow> \<not> arm_buffered s \<Longrightarrow>
     litmus_step pfen wfen s (s\<lparr>worker_at := WSteal\<rparr>)"
| armed_steal:
    "worker_at s = WSteal \<Longrightarrow>
     litmus_step pfen wfen s (s\<lparr>worker_at := WSaw (mem_runnable s)\<rparr>)"

text \<open>The lost wake-up: nobody to notify, nothing to run, and the worker goes to sleep.\<close>

definition both_miss :: "litmus \<Rightarrow> bool" where
  "both_miss s \<longleftrightarrow> producer_at s = PSaw False \<and> worker_at s = WSaw False"

section \<open>With both fences\<close>

definition fenced_inv :: "litmus \<Rightarrow> bool" where
  "fenced_inv s \<longleftrightarrow>
     (producer_at s \<noteq> PPush \<longrightarrow> mem_runnable s \<or> push_buffered s \<and> producer_at s = PFence)
     \<and> (worker_at s \<noteq> WIncrement \<longrightarrow> mem_parked s \<or> arm_buffered s \<and> worker_at s = WFence)
     \<and> \<not> both_miss s"

interpretation fenced: invariant_system litmus_init "litmus_step True True" fenced_inv
proof unfold_locales
  show "fenced_inv s" if "litmus_init s" for s
    using that by (simp add: litmus_init_def fenced_inv_def both_miss_def)
  show "fenced_inv t" if "fenced_inv s" and "litmus_step True True s t" for s t
    using that(2,1) by cases (auto simp: fenced_inv_def both_miss_def)
qed

section \<open>With one fence missing\<close>

abbreviation litmus_reachable :: "bool \<Rightarrow> bool \<Rightarrow> litmus \<Rightarrow> bool" where
  "litmus_reachable pfen wfen \<equiv> reachable_from litmus_init (litmus_step pfen wfen)"

abbreviation at :: "producer_at \<Rightarrow> bool \<Rightarrow> worker_at \<Rightarrow> bool \<Rightarrow> bool \<Rightarrow> bool \<Rightarrow> litmus" where
  "at p pb w ab r k \<equiv> \<lparr>producer_at = p, push_buffered = pb, worker_at = w, arm_buffered = ab,
     mem_runnable = r, mem_parked = k\<rparr>"

lemma litmus_start: "litmus_reachable pfen wfen (at PPush False WIncrement False False False)"
  by (rule reach_init) (simp add: litmus_init_def)

text \<open>Without the producer's fence its load overtakes the push; the worker can be well fenced.\<close>

lemma unfenced_producer: "litmus_reachable False wfen (at (PSaw False) True (WSaw False) False False True)"
proof -
  note step = reach_step [where stp = "litmus_step False wfen"]
  have "litmus_reachable False wfen (at PFence True WIncrement False False False)"
    using step [OF litmus_start push] by simp
  from step [OF this producer_fence]
  have "litmus_reachable False wfen (at PLoad True WIncrement False False False)" by simp
  from step [OF this load_parked]
  have "litmus_reachable False wfen (at (PSaw False) True WIncrement False False False)" by simp
  from step [OF this fetch_add]
  have "litmus_reachable False wfen (at (PSaw False) True WFence True False False)" by simp
  from step [OF this arm_visible]
  have "litmus_reachable False wfen (at (PSaw False) True WFence False False True)" by simp
  from step [OF this worker_fence]
  have "litmus_reachable False wfen (at (PSaw False) True WSteal False False True)" by simp
  from step [OF this armed_steal] show ?thesis by simp
qed

text \<open>Without the worker's fence its scan overtakes the increment of \<open>parked\<close>.\<close>

lemma unfenced_worker: "litmus_reachable pfen False (at (PSaw False) False (WSaw False) True True False)"
proof -
  note step = reach_step [where stp = "litmus_step pfen False"]
  have "litmus_reachable pfen False (at PPush False WFence True False False)"
    using step [OF litmus_start fetch_add] by simp
  from step [OF this worker_fence]
  have "litmus_reachable pfen False (at PPush False WSteal True False False)" by simp
  from step [OF this armed_steal]
  have "litmus_reachable pfen False (at PPush False (WSaw False) True False False)" by simp
  from step [OF this push]
  have "litmus_reachable pfen False (at PFence True (WSaw False) True False False)" by simp
  from step [OF this push_visible]
  have "litmus_reachable pfen False (at PFence False (WSaw False) True True False)" by simp
  from step [OF this producer_fence]
  have "litmus_reachable pfen False (at PLoad False (WSaw False) True True False)" by simp
  from step [OF this load_parked] show ?thesis by simp
qed

section \<open>Property\<close>

text \<open>
  C20. Both fences are needed and together they are enough: a producer that sees no sleeper and
  a worker whose armed scan misses that producer's runnable can meet in one execution exactly
  if one of the two fences is left out.
\<close>
theorem both_fences_needed:
  "(\<nexists>s. reachable_from litmus_init (litmus_step pfen wfen) s \<and> both_miss s) \<longleftrightarrow> pfen \<and> wfen"
proof
  assume none: "\<nexists>s. litmus_reachable pfen wfen s \<and> both_miss s"
  have miss: "both_miss (at (PSaw False) pb (WSaw False) ab r k)" for pb ab r k
    by (simp add: both_miss_def)
  have pfen
  proof (rule ccontr)
    assume "\<not> pfen"
    with unfenced_producer [of wfen] miss none show False by simp blast
  qed
  moreover have wfen
  proof (rule ccontr)
    assume "\<not> wfen"
    with unfenced_worker [of pfen] miss none show False by simp blast
  qed
  ultimately show "pfen \<and> wfen" ..
next
  assume "pfen \<and> wfen"
  then show "\<nexists>s. litmus_reachable pfen wfen s \<and> both_miss s"
    using fenced.reachable_inv by (auto simp: fenced_inv_def)
qed

end
