(* ===== verification/Rng.thy ===== *)
theory Rng
  imports Prelude
begin

text \<open>
  The random source that rotates the scan order of a worker, \<open>src/queue.rs\<close>: the
  xorshift32 step, the multiply-and-shift reduction to an index, and the seed each worker
  derives from its index. The lemmas show that the state never reaches the absorbing zero,
  that the streams of two workers never meet, and how far from uniform the reduction is.
\<close>

unbundle bit_operations_syntax

section \<open>The generator\<close>

text \<open>The returned number and the new content of the cell, which are the same.\<close>

definition next_rand :: "u32 \<Rightarrow> u32 \<times> u32" where
  "next_rand rng =
     (let x = rng;
          x = x XOR push_bit 13 x;
          x = x XOR drop_bit 17 x;
          x = x XOR push_bit 5 x
      in (x, x))"

definition fast_reduce :: "u32 \<Rightarrow> usize \<Rightarrow> usize" where
  "fast_reduce rand span = drop_bit 32 ((ucast rand :: u64) * span)"

text \<open>The seed \<open>register_worker\<close> stores for the worker with index \<open>idx\<close>.\<close>

definition rng_seed :: "nat \<Rightarrow> u32" where
  "rng_seed idx = ((word_of_nat idx :: u32) * 0x9E3779B9) OR 1"

text \<open>The state after \<open>n\<close> draws.\<close>

definition rng_after :: "nat \<Rightarrow> u32 \<Rightarrow> u32" where
  "rng_after n rng = ((snd \<circ> next_rand) ^^ n) rng"

section \<open>The generator is a bijection\<close>

text \<open>
  Each of the three steps XORs the state with a shifted copy of itself, so a state that a
  step maps to zero equals its own shifted copy and, shifted often enough, is zero.
\<close>

lemma xor_push_bit_inj:
  fixes x y :: "'a::len word"
  assumes "0 < n" and eq: "x XOR push_bit n x = y XOR push_bit n y"
  shows "x = y"
proof -
  have bits: "bit x i = bit y i" for i
  proof (induction i rule: less_induct)
    case (less i)
    have "bit (x XOR push_bit n x) i = bit (y XOR push_bit n y) i" by (simp add: eq)
    moreover have "bit (push_bit n x) i = bit (push_bit n y) i"
      using less assms(1) by (auto simp: bit_push_bit_iff)
    ultimately show ?case by (auto simp: bit_xor_iff)
  qed
  then show ?thesis by (rule bit_word_eqI)
qed

lemma xor_drop_bit_inj:
  fixes x y :: "'a::len word"
  assumes "0 < n" and eq: "x XOR drop_bit n x = y XOR drop_bit n y"
  shows "x = y"
proof -
  have bits: "bit x i = bit y i" for i
  proof (induction "LENGTH('a) - i" arbitrary: i rule: less_induct)
    case less
    show ?case
    proof (cases "i < LENGTH('a)")
      case True
      then have "bit x (i + n) = bit y (i + n)" using less assms(1) by simp
      moreover have "bit (x XOR drop_bit n x) i = bit (y XOR drop_bit n y) i" by (simp add: eq)
      ultimately show ?thesis by (auto simp: bit_xor_iff bit_drop_bit_eq add.commute)
    next
      case False
      then show ?thesis by (simp add: bit_word.rep_eq bit_take_bit_iff)
    qed
  qed
  then show ?thesis by (rule bit_word_eqI)
qed

lemma snd_next_rand: "snd (next_rand x) = fst (next_rand x)"
  by (simp add: next_rand_def Let_def)

lemma next_rand_inj: "inj (snd \<circ> next_rand)"
proof (rule injI)
  fix x y
  assume eq: "(snd \<circ> next_rand) x = (snd \<circ> next_rand) y"
  define a b where "a = x XOR push_bit 13 x" and "b = y XOR push_bit 13 y"
  define c d where "c = a XOR drop_bit 17 a" and "d = b XOR drop_bit 17 b"
  have "c XOR push_bit 5 c = d XOR push_bit 5 d"
    using eq by (simp only: next_rand_def Let_def comp_def snd_conv a_def b_def c_def d_def)
  then have "c = d" by (rule xor_push_bit_inj [rotated]) simp
  then have "a = b" unfolding c_def d_def by (rule xor_drop_bit_inj [rotated]) simp
  then show "x = y" unfolding a_def b_def by (rule xor_push_bit_inj [rotated]) simp
qed

lemma next_rand_0: "snd (next_rand 0) = 0"
  by (simp add: next_rand_def)

lemma rng_after_inj: "inj (rng_after n)"
  using next_rand_inj unfolding rng_after_def by (rule inj_fn)

lemma rng_after_0: "rng_after n 0 = 0"
  by (induction n) (simp_all add: rng_after_def next_rand_0)

lemma rng_after_nonzero: "x \<noteq> 0 \<Longrightarrow> rng_after n x \<noteq> 0"
  using rng_after_inj [of n] rng_after_0 [of n] by (metis injD)

section \<open>Seeds\<close>

lemma rng_seed_odd: "odd (rng_seed idx)"
  by (simp add: rng_seed_def even_or_iff)

lemma rng_seed_nonzero: "rng_seed idx \<noteq> 0"
  using rng_seed_odd by (metis even_zero)

text \<open>The multiplier is odd, so it has an inverse modulo \<open>2^32\<close>, and that is large.\<close>

lemma seed_inverse: "(0x9E3779B9 :: u32) * 340573321 = 1"
  by simp

lemma or_1_cases:
  fixes x y :: "'a::len word"
  assumes "x OR 1 = y OR 1"
  shows "x = y \<or> x = y + 1 \<or> y = x + 1"
  using assms by (auto simp: or_one_eq of_bool_def split: if_splits)

lemma word_of_nat_small_inj:
  assumes "(word_of_nat a :: u32) = word_of_nat b + word_of_nat d"
    and "b + d < 2 ^ 32" and "a < 2 ^ 32"
  shows "a = b + d"
proof -
  have "(word_of_nat a :: u32) = word_of_nat (b + d)" using assms(1) by simp
  then have "unat (word_of_nat a :: u32) = unat (word_of_nat (b + d) :: u32)" by (rule arg_cong)
  with assms(2,3) show ?thesis
    by (simp only: unat_of_nat) (simp add: take_bit_nat_eq_self)
qed

lemma rng_seed_eq_cases:
  assumes "rng_seed i = rng_seed j" and "i < 2 ^ 32 - 340573321" and "j < 2 ^ 32 - 340573321"
  shows "i = j \<or> i = j + 340573321 \<or> j = i + 340573321"
proof -
  let ?c = "0x9E3779B9 :: u32" and ?i = "word_of_nat i :: u32" and ?j = "word_of_nat j :: u32"
  have cases: "?i * ?c = ?j * ?c \<or> ?i * ?c = ?j * ?c + 1 \<or> ?j * ?c = ?i * ?c + 1"
    using assms(1) unfolding rng_seed_def by (rule or_1_cases)
  have solve: "x = y + z * 340573321" if "x * ?c = y * ?c + z" for x y z :: u32
  proof -
    have "x * ?c * 340573321 = (y * ?c + z) * 340573321" using that by simp
    then show ?thesis by (simp only: distrib_right mult.assoc seed_inverse mult_1_right)
  qed
  from cases show ?thesis
  proof (elim disjE)
    assume "?i * ?c = ?j * ?c"
    then have "?i = ?j + word_of_nat 0" using solve [of ?i ?j 0] by simp
    then show ?thesis using word_of_nat_small_inj [of i j 0] assms(2,3) by simp
  next
    assume "?i * ?c = ?j * ?c + 1"
    then have "?i = ?j + word_of_nat 340573321" using solve [of ?i ?j 1] by simp
    then show ?thesis using word_of_nat_small_inj [of i j 340573321] assms(2,3) by simp
  next
    assume "?j * ?c = ?i * ?c + 1"
    then have "?j = ?i + word_of_nat 340573321" using solve [of ?j ?i 1] by simp
    then show ?thesis using word_of_nat_small_inj [of j i 340573321] assms(2,3) by simp
  qed
qed

section \<open>The reduction to an index\<close>

lemma unat_fast_reduce:
  assumes "span < 2 ^ 32"
  shows "unat (fast_reduce r (word_of_nat span)) = unat r * span div 2 ^ 32"
proof -
  have r: "unat (ucast r :: u64) = unat r"
    using unat_lt32 [of r] by (simp add: unsigned_ucast_eq take_bit_nat_eq_self)
  have s: "unat (word_of_nat span :: u64) = span"
    using assms by (simp only: unat_of_nat) (simp add: take_bit_nat_eq_self)
  have "unat r * span < 2 ^ 32 * 2 ^ 32"
    using unat_lt32 [of r] assms by (intro mult_strict_mono) auto
  then have "unat ((ucast r :: u64) * word_of_nat span) = unat r * span"
    by (simp add: unat_word_ariths r s)
  then show ?thesis
    unfolding fast_reduce_def unat_drop_bit_eq by (simp only: drop_bit_eq_div)
qed

lemma fast_reduce_less:
  assumes "0 < span" and "span < 2 ^ 32"
  shows "unat (fast_reduce r (word_of_nat span)) < span"
proof -
  have "unat r * span < 2 ^ 32 * span" using unat_lt32 [of r] assms(1) by simp
  then show ?thesis
    using assms(2) by (simp add: unat_fast_reduce less_mult_imp_div_less mult.commute)
qed

text \<open>The multiples of \<open>s\<close> in a window of length \<open>m\<close>: as many as \<open>m div s\<close>, or one more.\<close>

lemma multiples_in_window:
  assumes "0 < (s::nat)"
  shows "{n. a \<le> n * s \<and> n * s < a + m} = {(a + s - 1) div s..<(a + m + s - 1) div s}"
proof -
  have lo: "a \<le> n * s \<longleftrightarrow> (a + s - 1) div s \<le> n" for a n
  proof -
    have "(a + s - 1) div s \<le> n \<longleftrightarrow> a + s - 1 < (n + 1) * s"
      using assms by (metis Suc_eq_plus1 div_less_iff_less_mult less_Suc_eq_le)
    then show ?thesis using assms by (auto simp: algebra_simps)
  qed
  show ?thesis using lo [of a] lo [of "a + m"] by (auto simp: not_le [symmetric])
qed

lemma card_multiples_in_window:
  assumes "0 < (s::nat)"
  shows "card {n. a \<le> n * s \<and> n * s < a + m} \<in> {m div s, Suc (m div s)}"
proof -
  let ?b = "a + s - 1"
  have le1: "(?b mod s + m mod s) div s \<le> 1"
  proof -
    have "?b mod s < s" and "m mod s < s" using assms by simp_all
    then have "?b mod s + m mod s < 2 * s" by linarith
    then have "(?b mod s + m mod s) div s < 2" by (rule less_mult_imp_div_less)
    then show ?thesis by simp
  qed
  have "(a + m + s - 1) div s = (?b + m) div s"
    using assms by (simp add: algebra_simps)
  also have "\<dots> = ?b div s + m div s + (?b mod s + m mod s) div s"
    by (rule div_add1_eq)
  finally have "card {n. a \<le> n * s \<and> n * s < a + m} = m div s + (?b mod s + m mod s) div s"
    by (simp add: multiples_in_window [OF assms])
  with le1 show ?thesis by (auto simp: le_Suc_eq)
qed

lemma fast_reduce_preimage:
  assumes "k < span" and "span < 2 ^ 32"
  shows "card {r. unat (fast_reduce r (word_of_nat span)) = k}
    = card {n. k * 2 ^ 32 \<le> n * span \<and> n * span < k * 2 ^ 32 + 2 ^ 32}"
proof (rule bij_betw_same_card [where f = unat])
  let ?W = "{n. k * 2 ^ 32 \<le> n * span \<and> n * span < k * 2 ^ 32 + 2 ^ 32}"
  have iff: "unat (fast_reduce r (word_of_nat span)) = k \<longleftrightarrow> unat r \<in> ?W" for r
    unfolding unat_fast_reduce [OF assms(2)] by auto
  have bound: "n < 2 ^ 32" if "n \<in> ?W" for n
  proof -
    have "n * span < Suc k * 2 ^ 32" using that by simp
    also have "\<dots> \<le> span * 2 ^ 32" using assms(1) by (intro mult_le_mono1) simp
    finally show ?thesis by (simp add: mult.commute)
  qed
  show "bij_betw unat {r. unat (fast_reduce r (word_of_nat span)) = k} ?W"
  proof (rule bij_betw_imageI)
    show "inj_on unat {r :: u32. unat (fast_reduce r (word_of_nat span)) = k}"
      by (rule inj_on_subset [OF inj_unsigned]) simp
    show "unat ` {r. unat (fast_reduce r (word_of_nat span)) = k} = ?W"
    proof (intro equalityI subsetI)
      fix n assume n: "n \<in> ?W"
      then have "unat (word_of_nat n :: u32) = n"
        using bound by (simp only: unat_of_nat) (simp add: take_bit_nat_eq_self)
      with n iff show "n \<in> unat ` {r. unat (fast_reduce r (word_of_nat span)) = k}"
        by (metis (mono_tags, lifting) image_eqI mem_Collect_eq)
    qed (use iff in blast)
  qed
qed

section \<open>Properties of the random source\<close>

text \<open>
  The random streams of the workers: no worker's generator ever reaches zero, xorshift's
  absorbing state, whatever the index; and for indices below \<open>MAX_THREADS\<close> (512) the states
  of two workers differ after any equal number of draws, so idle workers do not walk in step.
\<close>
theorem worker_streams_differ:
  assumes "i < 512" and "j < 512" and "i \<noteq> j"
  shows "rng_after n (rng_seed idx) \<noteq> 0
    \<and> rng_after n (rng_seed i) \<noteq> rng_after n (rng_seed j)"
proof (intro conjI notI)
  show "rng_after n (rng_seed idx) = 0 \<Longrightarrow> False"
    using rng_after_nonzero [OF rng_seed_nonzero] by blast
  assume "rng_after n (rng_seed i) = rng_after n (rng_seed j)"
  then have "rng_seed i = rng_seed j" by (rule injD [OF rng_after_inj])
  then show False using rng_seed_eq_cases [of i j] assms by auto
qed

theorem worker_streams_differ_witness:
  "rng_after 9 (rng_seed 600) \<noteq> 0 \<and> rng_after 9 (rng_seed 4) \<noteq> rng_after 9 (rng_seed 5)"
  by (rule worker_streams_differ) simp_all

text \<open>
  The reduction is in range and as even as a multiply-and-shift can be: every start
  offset below the span is drawn by either \<open>2^32 div span\<close> or one more of the \<open>2^32\<close>
  generator states.
\<close>
theorem fast_reduce_even:
  assumes "k < span" and "span < 2 ^ 32"
  shows "unat (fast_reduce r (word_of_nat span)) < span
    \<and> card {r. unat (fast_reduce r (word_of_nat span)) = k}
        \<in> {2 ^ 32 div span, Suc (2 ^ 32 div span)}"
proof
  from assms have "0 < span" by simp
  then show "unat (fast_reduce r (word_of_nat span)) < span"
    using assms(2) by (rule fast_reduce_less)
  show "card {r. unat (fast_reduce r (word_of_nat span)) = k}
      \<in> {2 ^ 32 div span, Suc (2 ^ 32 div span)}"
    unfolding fast_reduce_preimage [OF assms] by (rule card_multiples_in_window) fact
qed

theorem fast_reduce_even_witness:
  "unat (fast_reduce 12345 (word_of_nat 7)) < 7
   \<and> card {r. unat (fast_reduce r (word_of_nat 7)) = 6} \<in> {2 ^ 32 div 7, Suc (2 ^ 32 div 7)}"
  by (rule fast_reduce_even) simp_all

text \<open>
  It is not unbiased: with a span of three, one more generator state selects the first
  offset than the second.
\<close>
theorem fast_reduce_biased:
  "card {r. unat (fast_reduce r (word_of_nat 3)) = 0}
     = Suc (card {r. unat (fast_reduce r (word_of_nat 3)) = 1})"
proof -
  have "card {r. unat (fast_reduce r (word_of_nat 3)) = 0} = 1431655766"
    using fast_reduce_preimage [of 0 3] multiples_in_window [of 3 0 "2 ^ 32"] by simp
  moreover have "card {r. unat (fast_reduce r (word_of_nat 3)) = 1} = 1431655765"
    using fast_reduce_preimage [of 1 3] multiples_in_window [of 3 "2 ^ 32" "2 ^ 32"] by simp
  ultimately show ?thesis by simp
qed

end
