(* ===== verification/Victims.thy ===== *)
theory Victims
  imports Rng
begin

text \<open>
  The order in which one scan pass visits the other injectors and the other workers'
  deques, \<open>src/queue.rs\<close>: the cap on cheap passes and the two rotations. Indices are
  natural numbers: tables have at most 1024 entries, so no index computation of the code
  can wrap. The contract both rotations share is the locale \<open>victim_walk\<close>.
\<close>

unbundle bit_operations_syntax

section \<open>Probes and their limit\<close>

datatype probe = Cheap | Strict

definition CHEAP_SCAN_VICTIMS :: nat where
  "CHEAP_SCAN_VICTIMS = 8"

fun probe_limit :: "nat \<Rightarrow> probe \<Rightarrow> nat" where
  "probe_limit span Cheap = min span CHEAP_SCAN_VICTIMS"
| "probe_limit span Strict = span"

lemma probe_limit_le: "probe_limit span p \<le> span"
  by (cases p) auto

lemma probe_limit_small: "span \<le> 8 \<Longrightarrow> probe_limit span p = span"
  by (cases p) (auto simp: CHEAP_SCAN_VICTIMS_def)

text \<open>
  The probes are ordered by thoroughness, so that the library's facts on monotone functions
  apply to them: a stricter probe never looks at fewer victims.
\<close>

instantiation probe :: linorder
begin

definition less_eq_probe :: "probe \<Rightarrow> probe \<Rightarrow> bool" where
  "less_eq_probe p q \<longleftrightarrow> p = Cheap \<or> q = Strict"

definition less_probe :: "probe \<Rightarrow> probe \<Rightarrow> bool" where
  "less_probe p q \<longleftrightarrow> p = Cheap \<and> q = Strict"

instance
proof
  fix p q r :: probe
  show "p < q \<longleftrightarrow> p \<le> q \<and> \<not> q \<le> p"
    by (cases p; cases q) (simp_all add: less_eq_probe_def less_probe_def)
  show "p \<le> p" by (cases p) (simp_all add: less_eq_probe_def)
  show "p \<le> r" if "p \<le> q" "q \<le> r" using that by (auto simp: less_eq_probe_def)
  show "p = q" if "p \<le> q" "q \<le> p" using that by (auto simp: less_eq_probe_def)
  show "p \<le> q \<or> q \<le> p" by (cases p; cases q) (simp_all add: less_eq_probe_def)
qed

end

lemma probe_limit_mono: "mono (probe_limit span)"
proof (rule monoI)
  fix p q :: probe
  assume "p \<le> q"
  then show "probe_limit span p \<le> probe_limit span q"
    by (cases p; cases q) (simp_all add: less_eq_probe_def)
qed

section \<open>The two rotations\<close>

text \<open>The offset of the \<open>k\<close>-th victim, wrapped by a conditional subtraction.\<close>

definition rot :: "nat \<Rightarrow> nat \<Rightarrow> nat \<Rightarrow> nat" where
  "rot span start k =
     (let offset = start + k in if span \<le> offset then offset - span else offset)"

definition shard_victim :: "nat \<Rightarrow> nat \<Rightarrow> nat \<Rightarrow> nat \<Rightarrow> nat \<Rightarrow> nat" where
  "shard_victim msk my_shard span start k = (my_shard + 1 + rot span start k) AND msk"

definition peer_victim :: "nat \<Rightarrow> nat \<Rightarrow> nat \<Rightarrow> nat \<Rightarrow> nat \<Rightarrow> nat" where
  "peer_victim num_workers idx span start k =
     (let victim = idx + 1 + rot span start k
      in if num_workers \<le> victim then victim - num_workers else victim)"

text \<open>
  The victims of one step, in order, for a start offset and the number of victims the
  probe allows. The injector table has \<open>msk + 1\<close> entries.
\<close>

definition shard_walk :: "nat \<Rightarrow> nat \<Rightarrow> nat \<Rightarrow> nat \<Rightarrow> nat list" where
  "shard_walk n my_shard start limit =
     map (shard_victim (n - 1) my_shard (n - 1) start) [0..<limit]"

definition peer_walk :: "nat \<Rightarrow> nat \<Rightarrow> nat \<Rightarrow> nat \<Rightarrow> nat list" where
  "peer_walk num_workers idx start limit =
     map (peer_victim num_workers idx (num_workers - 1) start) [0..<limit]"

text \<open>A stricter probe of the same step only appends victims to a cheaper one's walk.\<close>

lemma stricter_walk_extends:
  assumes "p \<le> q"
  shows "take (probe_limit span p) (shard_walk n my start (probe_limit span q))
      = shard_walk n my start (probe_limit span p)"
    and "take (probe_limit span p) (peer_walk n idx start (probe_limit span q))
      = peer_walk n idx start (probe_limit span p)"
  using monoD [OF probe_limit_mono assms, of span]
  by (simp_all add: shard_walk_def peer_walk_def take_map take_upt)

section \<open>The contract of a walk\<close>

text \<open>
  \<open>walk entries self start limit\<close> lists \<open>limit\<close> victims among \<open>entries\<close> entries for the
  owner \<open>self\<close>. The provider promises that it goes round a fixed circle of all the other
  entries (\<open>pos\<close>), beginning at \<open>start\<close>.
\<close>

locale victim_walk =
  fixes valid :: "nat \<Rightarrow> nat \<Rightarrow> bool"
    and pos :: "nat \<Rightarrow> nat \<Rightarrow> nat \<Rightarrow> nat"
    and walk :: "nat \<Rightarrow> nat \<Rightarrow> nat \<Rightarrow> nat \<Rightarrow> nat list"
  assumes pos_bij:
      "valid entries self \<Longrightarrow> bij_betw (pos entries self) {..<entries - 1} ({..<entries} - {self})"
    and walk_pos:
      "valid entries self \<Longrightarrow> start < entries - 1 \<Longrightarrow> limit \<le> entries - 1 \<Longrightarrow>
       walk entries self start limit
         = map (\<lambda>k. pos entries self ((start + k) mod (entries - 1))) [0..<limit]"
begin

lemma walk_length:
  "valid entries self \<Longrightarrow> start < entries - 1 \<Longrightarrow> limit \<le> entries - 1 \<Longrightarrow>
   length (walk entries self start limit) = limit"
  by (simp add: walk_pos)

lemma walk_bij:
  assumes "valid entries self" and "start < entries - 1"
  shows "bij_betw (\<lambda>k. pos entries self ((start + k) mod (entries - 1)))
    {..<entries - 1} ({..<entries} - {self})"
proof -
  from assms(2) have "0 < entries - 1" by simp
  then show ?thesis
    using bij_betw_trans [OF bij_betw_rotate [of _ start 0] pos_bij [OF assms(1)]]
    by (simp add: comp_def atLeast0LessThan)
qed

lemma walk_distinct:
  assumes "valid entries self" and "start < entries - 1" and "limit \<le> entries - 1"
  shows "distinct (walk entries self start limit)"
proof -
  have "inj_on (\<lambda>k. pos entries self ((start + k) mod (entries - 1))) {..<limit}"
    using bij_betw_imp_inj_on [OF walk_bij [OF assms(1,2)]] assms(3)
    by (elim inj_on_subset) auto
  then show ?thesis
    using assms by (simp add: walk_pos distinct_map atLeast_upt)
qed

lemma walk_subset:
  assumes "valid entries self" and "start < entries - 1" and "limit \<le> entries - 1"
  shows "set (walk entries self start limit) \<subseteq> {..<entries} - {self}"
proof -
  have "(\<lambda>k. pos entries self ((start + k) mod (entries - 1))) ` {..<entries - 1} = {..<entries} - {self}"
    using walk_bij [OF assms(1,2)] by (rule bij_betw_imp_surj_on)
  with assms show ?thesis by (fastforce simp: walk_pos)
qed

lemma walk_full:
  assumes "valid entries self" and "start < entries - 1"
  shows "set (walk entries self start (entries - 1)) = {..<entries} - {self}"
proof -
  have "(\<lambda>k. pos entries self ((start + k) mod (entries - 1))) ` {..<entries - 1} = {..<entries} - {self}"
    using walk_bij [OF assms] by (rule bij_betw_imp_surj_on)
  with assms show ?thesis by (simp add: walk_pos atLeast_upt)
qed

text \<open>A bounded walk gives every victim the same share of the start offsets.\<close>

lemma walk_share:
  assumes "valid entries self" and "v < entries" and "v \<noteq> self" and "limit \<le> entries - 1"
  shows "card {start. start < entries - 1 \<and> v \<in> set (walk entries self start limit)} = limit"
proof -
  let ?m = "entries - 1"
  have "v \<in> pos entries self ` {..<?m}"
    using bij_betw_imp_surj_on [OF pos_bij [OF assms(1)]] assms(2,3) by simp
  then obtain p where p: "p < ?m" "pos entries self p = v" by auto
  then have m: "0 < ?m" by simp
  have hit: "pos entries self ((start + k) mod ?m) = v \<longleftrightarrow> (start + k) mod ?m = p" for start k
    using pos_bij [OF assms(1)] p m by (auto simp: bij_betw_def dest: inj_onD)
  have at: "((p + (?m - k)) mod ?m + k) mod ?m = p" if "k < limit" for k
  proof -
    have "((p + (?m - k)) mod ?m + k) mod ?m = (p + (?m - k) + k) mod ?m"
      by (rule mod_add_left_eq)
    also have "p + (?m - k) + k = p + ?m" using that assms(4) by simp
    also have "(p + ?m) mod ?m = p" using p(1) by (simp only: mod_add_self2 mod_less)
    finally show ?thesis .
  qed
  have "{start. start < ?m \<and> v \<in> set (walk entries self start limit)}
      = (\<lambda>k. (p + (?m - k)) mod ?m) ` {..<limit}" (is "?S = ?T")
  proof (intro equalityI subsetI)
    fix start assume "start \<in> ?S"
    then have lt: "start < ?m" and "v \<in> set (walk entries self start limit)" by auto
    then obtain k where k: "k < limit" "v = pos entries self ((start + k) mod ?m)"
      unfolding walk_pos [OF assms(1) lt assms(4)] by auto
    with hit [of start k] have "(start + k) mod ?m = p" by simp
    then have "(k + start) mod ?m = p" by (simp only: add.commute [of k start])
    moreover have "(k + (p + (?m - k)) mod ?m) mod ?m = p"
      using at [OF k(1)] by (simp only: add.commute [of k "(p + (?m - k)) mod ?m"])
    ultimately have eq: "(k + start) mod ?m = (k + (p + (?m - k)) mod ?m) mod ?m"
      by (simp only:)
    have "start = (p + (?m - k)) mod ?m" by (rule rotate_inj [OF lt mod_less_divisor [OF m] eq])
    with k(1) show "start \<in> ?T" by blast
  next
    fix start assume "start \<in> ?T"
    then obtain k where k: "k < limit" "start = (p + (?m - k)) mod ?m" by blast
    then have "start < ?m" using m by simp
    moreover have "v = pos entries self ((start + k) mod ?m)" using at [OF k(1)] k(2) p(2) by simp
    ultimately show "start \<in> ?S" using k(1) by (auto simp: walk_pos [OF assms(1) _ assms(4)])
  qed
  moreover have "inj_on (\<lambda>k. (p + (?m - k)) mod ?m) {..<limit}"
  proof (rule inj_onI)
    fix x y
    assume xy: "x \<in> {..<limit}" "y \<in> {..<limit}"
      and eq: "(p + (?m - x)) mod ?m = (p + (?m - y)) mod ?m"
    have inj: "inj_on (\<lambda>j. (p + j) mod ?m) {1..<1 + ?m}"
      using bij_betw_rotate [OF m] by (rule bij_betw_imp_inj_on)
    have "?m - x = ?m - y"
      by (rule inj_onD [OF inj]) (use eq xy assms(4) in auto)
    with xy assms(4) show "x = y" by auto
  qed
  ultimately show ?thesis by (simp add: card_image)
qed

end

section \<open>The code's rotations keep the contract\<close>

lemma rot_mod: "start < span \<Longrightarrow> k < span \<Longrightarrow> rot span start k = (start + k) mod span"
  by (simp add: rot_def Let_def wrap_by_subtraction)

definition circle_pos :: "nat \<Rightarrow> nat \<Rightarrow> nat \<Rightarrow> nat" where
  "circle_pos entries self j = (self + 1 + j) mod entries"

lemma circle_pos_bij:
  assumes "self < entries"
  shows "bij_betw (circle_pos entries self) {..<entries - 1} ({..<entries} - {self})"
proof -
  have full: "bij_betw (circle_pos entries self) {..<entries} {..<entries}"
    using bij_betw_rotate [of entries "self + 1" 0] assms
    unfolding circle_pos_def by (simp add: atLeast0LessThan)
  have split: "{..<entries} = insert (entries - 1) {..<entries - 1}" using assms by auto
  have last: "circle_pos entries self (entries - 1) = self"
    using assms by (simp add: circle_pos_def)
  have "bij_betw (circle_pos entries self) ({..<entries} - {entries - 1}) ({..<entries} - {self})"
    using bij_betw_DiffI [OF full, of "{entries - 1}" "{self}"] assms last
    by (simp add: bij_betw_singletonI)
  then show ?thesis using split by (metis Diff_insert_absorb lessThan_iff less_irrefl)
qed

lemma shard_walk_pos:
  assumes "start < 2 ^ k - 1" and "limit \<le> 2 ^ k - 1"
  shows "shard_walk (2 ^ k) s start limit
    = map (\<lambda>j. circle_pos (2 ^ k) s ((start + j) mod (2 ^ k - 1))) [0..<limit]"
  using assms by (auto simp: shard_walk_def shard_victim_def circle_pos_def mask_simps rot_mod)

lemma peer_walk_pos:
  assumes "s < n" and "start < n - 1" and "limit \<le> n - 1"
  shows "peer_walk n s start limit
    = map (\<lambda>j. circle_pos n s ((start + j) mod (n - 1))) [0..<limit]"
proof -
  have "peer_victim n s (n - 1) start j = circle_pos n s ((start + j) mod (n - 1))"
    if "j < limit" for j
  proof -
    have "(start + j) mod (n - 1) < n - 1" using assms(2) by simp
    with assms(1) have "s + 1 + (start + j) mod (n - 1) < 2 * n" by linarith
    then show ?thesis
      using that assms
      by (simp add: peer_victim_def Let_def rot_mod circle_pos_def wrap_by_subtraction)
  qed
  then show ?thesis by (simp add: peer_walk_def)
qed

interpretation shards: victim_walk "\<lambda>n s. s < n \<and> (\<exists>k. n = 2 ^ k)" circle_pos shard_walk
  by unfold_locales (auto simp: shard_walk_pos circle_pos_bij simp del: One_nat_def)

interpretation peers: victim_walk "\<lambda>n s. s < n" circle_pos peer_walk
  by unfold_locales (use circle_pos_bij peer_walk_pos in auto)

section \<open>Properties of the scan order\<close>

text \<open>
  A strict pass inspects every other injector and every other worker exactly once,
  whatever the random start: both walks list all other entries of the table, without
  repetition and without the worker's own.
\<close>
theorem strict_walks_visit_all:
  assumes "my < 2 ^ k" and "start < 2 ^ k - 1" and "idx < n" and "pstart < n - 1"
  shows "distinct (shard_walk (2 ^ k) my start (probe_limit (2 ^ k - 1) Strict))
    \<and> set (shard_walk (2 ^ k) my start (probe_limit (2 ^ k - 1) Strict)) = {..<2 ^ k} - {my}
    \<and> distinct (peer_walk n idx pstart (probe_limit (n - 1) Strict))
    \<and> set (peer_walk n idx pstart (probe_limit (n - 1) Strict)) = {..<n} - {idx}"
proof -
  have k: "my < 2 ^ k \<and> (\<exists>l. (2::nat) ^ k = 2 ^ l)" using assms(1) by blast
  show ?thesis
    using shards.walk_distinct [OF k assms(2) order_refl] shards.walk_full [OF k assms(2)]
      peers.walk_distinct [OF assms(3,4) order_refl] peers.walk_full [OF assms(3,4)] by simp
qed

theorem strict_walks_visit_all_witness:
  "distinct (shard_walk (2 ^ 3) 5 6 (probe_limit (2 ^ 3 - 1) Strict))
    \<and> set (shard_walk (2 ^ 3) 5 6 (probe_limit (2 ^ 3 - 1) Strict)) = {..<2 ^ 3} - {5}
    \<and> distinct (peer_walk 20 3 18 (probe_limit (20 - 1) Strict))
    \<and> set (peer_walk 20 3 18 (probe_limit (20 - 1) Strict)) = {..<20} - {3}"
  by (rule strict_walks_visit_all) simp_all

text \<open>
  A cheap pass inspects at most eight peers, all different and none the worker itself,
  and shares its attention evenly: each peer is inspected under exactly as many of the
  possible start offsets as the pass has victims.
\<close>
theorem cheap_walk_fair:
  assumes "idx < n" and "start < n - 1" and "v < n" and "v \<noteq> idx"
  shows "length (peer_walk n idx start (probe_limit (n - 1) Cheap)) = min (n - 1) 8
    \<and> distinct (peer_walk n idx start (probe_limit (n - 1) Cheap))
    \<and> set (peer_walk n idx start (probe_limit (n - 1) Cheap)) \<subseteq> {..<n} - {idx}
    \<and> card {s. s < n - 1 \<and> v \<in> set (peer_walk n idx s (probe_limit (n - 1) Cheap))}
        = min (n - 1) 8"
  using peers.walk_length [OF assms(1,2) probe_limit_le [of _ Cheap]]
    peers.walk_distinct [OF assms(1,2) probe_limit_le [of _ Cheap]]
    peers.walk_subset [OF assms(1,2) probe_limit_le [of _ Cheap]]
    peers.walk_share [OF assms(1,3,4) probe_limit_le [of _ Cheap]]
  by (simp add: CHEAP_SCAN_VICTIMS_def)

theorem cheap_walk_fair_witness:
  "length (peer_walk 20 3 5 (probe_limit (20 - 1) Cheap)) = min (20 - 1) 8
    \<and> distinct (peer_walk 20 3 5 (probe_limit (20 - 1) Cheap))
    \<and> set (peer_walk 20 3 5 (probe_limit (20 - 1) Cheap)) \<subseteq> {..<20} - {3}
    \<and> card {s. s < 20 - 1 \<and> (7::nat) \<in> set (peer_walk 20 3 s (probe_limit (20 - 1) Cheap))}
        = min (20 - 1) 8"
  by (rule cheap_walk_fair) simp_all

end
