(* ===== verification/Routing.thy ===== *)
theory Routing
  imports Prelude
begin

text \<open>
  The producer side of shard routing, \<open>src/cpu.rs\<close>: the thread-local route
  record, one routing decision and its spill rotation, and runs of pushes by one
  thread and by several interleaved threads. The hash of a thread id comes from the
  standard library's default hasher, whose algorithm is unspecified: it is the
  argument \<open>hash\<close> throughout.
\<close>

unbundle bit_operations_syntax

section \<open>One routing decision\<close>

definition SPILL_THRESHOLD :: u32 where
  "SPILL_THRESHOLD = 8"

record producer_route =
  shard_hint :: usize
  last_preferred :: usize
  consecutive :: u32

text \<open>\<open>usize::MAX\<close> and \<open>u32::saturating_add\<close>.\<close>

definition usize_max :: usize where
  "usize_max = -1"

definition saturating_add_u32 :: "u32 \<Rightarrow> u32 \<Rightarrow> u32" where
  "saturating_add_u32 a b = (if unat a + unat b < 2 ^ 32 then a + b else -1)"

text \<open>
  \<open>route_shard hash mask cell\<close>: \<open>cell\<close> is the content of the thread-local
  \<open>ROUTE\<close>; the result is the chosen shard and the new content of the cell.
\<close>

definition route_shard ::
  "usize \<Rightarrow> usize \<Rightarrow> producer_route option \<Rightarrow> usize \<times> producer_route option" where
  "route_shard hash msk cell =
     (let route = (case cell of
            Some r \<Rightarrow> r
          | None \<Rightarrow> \<lparr>shard_hint = hash, last_preferred = usize_max, consecutive = 0\<rparr>);
          preferred = shard_hint route AND msk;
          new_count = (if last_preferred route = preferred
                       then saturating_add_u32 (consecutive route) 1 else 1);
          route' = route\<lparr>last_preferred := preferred, consecutive := new_count\<rparr>
      in (if new_count \<le> SPILL_THRESHOLD then preferred
          else (preferred + ucast (new_count - SPILL_THRESHOLD)) AND msk,
          Some route'))"

text \<open>A thread that pushes \<open>n\<close> times in a row to queues with the same mask.\<close>

primrec route_run ::
  "usize \<Rightarrow> usize \<Rightarrow> nat \<Rightarrow> producer_route option \<Rightarrow> usize list \<times> producer_route option" where
  "route_run hash msk 0 cell = ([], cell)"
| "route_run hash msk (Suc n) cell =
     (let (t, cell') = route_shard hash msk cell;
          (ts, cell'') = route_run hash msk n cell'
      in (t # ts, cell''))"

text \<open>
  Several threads push to one queue, in the order the list gives; each has its own
  cell (\<open>thread_local!\<close>).
\<close>

primrec route_threads ::
  "('tid \<Rightarrow> usize) \<Rightarrow> usize \<Rightarrow> 'tid list \<Rightarrow> ('tid \<Rightarrow> producer_route option) \<Rightarrow>
     ('tid \<times> usize) list" where
  "route_threads hash msk [] cells = []"
| "route_threads hash msk (t # ts) cells =
     (let (s, c) = route_shard (hash t) msk (cells t)
      in (t, s) # route_threads hash msk ts (cells(t := c)))"

section \<open>Arithmetic of the counter\<close>

lemma unat_saturating_add_1: "unat (saturating_add_u32 c 1) = min (unat c + 1) (2 ^ 32 - 1)"
proof (cases "unat c + 1 < 2 ^ 32")
  case True
  then show ?thesis by (simp add: saturating_add_u32_def unat_word_ariths)
next
  case False
  then show ?thesis
    using unat_lt32 [of c]
    by (simp add: saturating_add_u32_def unsigned_minus_1_eq_mask mask_eq_exp_minus_1)
qed

lemma unat_spill:
  assumes "SPILL_THRESHOLD < c"
  shows "unat (ucast (c - SPILL_THRESHOLD) :: usize) = unat c - 8"
proof -
  have "unat (c - SPILL_THRESHOLD) = unat c - 8"
    using assms by (simp add: SPILL_THRESHOLD_def unat_sub word_less_nat_alt less_imp_le)
  moreover have "unat c < 2 ^ 32" using unat_lt32 [of c] by simp
  ultimately show ?thesis by (simp add: unsigned_ucast_eq take_bit_nat_eq_self)
qed


section \<open>The route of the n-th push\<close>

text \<open>
  The content of the cell after \<open>i\<close> pushes of a thread to queues with mask
  \<open>msk\<close>: the counter counts them, and stops at \<open>u32::MAX\<close>.
\<close>

definition cell_after :: "usize \<Rightarrow> usize \<Rightarrow> nat \<Rightarrow> producer_route option" where
  "cell_after hash msk i =
     (if i = 0 then None
      else Some \<lparr>shard_hint = hash, last_preferred = hash AND msk,
                 consecutive = word_of_nat (min i (2 ^ 32 - 1))\<rparr>)"

text \<open>The shard of the \<open>c\<close>-th counted push (from 1): the preferred one up to the
  threshold, then one further each time.\<close>

definition spill_target :: "usize \<Rightarrow> usize \<Rightarrow> nat \<Rightarrow> usize" where
  "spill_target hash msk c = ((hash AND msk) + word_of_nat (c - 8)) AND msk"

lemma saturating_add_word_of_nat:
  "saturating_add_u32 (word_of_nat (min i (2 ^ 32 - 1))) 1 = word_of_nat (min (Suc i) (2 ^ 32 - 1))"
proof -
  have "unat (word_of_nat (min i (2 ^ 32 - 1)) :: u32) = min i (2 ^ 32 - 1)"
    by (simp add: unat_of_nat take_bit_nat_eq_self)
  then have "unat (saturating_add_u32 (word_of_nat (min i (2 ^ 32 - 1))) 1)
      = min (Suc i) (2 ^ 32 - 1)"
    by (simp add: unat_saturating_add_1)
  then show ?thesis by (rule unat_eq_imp_word_of_nat)
qed

lemma spill_choice:
  assumes "unat c = n"
  shows "(if c \<le> SPILL_THRESHOLD then hash AND msk
          else ((hash AND msk) + ucast (c - SPILL_THRESHOLD)) AND msk) = spill_target hash msk n"
proof (cases "c \<le> SPILL_THRESHOLD")
  case True
  then have "n \<le> 8" using assms by (simp add: SPILL_THRESHOLD_def word_le_nat_alt)
  with True show ?thesis by (simp add: spill_target_def)
next
  case False
  then have "(ucast (c - SPILL_THRESHOLD) :: usize) = word_of_nat (n - 8)"
    using unat_spill [of c] assms by (intro unat_eq_imp_word_of_nat) (simp add: not_le)
  with False show ?thesis by (simp add: spill_target_def)
qed

lemma route_shard_counted:
  "route_shard h msk (Some \<lparr>shard_hint = hash, last_preferred = hash AND msk, consecutive = c\<rparr>)
     = (spill_target hash msk (unat (saturating_add_u32 c 1)),
        Some \<lparr>shard_hint = hash, last_preferred = hash AND msk,
              consecutive = saturating_add_u32 c 1\<rparr>)"
  using spill_choice [OF refl, of "saturating_add_u32 c 1" hash msk]
  by (simp add: route_shard_def Let_def split: if_splits)

lemma route_shard_cell_after:
  "route_shard hash msk (cell_after hash msk i)
     = (spill_target hash msk (min (Suc i) (2 ^ 32 - 1)), cell_after hash msk (Suc i))"
proof -
  let ?c = "word_of_nat (min (Suc i) (2 ^ 32 - 1)) :: u32"
  have c: "unat ?c = min (Suc i) (2 ^ 32 - 1)"
    by (simp only: unat_of_nat) (simp add: take_bit_nat_eq_self)
  show ?thesis
  proof (cases "i = 0")
    case True
    have one: "saturating_add_u32 0 1 = 1"
      by (simp add: saturating_add_u32_def)
    have "1 \<le> SPILL_THRESHOLD" and "spill_target hash msk 1 = hash AND msk"
      by (simp_all add: SPILL_THRESHOLD_def spill_target_def)
    with True one show ?thesis
      by (simp add: route_shard_def cell_after_def Let_def)
  next
    case False
    have sat: "saturating_add_u32 (word_of_nat (min i (2 ^ 32 - 1))) 1 = ?c"
      by (rule saturating_add_word_of_nat)
    show ?thesis
      unfolding cell_after_def if_not_P [OF False] route_shard_counted sat c by simp
  qed
qed

lemma route_run_cell_after:
  "route_run hash msk n (cell_after hash msk i)
     = (map (\<lambda>j. spill_target hash msk (min (Suc (i + j)) (2 ^ 32 - 1))) [0..<n],
        cell_after hash msk (i + n))"
proof (induction n arbitrary: i)
  case 0
  show ?case by simp
next
  case (Suc n)
  have "[0..<Suc n] = 0 # map Suc [0..<n]"
    by (simp add: upt_conv_Cons map_Suc_upt)
  then show ?case
    by (simp add: route_shard_cell_after Suc.IH comp_def del: upt_Suc)
qed

lemma unat_spill_target:
  assumes "k < 64"
  shows "unat (spill_target hash (mask k) c) = (unat hash + (c - 8)) mod 2 ^ k"
proof -
  have dvd: "(2 ^ k :: nat) dvd 2 ^ 64"
    using assms by (intro le_imp_power_dvd) simp
  have "unat (spill_target hash (mask k) c)
      = (unat hash mod 2 ^ k + (c - 8) mod 2 ^ 64) mod 2 ^ 64 mod 2 ^ k"
    unfolding spill_target_def mask_simps unat_word_ariths(1) unat_of_nat take_bit_eq_mod
    by simp
  also have "\<dots> = (unat hash mod 2 ^ k + (c - 8) mod 2 ^ 64) mod 2 ^ k"
    using dvd by (rule mod_mod_cancel)
  also have "\<dots> = (unat hash + (c - 8)) mod 2 ^ k"
    by (intro mod_add_cong mod_mod_trivial mod_mod_cancel dvd)
  finally show ?thesis .
qed


lemma route_run_fresh_nth:
  assumes "i < n"
  shows "fst (route_run hash msk n None) ! i = spill_target hash msk (min (Suc i) (2 ^ 32 - 1))"
  using assms route_run_cell_after [of hash msk n 0] by (simp add: cell_after_def)

lemma length_route_run: "length (fst (route_run hash msk n cell)) = n"
  by (induction n arbitrary: cell) (simp_all add: case_prod_beta Let_def)

lemma route_shard_masked: "fst (route_shard hash msk cell) AND msk = fst (route_shard hash msk cell)"
  by (simp add: route_shard_def Let_def)

section \<open>Properties of routing\<close>

text \<open>
  A routing decision is a valid shard index: with a mask of \<open>2^k - 1\<close>, whatever the
  thread's hash and whatever its route cell holds, the chosen shard is below \<open>2^k\<close>, the
  number of injectors.
\<close>
theorem route_shard_in_range:
  "unat (fst (route_shard hash (mask k) cell)) < 2 ^ k"
proof -
  have "unat (fst (route_shard hash (mask k) cell))
      = unat (fst (route_shard hash (mask k) cell)) mod 2 ^ k"
    by (metis route_shard_masked unat_and_mask)
  then show ?thesis by (metis mod_less_divisor zero_less_numeral zero_less_power)
qed

text \<open>
  C29. The shard of every push of a thread to one queue, in closed form. The first eight
  pushes go to the preferred shard \<open>hash mod 2^k\<close>; each later one goes one shard further,
  until the counter stops at \<open>u32::MAX\<close>.
\<close>
theorem route_run_targets:
  assumes "k < 64" and "i < n"
  shows "unat (fst (route_run hash (mask k) n None) ! i)
    = (unat hash + (min (Suc i) (2 ^ 32 - 1) - 8)) mod 2 ^ k"
  using assms by (simp only: route_run_fresh_nth unat_spill_target)

theorem route_run_targets_witness:
  "unat (fst (route_run 5 (mask 3) 12 None) ! 10) = (unat (5 :: usize) + (11 - 8)) mod 8"
  using route_run_targets [of 3 10 12 5] by simp

text \<open>
  Once a thread spills, its pushes rotate over the whole queue: any \<open>2^k\<close> consecutive
  pushes past the threshold (and before the counter saturates) hit every shard exactly once.
\<close>
theorem spill_covers_every_shard:
  assumes "k < 64" and "7 \<le> i" and "i + 2 ^ k < 2 ^ 32" and "i + 2 ^ k \<le> n"
  shows "bij_betw (\<lambda>j. unat (fst (route_run hash (mask k) n None) ! j))
    {i..<i + 2 ^ k} {..<2 ^ k}"
proof -
  have eq: "unat (fst (route_run hash (mask k) n None) ! j) = (unat hash + (j - 7)) mod 2 ^ k"
    if "j \<in> {i..<i + 2 ^ k}" for j
  proof -
    have "min (Suc j) (2 ^ 32 - 1) - 8 = j - 7" using that assms(3) by simp
    moreover have "j < n" using that assms(4) by simp
    ultimately show ?thesis
      by (simp only: route_run_fresh_nth unat_spill_target [OF assms(1)])
  qed
  have shift: "bij_betw (\<lambda>j. j - 7) {i..<i + 2 ^ k} {i - 7..<i - 7 + 2 ^ k}"
    using assms(2) by (intro bij_betw_byWitness [where f' = "\<lambda>j. j + 7"]) auto
  have "bij_betw ((\<lambda>j. (unat hash + j) mod 2 ^ k) \<circ> (\<lambda>j. j - 7)) {i..<i + 2 ^ k} {..<2 ^ k}"
    by (rule bij_betw_trans [OF shift bij_betw_rotate]) simp
  then show ?thesis
    by (rule bij_betw_cong [THEN iffD1, rotated]) (simp add: eq)
qed

theorem spill_covers_every_shard_witness:
  "bij_betw (\<lambda>j. unat (fst (route_run 5 (mask 2) 20 None) ! j)) {7..<7 + 2 ^ 2} {..<2 ^ 2}"
  by (rule spill_covers_every_shard) simp_all

text \<open>
  C30. The rotation ends: from the push that brings the saturating counter to
  \<open>u32::MAX\<close> on, the thread routes every push to one and the same shard.
\<close>
theorem spill_rotation_freezes:
  assumes "2 ^ 32 - 2 \<le> i" and "i < n" and "2 ^ 32 - 2 \<le> j" and "j < n"
  shows "fst (route_run hash msk n None) ! i = fst (route_run hash msk n None) ! j"
proof -
  have "min (Suc l) (2 ^ 32 - 1) = 2 ^ 32 - 1" if "2 ^ 32 - 2 \<le> l" for l :: nat
    using that by simp
  with assms show ?thesis by (simp only: route_run_fresh_nth)
qed

theorem spill_rotation_freezes_witness:
  "fst (route_run 5 7 (2 ^ 32 + 10) None) ! (2 ^ 32 + 1)
     = fst (route_run 5 7 (2 ^ 32 + 10) None) ! (2 ^ 32 + 2)"
  by (rule spill_rotation_freezes) simp_all

text \<open>
  Producers do not influence each other's routes: in any interleaving of pushes by any
  number of threads, the shards a thread's pushes go to are those of the same number of
  pushes made alone. In particular no interleaving resets a thread's spill counter.
\<close>
theorem interleaved_routes_independent:
  "map snd (filter (\<lambda>p. fst p = t) (route_threads hash msk ts cells))
     = fst (route_run (hash t) msk (count_list ts t) (cells t))"
proof (induction ts arbitrary: cells)
  case Nil
  show ?case by simp
next
  case (Cons u ts)
  show ?case by (auto simp: Cons.IH split: prod.splits)
qed

end
