(* ===== verification/Queue.thy ===== *)
theory Queue
  imports Victims Routing
begin

text \<open>
  The data of \<open>src/queue.rs\<close>: the queue record, the per-worker context, the thread-local
  worker handle, construction with the shard-count rule, registration of a worker, and the
  placement of a pushed runnable. Contents of the \<open>crossbeam_deque\<close> containers are lists
  in removal order (they are documented to be FIFO). A worker's deque is shared between the
  worker and its stealer slot, so deques live in a store and both hold an address.
\<close>

unbundle bit_operations_syntax

section \<open>Data\<close>

text \<open>The threads that touch a queue: workers, foreign producers, the one that shuts it down.\<close>

datatype tid = Wrk nat | Prod nat | Closer

record worker_context =
  ctx_idx :: nat
  ctx_deque :: nat
  ctx_rng :: u32

record worker_handle =
  handle_queue :: nat
  handle_deque :: nat

text \<open>
  \<open>park\<close> is the holder of the mutex, \<open>waiters\<close> the workers blocked in \<open>notify.wait\<close>
  and not yet signalled. \<open>deques\<close> and \<open>next_addr\<close> are the store of worker deques.
\<close>

record 'r queue =
  injectors :: "'r list list"
  stealers :: "nat option list"
  shard_mask :: nat
  park :: "tid option"
  waiters :: "nat set"
  parked :: usize
  notified :: usize
  shutdown_flag :: bool
  deques :: "nat \<Rightarrow> 'r list"
  next_addr :: nat

section \<open>Construction\<close>

text \<open>
  \<open>Ord::clamp\<close> panics when the bounds are crossed, \<open>next_power_of_two\<close> when the
  result does not fit in \<open>usize\<close> (in a debug build); \<open>None\<close> is the panic.
\<close>

definition clamp :: "nat \<Rightarrow> nat \<Rightarrow> nat \<Rightarrow> nat option" where
  "clamp x lo hi = (if hi < lo then None
                    else Some (if x < lo then lo else if hi < x then hi else x))"

function power_from :: "nat \<Rightarrow> nat \<Rightarrow> nat" where
  "power_from p n = (if p = 0 \<or> n \<le> p then p else power_from (2 * p) n)"
  by pat_completeness auto
termination
  by (relation "measure (\<lambda>(p, n). n - p)") auto

declare power_from.simps [simp del]

definition next_power_of_two :: "nat \<Rightarrow> nat option" where
  "next_power_of_two n = (if n \<le> 2 ^ 63 then Some (power_from 1 n) else None)"

definition MAX_SHARDS :: nat where
  "MAX_SHARDS = 8"

definition num_shards :: "nat \<Rightarrow> nat option \<Rightarrow> nat option" where
  "num_shards num_workers shard_override =
     (case shard_override of
        Some n \<Rightarrow> Option.bind (clamp n 1 num_workers) next_power_of_two
      | None \<Rightarrow> Option.bind (next_power_of_two num_workers) (\<lambda>p. clamp p 1 MAX_SHARDS))"

definition queue_new :: "nat \<Rightarrow> nat option \<Rightarrow> 'r queue option" where
  "queue_new num_workers shard_override =
     map_option (\<lambda>n. \<lparr>injectors = replicate n [], stealers = replicate num_workers None,
        shard_mask = n - 1, park = None, waiters = {}, parked = 0, notified = 0,
        shutdown_flag = False, deques = (\<lambda>_. []), next_addr = 0\<rparr>)
       (num_shards num_workers shard_override)"

lemma queue_new_fields:
  assumes "queue_new nw ov = Some q"
  shows "stealers q = replicate nw None" "park q = None" "waiters q = {}" "parked q = 0"
    "notified q = 0" "shutdown_flag q = False" "deques q = (\<lambda>_. [])" "next_addr q = 0"
    "set (injectors q) \<subseteq> {[]}"
  using assms by (auto simp: queue_new_def)

section \<open>Workers\<close>

text \<open>
  A fresh deque and its stealer in slot \<open>idx\<close>; \<open>None\<close> is the index panic of
  \<open>self.stealers[idx]\<close>. On respawn the slot is overwritten.
\<close>

definition register_worker :: "nat \<Rightarrow> 'r queue \<Rightarrow> ('r queue \<times> worker_context) option" where
  "register_worker idx q =
     (if idx < length (stealers q) then
        (let d = next_addr q in
         Some (q\<lparr>deques := (deques q)(d := []), next_addr := Suc d,
                 stealers := (stealers q)[idx := Some d]\<rparr>,
               \<lparr>ctx_idx = idx, ctx_deque = d, ctx_rng = rng_seed idx\<rparr>))
      else None)"

text \<open>The content of \<open>CURRENT_WORKER\<close> inside the scope, and after the scope is dropped.\<close>

definition enter_worker_scope :: "nat \<Rightarrow> worker_context \<Rightarrow> worker_handle option" where
  "enter_worker_scope qid c = Some \<lparr>handle_queue = qid, handle_deque = ctx_deque c\<rparr>"

definition drop_worker_scope :: "worker_handle option" where
  "drop_worker_scope = None"

section \<open>Where a push goes\<close>

datatype dest = Own nat | Shard nat

text \<open>
  \<open>qid\<close> is the identity of the queue (its address), \<open>handle\<close> the calling thread's
  \<open>CURRENT_WORKER\<close>, \<open>cell\<close> its route cell and \<open>hash\<close> its thread-id hash.
\<close>

definition push_dest ::
  "nat \<Rightarrow> worker_handle option \<Rightarrow> nat \<Rightarrow> usize \<Rightarrow> producer_route option \<Rightarrow>
     dest \<times> producer_route option" where
  "push_dest qid handle msk hash cell =
     (let foreign =
            (if msk = 0 then (Shard 0, cell)
             else (let (target, cell') = route_shard hash (word_of_nat msk) cell
                   in (Shard (unat target), cell')))
      in case handle of
           Some h \<Rightarrow> if handle_queue h = qid then (Own (handle_deque h), cell) else foreign
         | None \<Rightarrow> foreign)"

definition enqueue :: "dest \<Rightarrow> 'r \<Rightarrow> 'r queue \<Rightarrow> 'r queue" where
  "enqueue d r q =
     (case d of
        Own a \<Rightarrow> q\<lparr>deques := (deques q)(a := deques q a @ [r])\<rparr>
      | Shard i \<Rightarrow> q\<lparr>injectors := (injectors q)[i := injectors q ! i @ [r]]\<rparr>)"

text \<open>The counter \<open>foreign_pushes\<close>, kept in test builds only.\<close>

definition count_foreign :: "dest \<Rightarrow> usize \<Rightarrow> usize" where
  "count_foreign d n = (case d of Own a \<Rightarrow> n | Shard i \<Rightarrow> n + 1)"

section \<open>Stealing\<close>

text \<open>
  \<open>steal_batch_and_pop\<close> of \<open>crossbeam_deque\<close> is a parameter: from the victim's and
  the thief's contents it gives the outcome and the new contents.
\<close>

datatype 'r steal = Success 'r | Retry | Empty

type_synonym 'r steal_fn = "'r list \<Rightarrow> 'r list \<Rightarrow> 'r steal \<times> 'r list \<times> 'r list"

text \<open>
  What its documentation promises, for a thief whose deque is empty: a success takes a
  batch from the front of the victim, returns its first element and leaves the rest in the
  thief's deque; \<open>Empty\<close> means the victim was empty; \<open>Retry\<close> changes nothing and may
  happen at any time. How large a batch is, is not specified.
\<close>

definition steal_laws :: "'r steal_fn \<Rightarrow> bool" where
  "steal_laws stl \<longleftrightarrow>
     (\<forall>v own. case stl v own of
        (Success r, v', own') \<Rightarrow> own = [] \<longrightarrow> v = r # own' @ v'
      | (Empty, v', own') \<Rightarrow> v = [] \<and> v' = [] \<and> own' = own
      | (Retry, v', own') \<Rightarrow> v' = v \<and> own' = own)"

definition never_retries :: "'r steal_fn \<Rightarrow> bool" where
  "never_retries stl \<longleftrightarrow> (\<forall>v own. fst (stl v own) \<noteq> Retry)"

lemma steal_success: "steal_laws stl \<Longrightarrow> stl v [] = (Success r, v', own') \<Longrightarrow> v = r # own' @ v'"
  unfolding steal_laws_def by (drule spec [of _ v], drule spec [of _ "[]"]) simp

lemma steal_empty:
  "steal_laws stl \<Longrightarrow> stl v own = (Empty, v', own') \<Longrightarrow> v = [] \<and> v' = [] \<and> own' = own"
  unfolding steal_laws_def by (drule spec [of _ v], drule spec [of _ own]) simp

lemma steal_retry: "steal_laws stl \<Longrightarrow> stl v own = (Retry, v', own') \<Longrightarrow> v' = v \<and> own' = own"
  unfolding steal_laws_def by (drule spec [of _ v], drule spec [of _ own]) simp

text \<open>A function with these laws, for concrete runs: half of the victim, rounded up.\<close>

fun steal_half :: "'r steal_fn" where
  "steal_half [] own = (Empty, [], own)"
| "steal_half (r # rs) own =
     (Success r, drop (length rs div 2) rs, own @ take (length rs div 2) rs)"

text \<open>One that takes a single task, and one that is always beaten to it.\<close>

fun steal_one :: "'r steal_fn" where
  "steal_one [] own = (Empty, [], own)"
| "steal_one (r # rs) own = (Success r, rs, own)"

fun steal_beaten :: "'r steal_fn" where
  "steal_beaten v own = (Retry, v, own)"

lemma steal_half_laws: "steal_laws steal_half"
  unfolding steal_laws_def
proof (intro allI)
  fix v own :: "'r list"
  show "case steal_half v own of
        (Success r, v', own') \<Rightarrow> own = [] \<longrightarrow> v = r # own' @ v'
      | (Empty, v', own') \<Rightarrow> v = [] \<and> v' = [] \<and> own' = own
      | (Retry, v', own') \<Rightarrow> v' = v \<and> own' = own"
    by (cases v) auto
qed

lemma steal_half_never_retries: "never_retries steal_half"
  unfolding never_retries_def
proof (intro allI)
  fix v own :: "'r list"
  show "fst (steal_half v own) \<noteq> Retry" by (cases v) auto
qed

lemma steal_beaten_laws: "steal_laws steal_beaten"
  by (simp add: steal_laws_def)

section \<open>Well-formed queues and their contents\<close>

text \<open>The table sizes of a pool of at most \<open>MAX_THREADS\<close> (512) workers.\<close>

definition wf_queue :: "'r queue \<Rightarrow> bool" where
  "wf_queue q \<longleftrightarrow> (\<exists>k\<le>9. length (injectors q) = 2 ^ k \<and> shard_mask q = 2 ^ k - 1)
     \<and> length (stealers q) \<le> 512"

text \<open>Everything the queue holds: the injectors and the allocated deques.\<close>

definition queue_items :: "'r queue \<Rightarrow> 'r multiset" where
  "queue_items q = (\<Sum>xs\<leftarrow>injectors q. mset xs) + (\<Sum>a<next_addr q. mset (deques q a))"

lemma wf_queue_length: "wf_queue q \<Longrightarrow> length (injectors q) = shard_mask q + 1"
  by (auto simp: wf_queue_def)

lemma wf_queue_pos: "wf_queue q \<Longrightarrow> 0 < length (injectors q)"
  by (simp add: wf_queue_length)

lemma wf_queue_mask_less: "wf_queue q \<Longrightarrow> n AND shard_mask q < length (injectors q)"
  by (auto simp: wf_queue_def mask_simps)

lemma sum_list_mset_update:
  "i < length xss \<Longrightarrow>
   (\<Sum>xs\<leftarrow>xss[i := ys]. mset xs) + mset (xss ! i) = (\<Sum>xs\<leftarrow>xss. mset xs) + mset ys"
  by (induction xss arbitrary: i) (auto split: nat.splits simp: ac_simps)

lemma sum_mset_fun_upd:
  assumes "a < (n::nat)"
  shows "(\<Sum>i<n. mset ((f(a := ys)) i)) + mset (f a) = (\<Sum>i<n. mset (f i)) + mset ys"
proof -
  have "(\<Sum>i\<in>{..<n} - {a}. mset ((f(a := ys)) i)) = (\<Sum>i\<in>{..<n} - {a}. mset (f i))"
    by (rule sum.cong) auto
  moreover have "a \<in> {..<n}" using assms by simp
  ultimately show ?thesis
    using sum.remove [of "{..<n}" a "\<lambda>i. mset ((f(a := ys)) i)"]
      sum.remove [of "{..<n}" a "\<lambda>i. mset (f i)"]
    by simp
qed

definition valid_dest :: "dest \<Rightarrow> 'r queue \<Rightarrow> bool" where
  "valid_dest d q =
     (case d of Own a \<Rightarrow> a < next_addr q | Shard i \<Rightarrow> i < length (injectors q))"

lemma queue_items_enqueue:
  assumes "valid_dest d q"
  shows "queue_items (enqueue d r q) = add_mset r (queue_items q)"
proof (cases d)
  case (Own a)
  with assms sum_mset_fun_upd [of a "next_addr q" "deques q" "deques q a @ [r]"] show ?thesis
    by (simp add: enqueue_def queue_items_def valid_dest_def union_assoc [symmetric])
next
  case (Shard i)
  with assms sum_list_mset_update [of i "injectors q" "injectors q ! i @ [r]"] show ?thesis
    by (simp add: enqueue_def queue_items_def valid_dest_def union_assoc [symmetric])
qed

lemma enqueue_frame [simp]:
  "shard_mask (enqueue d r q) = shard_mask q" "length (injectors (enqueue d r q)) = length (injectors q)"
  "stealers (enqueue d r q) = stealers q" "park (enqueue d r q) = park q"
  "waiters (enqueue d r q) = waiters q" "parked (enqueue d r q) = parked q"
  "notified (enqueue d r q) = notified q" "shutdown_flag (enqueue d r q) = shutdown_flag q"
  "next_addr (enqueue d r q) = next_addr q"
  by (auto simp: enqueue_def split: dest.splits)

section \<open>Construction: lemmas\<close>

lemma power_from_spec:
  "\<exists>b\<ge>a. power_from (2 ^ a) n = 2 ^ b \<and> n \<le> 2 ^ b \<and> (b = a \<or> 2 ^ b < 2 * n)"
proof (induction "n - 2 ^ a" arbitrary: a rule: less_induct)
  case less
  show ?case
  proof (cases "n \<le> 2 ^ a")
    case True
    then show ?thesis by (auto simp: power_from.simps [of "2 ^ a"])
  next
    case False
    then have "n - 2 ^ Suc a < n - 2 ^ a" by (intro diff_less_mono2) auto
    from less [OF this] obtain b where
      "Suc a \<le> b" "power_from (2 ^ Suc a) n = 2 ^ b" "n \<le> 2 ^ b" "b = Suc a \<or> 2 ^ b < 2 * n"
      by blast
    with False show ?thesis
      by (intro exI [of _ b]) (auto simp: power_from.simps [of "2 ^ a"])
  qed
qed

lemma next_power_of_two_spec:
  assumes "n \<le> 2 ^ 63"
  shows "\<exists>b. next_power_of_two n = Some (2 ^ b) \<and> n \<le> 2 ^ b \<and> (2 ^ b < 2 * n \<or> b = 0)"
  using power_from_spec [of 0 n] assms by (auto simp: next_power_of_two_def)

lemma num_shards_default:
  assumes "1 \<le> nw" and "nw \<le> 512"
  shows "\<exists>b. num_shards nw None = Some (2 ^ b) \<and> 2 ^ b \<le> (8::nat)
             \<and> (nw \<le> 2 ^ b \<or> b = 3) \<and> 2 ^ b < 2 * nw"
proof -
  from assms(2) have "nw \<le> 2 ^ 63" by simp
  then obtain b where b: "next_power_of_two nw = Some (2 ^ b)" "nw \<le> 2 ^ b" "2 ^ b < 2 * nw \<or> b = 0"
    using next_power_of_two_spec by blast
  have lt: "2 ^ b < 2 * nw" using b(3) assms(1) by auto
  show ?thesis
  proof (cases "(2::nat) ^ b \<le> 8")
    case True
    with b lt show ?thesis
      by (intro exI [of _ b]) (auto simp: num_shards_def clamp_def MAX_SHARDS_def)
  next
    case False
    with b lt show ?thesis
      by (intro exI [of _ 3]) (auto simp: num_shards_def clamp_def MAX_SHARDS_def)
  qed
qed

lemma num_shards_override:
  assumes "1 \<le> nw" and "nw \<le> 512"
  shows "\<exists>b. num_shards nw (Some n) = Some (2 ^ b)
             \<and> max 1 (min n nw) \<le> 2 ^ b \<and> 2 ^ b < 2 * max 1 (min n nw)"
proof -
  have c: "clamp n 1 nw = Some (max 1 (min n nw))" using assms(1) by (auto simp: clamp_def)
  have "max 1 (min n nw) \<le> 2 ^ 63" using assms(2) by simp
  then obtain d where "next_power_of_two (max 1 (min n nw)) = Some (2 ^ d)"
    "max 1 (min n nw) \<le> 2 ^ d" "2 ^ d < 2 * max 1 (min n nw) \<or> d = 0"
    using next_power_of_two_spec by blast
  then show ?thesis
    by (intro exI [of _ d]) (auto simp: num_shards_def c simp del: One_nat_def)
qed

section \<open>Properties of construction and placement\<close>

text \<open>
  The shard count, for a pool of \<open>1..512\<close> workers: construction never panics,
  whatever the override, zero and huge values included; the count is a power of two; by
  default it is the least one that is at least the worker count, capped at 8; an override is
  first clamped to \<open>1..num_workers\<close> and then rounded up, so it stays below twice the
  clamped value.
\<close>
theorem num_shards_spec:
  assumes "1 \<le> nw" and "nw \<le> 512"
  shows "(\<exists>b. num_shards nw None = Some (2 ^ b) \<and> 2 ^ b \<le> (8::nat)
             \<and> (nw \<le> 2 ^ b \<or> b = 3) \<and> 2 ^ b < 2 * nw)
    \<and> (\<exists>b. num_shards nw (Some n) = Some (2 ^ b)
             \<and> max 1 (min n nw) \<le> 2 ^ b \<and> 2 ^ b < 2 * max 1 (min n nw))"
  using num_shards_default [OF assms] num_shards_override [OF assms] by blast

theorem num_shards_spec_witness:
  "(\<exists>b. num_shards 9 None = Some (2 ^ b) \<and> 2 ^ b \<le> (8::nat) \<and> (9 \<le> (2::nat) ^ b \<or> b = 3)
      \<and> 2 ^ b < 2 * (9::nat))
    \<and> (\<exists>b. num_shards 9 (Some (2 ^ 64 - 1)) = Some (2 ^ b)
      \<and> max 1 (min (2 ^ 64 - 1) 9) \<le> (2::nat) ^ b
      \<and> 2 ^ b < 2 * max 1 (min (2 ^ 64 - 1) (9::nat)))"
  by (rule num_shards_spec) simp_all

lemma sum_list_replicate_empty [simp]: "sum_list (replicate n {#}) = {#}"
  by (induction n) auto

lemma sum_list_empty_mset: "\<forall>xs \<in> set xss. xs = [] \<Longrightarrow> (\<Sum>xs\<leftarrow>xss. mset xs) = {#}"
  by (induction xss) auto

lemma wf_queue_new:
  assumes "1 \<le> nw" and "nw \<le> 512" and "queue_new nw ov = Some q"
  shows "wf_queue q" and "length (stealers q) = nw" and "queue_items q = {#}"
proof -
  have "\<exists>b. num_shards nw ov = Some (2 ^ b) \<and> (2::nat) ^ b < 2 ^ 10"
  proof (cases ov)
    case None
    then show ?thesis using num_shards_default [OF assms(1,2)] by fastforce
  next
    case (Some n)
    obtain b where b: "num_shards nw (Some n) = Some (2 ^ b)" "2 ^ b < 2 * max 1 (min n nw)"
      using num_shards_override [OF assms(1,2)] by blast
    have "2 * max 1 (min n nw) \<le> 2 ^ 10" using assms(2) by simp
    with b Some show ?thesis by (metis order_less_le_trans)
  qed
  then obtain b where b: "num_shards nw ov = Some (2 ^ b)" "(2::nat) ^ b < 2 ^ 10" by blast
  then have "b < 10" by (intro power_less_imp_less_exp [of 2]) simp_all
  with b assms(2,3) show "wf_queue q" and "length (stealers q) = nw" and "queue_items q = {#}"
    by (auto simp: queue_new_def wf_queue_def queue_items_def)
qed

lemma push_dest_own:
  "handle = Some h \<Longrightarrow> handle_queue h = qid \<Longrightarrow>
   push_dest qid handle msk hash cell = (Own (handle_deque h), cell)"
  by (simp add: push_dest_def Let_def)

text \<open>
  The counter tells the two paths of \<open>push\<close> apart: a worker's push into its own pool leaves it
  alone, any other thread's adds one, a worker of another pool included.
\<close>

lemma foreign_pushes_counted:
  "count_foreign (fst (push_dest qid (enter_worker_scope qid c) msk hash cell)) n = n"
  "(\<And>h. handle = Some h \<Longrightarrow> handle_queue h \<noteq> qid) \<Longrightarrow>
     count_foreign (fst (push_dest qid handle msk hash cell)) n = n + 1"
  by (auto simp: push_dest_def enter_worker_scope_def count_foreign_def Let_def
      split: option.splits prod.splits)

lemma push_dest_foreign:
  assumes "wf_queue q" and "push_dest qid handle (shard_mask q) hash cell = (d, cell')"
    and "\<And>h. handle = Some h \<Longrightarrow> handle_queue h \<noteq> qid"
  obtains i where "d = Shard i" and "i < length (injectors q)"
proof -
  from assms(1) obtain k where k: "length (injectors q) = 2 ^ k" "shard_mask q = 2 ^ k - 1"
    by (auto simp: wf_queue_def)
  have "(word_of_nat (shard_mask q) :: usize) = mask k"
    by (simp add: k(2) mask_eq_exp_minus_1)
  then have lt: "unat (fst (route_shard hash (word_of_nat (shard_mask q)) cell)) < 2 ^ k"
    by (metis route_shard_masked unat_and_mask mod_less_divisor zero_less_numeral zero_less_power)
  have "\<exists>i. d = Shard i \<and> i < length (injectors q)"
    using assms(2,3) lt k(1)
    by (auto simp: push_dest_def Let_def split: option.splits if_splits prod.splits)
  with that show ?thesis by blast
qed

text \<open>
  Where a push lands, for every calling thread: always in a container the queue has. A
  thread registered as a worker of this very queue pushes into its own deque and keeps its
  route cell; every other thread, in particular a worker of another pool, pushes into one of
  this queue's injectors.
\<close>
theorem push_dest_correct:
  assumes "wf_queue q" and "push_dest qid handle (shard_mask q) hash cell = (d, cell')"
  shows "(\<exists>a. handle = Some \<lparr>handle_queue = qid, handle_deque = a\<rparr> \<and> d = Own a \<and> cell' = cell)
    \<or> ((\<forall>h. handle = Some h \<longrightarrow> handle_queue h \<noteq> qid)
       \<and> (\<exists>i. d = Shard i \<and> i < length (injectors q)))"
proof (cases "\<exists>h. handle = Some h \<and> handle_queue h = qid")
  case True
  then obtain h where "handle = Some h" "handle_queue h = qid" by blast
  with assms(2) push_dest_own [of handle h qid] show ?thesis
    by (intro disjI1 exI [of _ "handle_deque h"]) simp
next
  case False
  with push_dest_foreign [OF assms] show ?thesis by metis
qed

theorem push_dest_correct_witness:
  "\<exists>q d cell'. queue_new 3 None = Some (q :: nat queue)
    \<and> push_dest 1 (Some \<lparr>handle_queue = 2, handle_deque = 0\<rparr>) (shard_mask q) 77 None = (d, cell')
    \<and> (\<exists>i. d = Shard i \<and> i < length (injectors q))"
proof -
  have "num_shards 3 None = Some 4"
    by (simp add: num_shards_def next_power_of_two_def power_from.simps clamp_def MAX_SHARDS_def)
  then obtain q :: "nat queue" where q: "queue_new 3 None = Some q"
    by (auto simp: queue_new_def)
  have wf: "wf_queue q" by (rule wf_queue_new [OF _ _ q]) simp_all
  obtain d cell' where
    d: "push_dest 1 (Some \<lparr>handle_queue = 2, handle_deque = 0\<rparr>) (shard_mask q) 77 None = (d, cell')"
    by (cases "push_dest 1 (Some \<lparr>handle_queue = 2, handle_deque = 0\<rparr>) (shard_mask q) 77 None")
  from push_dest_correct [OF wf d] q d show ?thesis by auto
qed

text \<open>
  A respawned worker's old deque is orphaned: \<open>register_worker\<close> puts a fresh, empty
  deque into the slot, and no slot leads to the deque it replaces any more, so whatever that
  deque still held can be reached by no scan.
\<close>
theorem respawn_orphans_old_deque:
  assumes "register_worker idx q = Some (q', c)" and "stealers q ! idx = Some old"
    and "\<forall>a \<in> set (stealers q). \<forall>d. a = Some d \<longrightarrow> d < next_addr q"
    and "distinct (filter (\<lambda>a. a \<noteq> None) (stealers q))"
  shows "Some old \<notin> set (stealers q') \<and> deques q' (ctx_deque c) = []
    \<and> stealers q' ! idx = Some (ctx_deque c) \<and> deques q' old = deques q old"
proof -
  from assms(1) have idx: "idx < length (stealers q)"
    and q': "q' = q\<lparr>deques := (deques q)(next_addr q := []), next_addr := Suc (next_addr q),
      stealers := (stealers q)[idx := Some (next_addr q)]\<rparr>"
    and c: "ctx_deque c = next_addr q"
    by (auto simp: register_worker_def Let_def split: if_splits)
  have old: "old < next_addr q" using assms(2,3) idx by (metis nth_mem)
  have split: "stealers q = take idx (stealers q) @ Some old # drop (Suc idx) (stealers q)"
    using id_take_nth_drop [OF idx] assms(2) by simp
  then have "distinct (filter (\<lambda>a. a \<noteq> None)
      (take idx (stealers q) @ Some old # drop (Suc idx) (stealers q)))"
    using assms(4) by simp
  then have "Some old \<notin> set (take idx (stealers q))" "Some old \<notin> set (drop (Suc idx) (stealers q))"
    by auto
  then have "Some old \<notin> set (stealers q')"
    using old idx by (simp add: q' upd_conv_take_nth_drop)
  with q' c idx old show ?thesis by simp
qed

theorem respawn_orphans_old_deque_witness:
  "\<exists>q' c. register_worker 0
      \<lparr>injectors = [[]], stealers = [Some 0, Some 1], shard_mask = 0, park = None, waiters = {},
       parked = 0, notified = 0, shutdown_flag = False,
       deques = (\<lambda>_. [])(0 := [41, 42]), next_addr = 2\<rparr> = Some (q', c)
     \<and> Some 0 \<notin> set (stealers q') \<and> deques q' 0 = [41, 42 :: nat]"
proof -
  let ?q = "\<lparr>injectors = [[]], stealers = [Some 0, Some 1], shard_mask = 0, park = None,
       waiters = {}, parked = 0, notified = 0, shutdown_flag = False,
       deques = (\<lambda>_. [])(0 := [41, 42]), next_addr = 2\<rparr> :: nat queue"
  obtain q' c where r: "register_worker 0 ?q = Some (q', c)"
    by (auto simp: register_worker_def Let_def)
  from respawn_orphans_old_deque [OF r, of 0] r show ?thesis by auto
qed

end
