(* ===== verification/Scan.thy ===== *)
theory Scan
  imports Queue
begin

text \<open>
  \<open>Queue::scan\<close> and \<open>Queue::steal_injector\<close> of \<open>src/queue.rs\<close>, one shared-memory
  access per step: \<open>scan_step\<close> is a worker's program, whose program counter says which
  victims are still to visit. Run alone (\<open>scan\<close>) it is the function of the code; the
  theory \<open>Handshake\<close> interleaves the same steps with those of other threads.
\<close>

unbundle bit_operations_syntax

section \<open>The program of one scan\<close>

text \<open>
  The steps of the loop body, in order: own deque, preferred injector, other injectors,
  peers. The flag is \<open>contended\<close>; the list holds the victims of the walk still to visit.
\<close>

datatype 'r scan_pc =
    SOwn
  | SPref
  | SShards bool "nat list"
  | SPeers bool "nat list"
  | SDone "'r option"

definition my_shard :: "'r queue \<Rightarrow> worker_context \<Rightarrow> nat" where
  "my_shard q c = ctx_idx c AND shard_mask q"

definition steal_injector ::
  "'r steal_fn \<Rightarrow> probe \<Rightarrow> nat \<Rightarrow> worker_context \<Rightarrow> 'r queue \<Rightarrow> 'r steal \<times> 'r queue" where
  "steal_injector stl p i c q =
     (if p = Cheap \<and> injectors q ! i = [] then (Empty, q)
      else (case stl (injectors q ! i) (deques q (ctx_deque c)) of
              (res, v, own) \<Rightarrow>
                (res, q\<lparr>injectors := (injectors q)[i := v],
                        deques := (deques q)(ctx_deque c := own)\<rparr>)))"

text \<open>A peer: an empty slot is skipped, and a cheap probe skips an empty deque.\<close>

definition steal_peer ::
  "'r steal_fn \<Rightarrow> probe \<Rightarrow> nat \<Rightarrow> worker_context \<Rightarrow> 'r queue \<Rightarrow> 'r steal \<times> 'r queue" where
  "steal_peer stl p v c q =
     (case stealers q ! v of
        None \<Rightarrow> (Empty, q)
      | Some a \<Rightarrow>
          if p = Cheap \<and> deques q a = [] then (Empty, q)
          else (case stl (deques q a) (deques q (ctx_deque c)) of
                  (res, x, own) \<Rightarrow> (res, q\<lparr>deques := (deques q)(a := x, ctx_deque c := own)\<rparr>)))"

text \<open>A start offset below \<open>span\<close>, and the worker with its generator advanced.\<close>

definition draw :: "nat \<Rightarrow> worker_context \<Rightarrow> nat \<times> worker_context" where
  "draw span c =
     (let (r, s) = next_rand (ctx_rng c)
      in (unat (fast_reduce r (word_of_nat span)), c\<lparr>ctx_rng := s\<rparr>))"

definition enter_shards ::
  "probe \<Rightarrow> 'r queue \<Rightarrow> worker_context \<Rightarrow> bool \<Rightarrow> worker_context \<times> 'r scan_pc" where
  "enter_shards p q c contended =
     (let n = shard_mask q + 1 in
      if 1 < n then
        (let span = n - 1; (start, c') = draw span c
         in (c', SShards contended (shard_walk n (my_shard q c) start (probe_limit span p))))
      else (c, SShards contended []))"

definition enter_peers ::
  "probe \<Rightarrow> 'r queue \<Rightarrow> worker_context \<Rightarrow> bool \<Rightarrow> worker_context \<times> 'r scan_pc" where
  "enter_peers p q c contended =
     (let num_workers = length (stealers q) in
      if 1 < num_workers then
        (let span = num_workers - 1; (start, c') = draw span c
         in (c', SPeers contended (peer_walk num_workers (ctx_idx c) start (probe_limit span p))))
      else (c, SPeers contended []))"

fun scan_step ::
  "'r steal_fn \<Rightarrow> probe \<Rightarrow> 'r queue \<Rightarrow> worker_context \<Rightarrow> 'r scan_pc \<Rightarrow>
     'r queue \<times> worker_context \<times> 'r scan_pc" where
  "scan_step stl p q c SOwn =
     (case deques q (ctx_deque c) of
        r # rs \<Rightarrow> (q\<lparr>deques := (deques q)(ctx_deque c := rs)\<rparr>, c, SDone (Some r))
      | [] \<Rightarrow> (q, c, SPref))"
| "scan_step stl p q c SPref =
     (case steal_injector stl p (my_shard q c) c q of
        (Success r, q') \<Rightarrow> (q', c, SDone (Some r))
      | (Retry, q') \<Rightarrow> (q', enter_shards p q' c True)
      | (Empty, q') \<Rightarrow> (q', enter_shards p q' c False))"
| "scan_step stl p q c (SShards contended (i # is)) =
     (case steal_injector stl p i c q of
        (Success r, q') \<Rightarrow> (q', c, SDone (Some r))
      | (Retry, q') \<Rightarrow> (q', c, SShards True is)
      | (Empty, q') \<Rightarrow> (q', c, SShards contended is))"
| "scan_step stl p q c (SShards contended []) = (q, enter_peers p q c contended)"
| "scan_step stl p q c (SPeers contended (v # vs)) =
     (case steal_peer stl p v c q of
        (Success r, q') \<Rightarrow> (q', c, SDone (Some r))
      | (Retry, q') \<Rightarrow> (q', c, SPeers True vs)
      | (Empty, q') \<Rightarrow> (q', c, SPeers contended vs))"
| "scan_step stl p q c (SPeers contended []) = (q, c, if contended then SOwn else SDone None)"
| "scan_step stl p q c (SDone res) = (q, c, SDone res)"

text \<open>
  The scan of a worker that runs alone. \<open>stl t\<close> is the outcome of the steal made at step
  \<open>t\<close>, so contention may come and go; the fuel bounds the steps (\<open>None\<close>: not finished).
\<close>

fun scan_finished ::
  "'r queue \<times> worker_context \<times> 'r scan_pc \<Rightarrow> ('r option \<times> 'r queue \<times> worker_context) option" where
  "scan_finished (q, c, SDone res) = Some (res, q, c)"
| "scan_finished _ = None"

primrec scan_run ::
  "(nat \<Rightarrow> 'r steal_fn) \<Rightarrow> probe \<Rightarrow> nat \<Rightarrow> nat \<Rightarrow> 'r queue \<times> worker_context \<times> 'r scan_pc \<Rightarrow>
     ('r option \<times> 'r queue \<times> worker_context) option" where
  "scan_run stl p 0 t s = scan_finished s"
| "scan_run stl p (Suc fuel) t s =
     (case scan_finished s of
        Some out \<Rightarrow> Some out
      | None \<Rightarrow> (case s of (q, c, pc) \<Rightarrow>
                  scan_run stl p fuel (Suc t) (scan_step (stl t) p q c pc)))"

definition scan ::
  "(nat \<Rightarrow> 'r steal_fn) \<Rightarrow> nat \<Rightarrow> 'r queue \<Rightarrow> worker_context \<Rightarrow> probe \<Rightarrow>
     ('r option \<times> 'r queue \<times> worker_context) option" where
  "scan stl fuel q c p = scan_run stl p fuel 0 (q, c, SOwn)"

section \<open>Outcomes of one steal\<close>

lemma queue_update_id: "q\<lparr>injectors := injectors q, deques := deques q\<rparr> = q"
  by simp

lemma steal_injector_outcome:
  assumes "steal_laws stl" and "deques q (ctx_deque c) = []" and "i < length (injectors q)"
    and "steal_injector stl p i c q = (res, q')"
  obtains
    (success) r own v where "res = Success r" "injectors q ! i = r # own @ v"
      "q' = q\<lparr>injectors := (injectors q)[i := v], deques := (deques q)(ctx_deque c := own)\<rparr>"
  | (retry) "res = Retry" "q' = q"
  | (empty) "res = Empty" "q' = q" "injectors q ! i = []"
proof (cases "p = Cheap \<and> injectors q ! i = []")
  case True
  with assms(4) that(3) show ?thesis by (simp add: steal_injector_def)
next
  case False
  obtain r v own where st: "stl (injectors q ! i) [] = (r, v, own)"
    by (cases "stl (injectors q ! i) []")
  with False assms(2,4) have res: "res = r"
    and q': "q' = q\<lparr>injectors := (injectors q)[i := v], deques := (deques q)(ctx_deque c := own)\<rparr>"
    by (auto simp: steal_injector_def)
  have same: "q' = q" if "v = injectors q ! i" "own = []"
    unfolding q' that using assms(2) by (simp add: fun_upd_idem)
  show ?thesis
  proof (cases r)
    case (Success x)
    then show ?thesis using that(1) res q' steal_success [OF assms(1)] st by metis
  next
    case Retry
    then show ?thesis using that(2) res same steal_retry [OF assms(1)] st by metis
  next
    case Empty
    then show ?thesis using that(3) res same steal_empty [OF assms(1)] st by metis
  qed
qed

lemma steal_peer_outcome:
  assumes "steal_laws stl" and "deques q (ctx_deque c) = []"
    and "stealers q ! v \<noteq> Some (ctx_deque c)"
    and "steal_peer stl p v c q = (res, q')"
  obtains
    (success) r own x a where "res = Success r" "stealers q ! v = Some a"
      "deques q a = r # own @ x" "q' = q\<lparr>deques := (deques q)(a := x, ctx_deque c := own)\<rparr>"
  | (retry) "res = Retry" "q' = q"
  | (empty) "res = Empty" "q' = q" "\<And>a. stealers q ! v = Some a \<Longrightarrow> deques q a = []"
proof (cases "stealers q ! v")
  case None
  with assms(4) that(3) show ?thesis by (simp add: steal_peer_def)
next
  case (Some a)
  show ?thesis
  proof (cases "p = Cheap \<and> deques q a = []")
    case True
    with Some assms(4) that(3) show ?thesis by (simp add: steal_peer_def)
  next
    case False
    obtain r x own where st: "stl (deques q a) [] = (r, x, own)"
      by (cases "stl (deques q a) []")
    with False Some assms(2,4) have res: "res = r"
      and q': "q' = q\<lparr>deques := (deques q)(a := x, ctx_deque c := own)\<rparr>"
      by (auto simp: steal_peer_def)
    have same: "q' = q" if "x = deques q a" "own = []"
      unfolding q' that using assms(2,3) Some by (simp add: fun_upd_idem)
    show ?thesis
    proof (cases r)
      case (Success y)
      then show ?thesis using that(1) res q' Some steal_success [OF assms(1)] st by metis
    next
      case Retry
      then show ?thesis using that(2) res same steal_retry [OF assms(1)] st by metis
    next
      case Empty
      then show ?thesis using that(3) res same Some steal_empty [OF assms(1)] st
        by (metis option.inject)
    qed
  qed
qed

section \<open>What every step keeps\<close>

text \<open>A worker's context fits the queue: its deque is in its own slot and in no other.\<close>

definition registered :: "'r queue \<Rightarrow> worker_context \<Rightarrow> bool" where
  "registered q c \<longleftrightarrow>
     ctx_idx c < length (stealers q) \<and> stealers q ! ctx_idx c = Some (ctx_deque c)
     \<and> (\<forall>v < length (stealers q). v \<noteq> ctx_idx c \<longrightarrow> stealers q ! v \<noteq> Some (ctx_deque c))
     \<and> (\<forall>v < length (stealers q). \<forall>a. stealers q ! v = Some a \<longrightarrow> a < next_addr q)"

text \<open>Past its first step, a scan goes on only with the own deque empty.\<close>

fun pc_ok :: "'r queue \<Rightarrow> worker_context \<Rightarrow> 'r scan_pc \<Rightarrow> bool" where
  "pc_ok q c SOwn \<longleftrightarrow> True"
| "pc_ok q c SPref \<longleftrightarrow> deques q (ctx_deque c) = []"
| "pc_ok q c (SShards b is) \<longleftrightarrow>
     deques q (ctx_deque c) = [] \<and> set is \<subseteq> {..<length (injectors q)}"
| "pc_ok q c (SPeers b vs) \<longleftrightarrow>
     deques q (ctx_deque c) = [] \<and> set vs \<subseteq> {..<length (stealers q)} - {ctx_idx c}"
| "pc_ok q c (SDone res) \<longleftrightarrow> (res = None \<longrightarrow> deques q (ctx_deque c) = [])"

definition same_shape :: "'r queue \<Rightarrow> 'r queue \<Rightarrow> bool" where
  "same_shape q q' \<longleftrightarrow> length (injectors q') = length (injectors q) \<and> stealers q' = stealers q
     \<and> shard_mask q' = shard_mask q \<and> park q' = park q \<and> waiters q' = waiters q
     \<and> parked q' = parked q \<and> notified q' = notified q
     \<and> shutdown_flag q' = shutdown_flag q \<and> next_addr q' = next_addr q"

lemma same_shape_refl [simp]: "same_shape q q"
  by (simp add: same_shape_def)

lemma steal_injector_shape: "steal_injector stl p i c q = (res, q') \<Longrightarrow> same_shape q q'"
  by (auto simp: steal_injector_def same_shape_def split: prod.splits if_splits)

lemma steal_peer_shape: "steal_peer stl p v c q = (res, q') \<Longrightarrow> same_shape q q'"
  by (auto simp: steal_peer_def same_shape_def split: prod.splits if_splits option.splits)

lemma draw_less: "0 < span \<Longrightarrow> span < 2 ^ 32 \<Longrightarrow> fst (draw span c) < span"
  unfolding draw_def Let_def case_prod_beta fst_conv by (rule fast_reduce_less)

lemma draw_fst_snd [simp]:
  "ctx_idx (snd (draw span c)) = ctx_idx c" "ctx_deque (snd (draw span c)) = ctx_deque c"
  by (simp_all add: draw_def Let_def split: prod.splits)

lemma enter_ctx [simp]:
  "ctx_idx (fst (enter_shards p q c b)) = ctx_idx c"
  "ctx_deque (fst (enter_shards p q c b)) = ctx_deque c"
  "ctx_idx (fst (enter_peers p q c b)) = ctx_idx c"
  "ctx_deque (fst (enter_peers p q c b)) = ctx_deque c"
  by (simp_all add: enter_shards_def enter_peers_def Let_def case_prod_beta)

lemma scan_step_shape_ctx:
  "same_shape q (fst (scan_step stl p q c pc))
   \<and> ctx_idx (fst (snd (scan_step stl p q c pc))) = ctx_idx c
   \<and> ctx_deque (fst (snd (scan_step stl p q c pc))) = ctx_deque c"
proof (cases "(stl, p, q, c, pc)" rule: scan_step.cases)
  case 1
  then show ?thesis by (simp add: same_shape_def split: list.split)
next
  case (2 stl p q c)
  obtain res q' where st: "steal_injector stl p (my_shard q c) c q = (res, q')"
    by (cases "steal_injector stl p (my_shard q c) c q")
  with 2 steal_injector_shape [OF st] show ?thesis by (cases res) simp_all
next
  case (3 stl p q c b i js)
  obtain res q' where st: "steal_injector stl p i c q = (res, q')"
    by (cases "steal_injector stl p i c q")
  with 3 steal_injector_shape [OF st] show ?thesis by (cases res) simp_all
next
  case (5 stl p q c b v vs)
  obtain res q' where st: "steal_peer stl p v c q = (res, q')"
    by (cases "steal_peer stl p v c q")
  with 5 steal_peer_shape [OF st] show ?thesis by (cases res) simp_all
qed simp_all

lemma scan_step_shape:
  assumes "scan_step stl p q c pc = (q', c', pc')"
  shows "same_shape q q'" and "ctx_idx c' = ctx_idx c" and "ctx_deque c' = ctx_deque c"
  using scan_step_shape_ctx [of q stl p c pc] by (simp_all add: assms)

lemma same_shape_wf: "same_shape q q' \<Longrightarrow> wf_queue q \<Longrightarrow> wf_queue q'"
  by (simp add: same_shape_def wf_queue_def)

lemma same_shape_registered:
  "same_shape q q' \<Longrightarrow> ctx_idx c' = ctx_idx c \<Longrightarrow> ctx_deque c' = ctx_deque c \<Longrightarrow>
   registered q c \<Longrightarrow> registered q' c'"
  by (simp add: same_shape_def registered_def)

section \<open>The walks a scan draws\<close>

text \<open>A pass that leaves no victim out: a strict one, or a cheap one in a small pool.\<close>

definition exhaustive :: "probe \<Rightarrow> 'r queue \<Rightarrow> bool" where
  "exhaustive p q \<longleftrightarrow> probe_limit (shard_mask q) p = shard_mask q
     \<and> probe_limit (length (stealers q) - 1) p = length (stealers q) - 1"

lemma exhaustive_Strict: "exhaustive Strict q"
  by (simp add: exhaustive_def)

lemma exhaustive_small:
  "length (injectors q) \<le> 9 \<Longrightarrow> length (stealers q) \<le> 9 \<Longrightarrow> wf_queue q \<Longrightarrow> exhaustive p q"
  by (simp add: exhaustive_def probe_limit_small wf_queue_length)

lemma enter_shards_walk:
  assumes "wf_queue q"
  shows "\<exists>is. snd (enter_shards p q c b) = SShards b is
    \<and> set is \<subseteq> {..<length (injectors q)} \<and> length is \<le> shard_mask q
    \<and> (exhaustive p q \<longrightarrow> {..<length (injectors q)} - {my_shard q c} \<subseteq> set is)"
proof (cases "1 < length (injectors q)")
  case False
  with wf_queue_pos [OF assms] have "length (injectors q) = 1" by linarith
  with wf_queue_length [OF assms] have "shard_mask q = 0" by simp
  with wf_queue_length [OF assms] show ?thesis
    by (auto simp: enter_shards_def my_shard_def)
next
  case True
  let ?n = "length (injectors q)" and ?my = "my_shard q c"
  let ?s = "fst (draw (?n - 1) c)" and ?l = "probe_limit (?n - 1) p"
  have mask: "shard_mask q = ?n - 1" using wf_queue_length [OF assms] by simp
  have valid: "?my < ?n \<and> (\<exists>k. ?n = 2 ^ k)"
    using wf_queue_mask_less [OF assms] assms by (auto simp: my_shard_def wf_queue_def)
  have "?n \<le> 2 ^ 9"
    using assms unfolding wf_queue_def by (metis one_le_numeral power_increasing)
  with True have start: "?s < ?n - 1" by (intro draw_less) auto
  have walk: "snd (enter_shards p q c b) = SShards b (shard_walk ?n ?my ?s ?l)"
    using True wf_queue_length [OF assms]
    by (simp add: enter_shards_def Let_def case_prod_beta)
  have "set (shard_walk ?n ?my ?s ?l) \<subseteq> {..<?n}"
    using shards.walk_subset [OF valid start probe_limit_le] by blast
  moreover have "length (shard_walk ?n ?my ?s ?l) \<le> shard_mask q"
    using shards.walk_length [OF valid start probe_limit_le] probe_limit_le mask by metis
  moreover have "{..<?n} - {?my} \<subseteq> set (shard_walk ?n ?my ?s ?l)" if "exhaustive p q"
    using shards.walk_full [OF valid start] that mask by (simp add: exhaustive_def)
  ultimately show ?thesis using walk by blast
qed

lemma enter_peers_walk:
  assumes "wf_queue q" and "registered q c"
  shows "\<exists>vs. snd (enter_peers p q c b) = SPeers b vs
    \<and> set vs \<subseteq> {..<length (stealers q)} - {ctx_idx c} \<and> length vs \<le> length (stealers q)
    \<and> (exhaustive p q \<longrightarrow> {..<length (stealers q)} - {ctx_idx c} \<subseteq> set vs)"
proof (cases "1 < length (stealers q)")
  case False
  with assms(2) show ?thesis by (auto simp: enter_peers_def registered_def)
next
  case True
  let ?n = "length (stealers q)"
  let ?s = "fst (draw (?n - 1) c)" and ?l = "probe_limit (?n - 1) p"
  have valid: "ctx_idx c < ?n" using assms(2) by (simp add: registered_def)
  have "?n \<le> 512" using assms(1) by (simp add: wf_queue_def)
  with True have start: "?s < ?n - 1" by (intro draw_less) auto
  have walk: "snd (enter_peers p q c b) = SPeers b (peer_walk ?n (ctx_idx c) ?s ?l)"
    using True by (simp add: enter_peers_def Let_def case_prod_beta)
  have "set (peer_walk ?n (ctx_idx c) ?s ?l) \<subseteq> {..<?n} - {ctx_idx c}"
    by (rule peers.walk_subset [OF valid start probe_limit_le])
  moreover have "length (peer_walk ?n (ctx_idx c) ?s ?l) \<le> ?n"
    using peers.walk_length [OF valid start probe_limit_le] probe_limit_le [of "?n - 1" p] by simp
  moreover have "{..<?n} - {ctx_idx c} \<subseteq> set (peer_walk ?n (ctx_idx c) ?s ?l)"
    if "exhaustive p q"
    using peers.walk_full [OF valid start] that by (simp add: exhaustive_def)
  ultimately show ?thesis using walk by blast
qed

section \<open>No runnable is lost or duplicated by a scan\<close>

fun found :: "'r scan_pc \<Rightarrow> 'r multiset" where
  "found (SDone (Some r)) = {#r#}"
| "found _ = {#}"

lemma items_after_injector_steal:
  assumes "i < length (injectors q)" and "injectors q ! i = r # own @ v"
    and "a < next_addr q" and "deques q a = []"
  shows "queue_items (q\<lparr>injectors := (injectors q)[i := v], deques := (deques q)(a := own)\<rparr>) + {#r#}
    = queue_items q"
  using sum_list_mset_update [OF assms(1), of v] sum_mset_fun_upd [OF assms(3), of "deques q" own]
    assms(2,4)
  by (simp add: queue_items_def ac_simps)

lemma items_after_peer_steal:
  assumes "deques q b = r # own @ x" and "a < next_addr q" and "b < next_addr q" and "a \<noteq> b"
    and "deques q a = []"
  shows "queue_items (q\<lparr>deques := (deques q)(b := x, a := own)\<rparr>) + {#r#} = queue_items q"
  using sum_mset_fun_upd [OF assms(2), of "(deques q)(b := x)" own]
    sum_mset_fun_upd [OF assms(3), of "deques q" x] assms(1,4,5)
  by (simp add: queue_items_def ac_simps)

lemma items_after_own_pop:
  assumes "deques q a = r # rs" and "a < next_addr q"
  shows "queue_items (q\<lparr>deques := (deques q)(a := rs)\<rparr>) + {#r#} = queue_items q"
  using sum_mset_fun_upd [OF assms(2), of "deques q" rs] assms(1)
  by (simp add: queue_items_def ac_simps)

text \<open>
  One step: the invariant of the program counter is kept, what leaves the queue is what the
  scan returns, and nothing is put into an injector or into another worker's deque.
\<close>

definition step_sound ::
  "'r queue \<Rightarrow> worker_context \<Rightarrow> 'r scan_pc \<Rightarrow> 'r queue \<times> worker_context \<times> 'r scan_pc \<Rightarrow> bool" where
  "step_sound q c pc out \<longleftrightarrow>
     pc_ok (fst out) (fst (snd out)) (snd (snd out))
     \<and> queue_items (fst out) + found (snd (snd out)) = queue_items q + found pc
     \<and> (\<forall>j. injectors q ! j = [] \<longrightarrow> injectors (fst out) ! j = [])
     \<and> (\<forall>a. a \<noteq> ctx_deque c \<longrightarrow> deques q a = [] \<longrightarrow> deques (fst out) a = [])"

lemma registered_bounds:
  assumes "registered q c"
  shows "ctx_deque c < next_addr q" and "stealers q ! ctx_idx c = Some (ctx_deque c)"
  using assms by (auto simp: registered_def)

lemma registered_peer:
  assumes "registered q c" and "v < length (stealers q)" and "v \<noteq> ctx_idx c"
  shows "stealers q ! v \<noteq> Some (ctx_deque c)"
    and "stealers q ! v = Some a \<Longrightarrow> a < next_addr q \<and> a \<noteq> ctx_deque c"
  using assms by (auto simp: registered_def)

lemma steal_injector_sound:
  assumes "steal_laws stl" and "registered q c" and "i < length (injectors q)"
    and own: "deques q (ctx_deque c) = []"
    and "steal_injector stl p i c q = (res, q')"
  shows "case res of
      Success r \<Rightarrow> step_sound q c SPref (q', c, SDone (Some r))
    | Retry \<Rightarrow> q' = q
    | Empty \<Rightarrow> q' = q \<and> injectors q ! i = []"
  using assms(1) own assms(3,5)
proof (cases rule: steal_injector_outcome)
  case (success r own v)
  then have "(injectors q)[i := v] ! j = []" if "injectors q ! j = []" for j
    using that by (metis list.distinct(1) nth_list_update_neq)
  with success items_after_injector_steal [OF assms(3) success(2) registered_bounds(1) [OF assms(2)] own]
  show ?thesis by (auto simp: step_sound_def)
qed simp_all

lemma steal_peer_sound:
  assumes "steal_laws stl" and "registered q c" and "v < length (stealers q)" and "v \<noteq> ctx_idx c"
    and own: "deques q (ctx_deque c) = []"
    and "steal_peer stl p v c q = (res, q')"
  shows "case res of
      Success r \<Rightarrow> step_sound q c SPref (q', c, SDone (Some r))
    | Retry \<Rightarrow> q' = q
    | Empty \<Rightarrow> q' = q \<and> (\<forall>a. stealers q ! v = Some a \<longrightarrow> deques q a = [])"
  using assms(1) own registered_peer(1) [OF assms(2,3,4)] assms(6)
proof (cases rule: steal_peer_outcome)
  case (success r own x a)
  note a = registered_peer(2) [OF assms(2,3,4) success(2)]
  from a items_after_peer_steal [OF success(3) registered_bounds(1) [OF assms(2)], of] own success
  show ?thesis by (auto simp: step_sound_def)
qed simp_all

lemma scan_step_sound:
  assumes "wf_queue q" and "registered q c" and "steal_laws stl" and "pc_ok q c pc"
  shows "step_sound q c pc (scan_step stl p q c pc)"
proof (cases pc)
  case SOwn
  show ?thesis
  proof (cases "deques q (ctx_deque c)")
    case Nil
    with SOwn show ?thesis by (simp add: step_sound_def)
  next
    case (Cons r rs)
    with SOwn items_after_own_pop [OF Cons registered_bounds(1) [OF assms(2)]] show ?thesis
      by (simp add: step_sound_def)
  qed
next
  case SPref
  have my: "my_shard q c < length (injectors q)"
    using wf_queue_mask_less [OF assms(1)] by (simp add: my_shard_def)
  obtain res q' where st: "steal_injector stl p (my_shard q c) c q = (res, q')"
    by (cases "steal_injector stl p (my_shard q c) c q")
  from SPref assms(4) have own: "deques q (ctx_deque c) = []" by simp
  obtain js where "snd (enter_shards p q c (res = Retry)) = SShards (res = Retry) js"
    "set js \<subseteq> {..<length (injectors q)}"
    using enter_shards_walk [OF assms(1), of p c] by blast
  with SPref st own steal_injector_sound [OF assms(3,2) my own st] show ?thesis
    by (cases res) (auto simp: step_sound_def case_prod_beta)
next
  case (SShards b ks)
  show ?thesis
  proof (cases ks)
    case Nil
    obtain vs where "snd (enter_peers p q c b) = SPeers b vs"
      "set vs \<subseteq> {..<length (stealers q)} - {ctx_idx c}"
      using enter_peers_walk [OF assms(1,2), of p b] by blast
    with SShards Nil assms(4) show ?thesis by (simp add: step_sound_def)
  next
    case (Cons i js)
    obtain res q' where st: "steal_injector stl p i c q = (res, q')"
      by (cases "steal_injector stl p i c q")
    from SShards Cons assms(4) have own: "deques q (ctx_deque c) = []"
      and i: "i < length (injectors q)" by auto
    from SShards Cons st assms(4) steal_injector_sound [OF assms(3,2) i own st] show ?thesis
      by (cases res) (auto simp: step_sound_def)
  qed
next
  case (SPeers b vs)
  show ?thesis
  proof (cases vs)
    case Nil
    with SPeers assms(4) show ?thesis by (simp add: step_sound_def)
  next
    case (Cons v ws)
    obtain res q' where st: "steal_peer stl p v c q = (res, q')"
      by (cases "steal_peer stl p v c q")
    from SPeers Cons assms(4) have own: "deques q (ctx_deque c) = []"
      and v: "v < length (stealers q)" "v \<noteq> ctx_idx c" by auto
    from SPeers Cons st assms(4) steal_peer_sound [OF assms(3,2) v own st] show ?thesis
      by (cases res) (auto simp: step_sound_def)
  qed
next
  case (SDone res)
  with assms(4) show ?thesis by (simp add: step_sound_def)
qed

section \<open>What a scan still has to look at\<close>

text \<open>
  Whether the rest of the scan is bound to inspect injector \<open>j\<close> (or peer \<open>v\<close>) again, or
  has already found a runnable. A contended pass starts over.
\<close>

fun looks_at :: "'r scan_pc \<Rightarrow> nat \<Rightarrow> bool" where
  "looks_at SOwn j \<longleftrightarrow> True"
| "looks_at SPref j \<longleftrightarrow> True"
| "looks_at (SShards b js) j \<longleftrightarrow> b \<or> j \<in> set js"
| "looks_at (SPeers b vs) j \<longleftrightarrow> b"
| "looks_at (SDone res) j \<longleftrightarrow> res \<noteq> None"

fun looks_at_peer :: "'r scan_pc \<Rightarrow> nat \<Rightarrow> bool" where
  "looks_at_peer (SPeers b vs) v \<longleftrightarrow> b \<or> v \<in> set vs"
| "looks_at_peer (SDone res) v \<longleftrightarrow> res \<noteq> None"
| "looks_at_peer _ v \<longleftrightarrow> True"

lemma scan_step_looks_at:
  assumes wf: "wf_queue q" and reg: "registered q c" and laws: "steal_laws stl"
    and ok: "pc_ok q c pc" and ex: "exhaustive p q" and j: "j < length (injectors q)"
    and step: "scan_step stl p q c pc = (q', c', pc')"
    and look: "looks_at pc j" and full: "injectors q' ! j \<noteq> []"
  shows "looks_at pc' j"
proof (cases pc)
  case SOwn
  with step show ?thesis by (auto split: list.splits)
next
  case SPref
  have my: "my_shard q c < length (injectors q)"
    using wf_queue_mask_less [OF wf] by (simp add: my_shard_def)
  obtain res q1 where st: "steal_injector stl p (my_shard q c) c q = (res, q1)"
    by (cases "steal_injector stl p (my_shard q c) c q")
  from SPref ok have own: "deques q (ctx_deque c) = []" by simp
  obtain js where js: "snd (enter_shards p q c (res = Retry)) = SShards (res = Retry) js"
    "{..<length (injectors q)} - {my_shard q c} \<subseteq> set js"
    using enter_shards_walk [OF wf, of p c] ex by blast
  show ?thesis
  proof (cases "j = my_shard q c")
    case True
    with SPref st step js full steal_injector_sound [OF laws reg my own st] show ?thesis
      by (cases res) (auto dest: arg_cong [of _ _ snd])
  next
    case False
    with j js(2) have "j \<in> set js" by auto
    with SPref st step js steal_injector_sound [OF laws reg my own st] show ?thesis
      by (cases res) (auto dest: arg_cong [of _ _ snd])
  qed
next
  case (SShards b ks)
  show ?thesis
  proof (cases ks)
    case Nil
    obtain vs where "snd (enter_peers p q c b) = SPeers b vs"
      using enter_peers_walk [OF wf reg, of p b] by blast
    with SShards Nil step look show ?thesis by (auto dest: arg_cong [of _ _ snd])
  next
    case (Cons i js)
    obtain res q1 where st: "steal_injector stl p i c q = (res, q1)"
      by (cases "steal_injector stl p i c q")
    from SShards Cons ok have own: "deques q (ctx_deque c) = []"
      and i: "i < length (injectors q)" by auto
    from SShards Cons st step look full steal_injector_sound [OF laws reg i own st] show ?thesis
      by (cases res) auto
  qed
next
  case (SPeers b vs)
  with look have b: b by simp
  show ?thesis
  proof (cases vs)
    case Nil
    with SPeers b step show ?thesis by auto
  next
    case (Cons v ws)
    with SPeers b step show ?thesis by (auto split: prod.splits steal.splits)
  qed
next
  case (SDone res)
  with step look show ?thesis by auto
qed

lemma scan_step_looks_at_peer:
  assumes wf: "wf_queue q" and reg: "registered q c" and laws: "steal_laws stl"
    and ok: "pc_ok q c pc" and ex: "exhaustive p q"
    and v: "v < length (stealers q)" "v \<noteq> ctx_idx c" "stealers q ! v = Some a"
    and step: "scan_step stl p q c pc = (q', c', pc')"
    and look: "looks_at_peer pc v" and full: "deques q' a \<noteq> []"
  shows "looks_at_peer pc' v"
proof (cases pc)
  case SOwn
  with step show ?thesis by (auto split: list.splits)
next
  case SPref
  have "looks_at_peer pc1 v" if "enter_shards p q1 c b = (c1, pc1)" for q1 b c1 pc1
    using that by (auto simp: enter_shards_def Let_def case_prod_beta split: if_splits)
  with SPref step show ?thesis by (auto split: prod.splits steal.splits)
next
  case (SShards b ks)
  show ?thesis
  proof (cases ks)
    case Nil
    obtain vs where "snd (enter_peers p q c b) = SPeers b vs"
      "{..<length (stealers q)} - {ctx_idx c} \<subseteq> set vs"
      using enter_peers_walk [OF wf reg, of p b] ex by blast
    with SShards Nil step v show ?thesis by (auto dest: arg_cong [of _ _ snd])
  next
    case (Cons i js)
    with SShards step show ?thesis by (auto split: prod.splits steal.splits)
  qed
next
  case (SPeers b vs)
  show ?thesis
  proof (cases vs)
    case Nil
    with SPeers step look show ?thesis by auto
  next
    case (Cons u ws)
    obtain res q1 where st: "steal_peer stl p u c q = (res, q1)"
      by (cases "steal_peer stl p u c q")
    from SPeers Cons ok have own: "deques q (ctx_deque c) = []"
      and u: "u < length (stealers q)" "u \<noteq> ctx_idx c" by auto
    from SPeers Cons st step look full v steal_peer_sound [OF laws reg u own st] show ?thesis
      by (cases res) auto
  qed
next
  case (SDone res)
  with step look show ?thesis by auto
qed

section \<open>A whole scan\<close>

text \<open>The invariant of a scan that runs alone, and what it gives at the end.\<close>

definition scan_inv :: "probe \<Rightarrow> 'r multiset \<Rightarrow> 'r queue \<times> worker_context \<times> 'r scan_pc \<Rightarrow> bool" where
  "scan_inv p items = (\<lambda>(q, c, pc).
     wf_queue q \<and> registered q c \<and> pc_ok q c pc \<and> queue_items q + found pc = items
     \<and> (exhaustive p q \<longrightarrow>
         (\<forall>j < length (injectors q). injectors q ! j \<noteq> [] \<longrightarrow> looks_at pc j)
         \<and> (\<forall>v < length (stealers q). \<forall>a. v \<noteq> ctx_idx c \<longrightarrow> stealers q ! v = Some a \<longrightarrow>
              deques q a \<noteq> [] \<longrightarrow> looks_at_peer pc v)))"

lemma scan_inv_step:
  assumes "scan_inv p items (q, c, pc)" and laws: "steal_laws stl"
  shows "scan_inv p items (scan_step stl p q c pc)"
proof -
  obtain q' c' pc' where step: "scan_step stl p q c pc = (q', c', pc')"
    by (cases "scan_step stl p q c pc")
  from assms(1) have wf: "wf_queue q" and reg: "registered q c" and ok: "pc_ok q c pc"
    and items: "queue_items q + found pc = items"
    by (auto simp: scan_inv_def)
  note shape = scan_step_shape [OF step]
  have sound: "step_sound q c pc (q', c', pc')"
    using scan_step_sound [OF wf reg laws ok, of p] by (simp add: step)
  have len: "length (injectors q') = length (injectors q)" "stealers q' = stealers q"
    "exhaustive p q' = exhaustive p q"
    using shape(1) by (simp_all add: same_shape_def exhaustive_def)
  have inj: "looks_at pc' j"
    if "exhaustive p q" "j < length (injectors q)" "injectors q' ! j \<noteq> []" for j
    using scan_step_looks_at [OF wf reg laws ok that(1,2) step _ that(3)] that assms(1) sound
    by (auto simp: scan_inv_def step_sound_def)
  have peer: "looks_at_peer pc' v"
    if "exhaustive p q" "v < length (stealers q)" "v \<noteq> ctx_idx c" "stealers q ! v = Some a"
      "deques q' a \<noteq> []" for v a
    using scan_step_looks_at_peer [OF wf reg laws ok that(1-4) step _ that(5)] that assms(1) sound
      registered_peer(2) [OF reg that(2,3,4)]
    by (auto simp: scan_inv_def step_sound_def)
  show ?thesis
    using same_shape_wf [OF shape(1) wf] same_shape_registered [OF shape reg] sound items inj peer
      shape(2)
    by (simp add: step scan_inv_def step_sound_def len)
qed

lemma scan_finished_iff: "scan_finished s = Some (res, q, c) \<longleftrightarrow> s = (q, c, SDone res)"
  by (cases s rule: scan_finished.cases) auto

lemma scan_run_inv:
  assumes "scan_run stl p fuel t s = Some (res, q', c')" and "scan_inv p items s"
    and laws: "\<And>n. steal_laws (stl n)"
  shows "scan_inv p items (q', c', SDone res)"
  using assms(1,2)
proof (induction fuel arbitrary: t s)
  case 0
  then show ?case by (simp add: scan_finished_iff)
next
  case (Suc fuel)
  show ?case
  proof (cases "scan_finished s")
    case (Some out)
    with Suc.prems show ?thesis by (simp add: scan_finished_iff)
  next
    case None
    obtain q c pc where s: "s = (q, c, pc)" by (cases s)
    with None Suc.prems Suc.IH scan_inv_step [OF _ laws] show ?thesis by simp
  qed
qed

lemma scan_inv_start: "wf_queue q \<Longrightarrow> registered q c \<Longrightarrow> scan_inv p (queue_items q) (q, c, SOwn)"
  by (simp add: scan_inv_def)

lemma scan_run_shape:
  assumes "scan_run stl p fuel t s = Some (res, q', c')"
  shows "same_shape (fst s) q' \<and> ctx_idx c' = ctx_idx (fst (snd s))
    \<and> ctx_deque c' = ctx_deque (fst (snd s))"
  using assms
proof (induction fuel arbitrary: t s)
  case 0
  then show ?case by (auto simp: scan_finished_iff)
next
  case (Suc fuel)
  show ?case
  proof (cases "scan_finished s")
    case (Some out)
    with Suc.prems show ?thesis by (auto simp: scan_finished_iff)
  next
    case None
    obtain q c pc where s: "s = (q, c, pc)" by (cases s)
    with None Suc.prems have
      "scan_run stl p fuel (Suc t) (scan_step (stl t) p q c pc) = Some (res, q', c')" by simp
    from Suc.IH [OF this] s show ?thesis
      using scan_step_shape_ctx [of q "stl t" p c pc] by (auto simp: same_shape_def)
  qed
qed

section \<open>Termination\<close>

text \<open>
  The number of steps left in a scan that meets no contention from now on; a contended pass
  costs one more.
\<close>

definition pass_length :: "'r queue \<Rightarrow> nat" where
  "pass_length q = length (injectors q) + length (stealers q) + 4"

fun steps_left :: "'r queue \<Rightarrow> 'r scan_pc \<Rightarrow> nat" where
  "steps_left q SOwn = pass_length q"
| "steps_left q SPref = pass_length q - 1"
| "steps_left q (SShards b js) =
     (if b then pass_length q else 0) + (length js + length (stealers q) + 2)"
| "steps_left q (SPeers b vs) = (if b then pass_length q else 0) + (length vs + 1)"
| "steps_left q (SDone res) = 0"

text \<open>The walks of a pass are no longer than the tables.\<close>

fun pc_fits :: "'r queue \<Rightarrow> 'r scan_pc \<Rightarrow> bool" where
  "pc_fits q (SShards b js) \<longleftrightarrow> length js < length (injectors q)"
| "pc_fits q (SPeers b vs) \<longleftrightarrow> length vs \<le> length (stealers q)"
| "pc_fits q _ \<longleftrightarrow> True"

lemma steps_left_bound: "pc_fits q pc \<Longrightarrow> steps_left q pc \<le> 2 * pass_length q"
  by (cases pc) (auto simp: pass_length_def)

lemma same_shape_steps_left:
  "same_shape q q' \<Longrightarrow> steps_left q' pc = steps_left q pc \<and> pass_length q' = pass_length q
     \<and> pc_fits q' pc = pc_fits q pc"
  by (cases pc) (auto simp: pass_length_def same_shape_def)

lemma steal_never_retries:
  assumes "never_retries stl"
  shows "fst (steal_injector stl p i c q) \<noteq> Retry" and "fst (steal_peer stl p v c q) \<noteq> Retry"
  using assms
  by (auto simp: steal_injector_def steal_peer_def never_retries_def case_prod_beta
      split: option.splits)

text \<open>A pass that met contention is repeated.\<close>

fun contended :: "'r scan_pc \<Rightarrow> bool" where
  "contended (SShards b js) \<longleftrightarrow> b"
| "contended (SPeers b vs) \<longleftrightarrow> b"
| "contended _ \<longleftrightarrow> False"

definition step_fits ::
  "'r steal_fn \<Rightarrow> 'r queue \<Rightarrow> 'r scan_pc \<Rightarrow> 'r queue \<times> worker_context \<times> 'r scan_pc \<Rightarrow> bool" where
  "step_fits stl q pc out \<longleftrightarrow> pc_fits q (snd (snd out))
     \<and> (never_retries stl \<longrightarrow> contended (snd (snd out)) \<longrightarrow> contended pc)
     \<and> ((contended (snd (snd out)) \<longrightarrow> contended pc) \<longrightarrow>
          steps_left q (snd (snd out)) < steps_left q pc)"

lemma scan_step_fits:
  assumes wf: "wf_queue q" and reg: "registered q c" and fits: "pc_fits q pc"
    and going: "scan_finished (q, c, pc) = None"
  shows "step_fits stl q pc (scan_step stl p q c pc)"
proof (cases pc)
  case SOwn
  then show ?thesis by (auto simp: step_fits_def pass_length_def split: list.split)
next
  case SPref
  obtain res q1 where st: "steal_injector stl p (my_shard q c) c q = (res, q1)"
    by (cases "steal_injector stl p (my_shard q c) c q")
  note shape = steal_injector_shape [OF st]
  obtain js where js: "snd (enter_shards p q1 c (res = Retry)) = SShards (res = Retry) js"
    "length js \<le> shard_mask q1"
    using enter_shards_walk [OF same_shape_wf [OF shape wf], of p c] by blast
  have "length js < length (injectors q)"
    using js(2) wf_queue_length [OF wf] shape by (simp add: same_shape_def)
  with SPref st js steal_never_retries(1) [of stl p "my_shard q c" c q] show ?thesis
    by (cases res) (auto simp: step_fits_def pass_length_def)
next
  case (SShards b ks)
  show ?thesis
  proof (cases ks)
    case Nil
    obtain vs where "snd (enter_peers p q c b) = SPeers b vs" "length vs \<le> length (stealers q)"
      using enter_peers_walk [OF wf reg, of p b] by blast
    with SShards Nil show ?thesis by (simp add: step_fits_def)
  next
    case (Cons i js)
    obtain res q1 where st: "steal_injector stl p i c q = (res, q1)"
      by (cases "steal_injector stl p i c q")
    with SShards Cons fits steal_never_retries(1) [of stl p i c q] show ?thesis
      by (cases res) (auto simp: step_fits_def)
  qed
next
  case (SPeers b vs)
  show ?thesis
  proof (cases vs)
    case Nil
    with SPeers show ?thesis by (simp add: step_fits_def)
  next
    case (Cons v ws)
    obtain res q1 where st: "steal_peer stl p v c q = (res, q1)"
      by (cases "steal_peer stl p v c q")
    with SPeers Cons fits steal_never_retries(2) [of stl p v c q] show ?thesis
      by (cases res) (auto simp: step_fits_def)
  qed
next
  case (SDone res)
  with going show ?thesis by simp
qed

lemma scan_run_returns:
  assumes "wf_queue q" and "registered q c" and "pc_fits q pc"
    and late: "\<And>n. T \<le> n \<Longrightarrow> never_retries (stl n)"
    and "(T - t) + (if t < T then 2 * pass_length q else steps_left q pc) \<le> fuel"
  shows "\<exists>out. scan_run stl p fuel t (q, c, pc) = Some out"
  using assms(1,2,3,5)
proof (induction fuel arbitrary: t q c pc)
  case 0
  then have "steps_left q pc = 0" by (auto simp: pass_length_def split: if_splits)
  then show ?case by (cases pc) (auto simp: pass_length_def)
next
  case (Suc fuel)
  show ?case
  proof (cases "scan_finished (q, c, pc)")
    case (Some out)
    then show ?thesis by (cases out) simp
  next
    case None
    obtain q' c' pc' where step: "scan_step (stl t) p q c pc = (q', c', pc')"
      by (cases "scan_step (stl t) p q c pc")
    note shape = scan_step_shape [OF step]
    have fits: "step_fits (stl t) q pc (q', c', pc')"
      using scan_step_fits [OF Suc.prems(1-3) None, of "stl t" p] by (simp add: step)
    have fits': "pc_fits q' pc'"
      using fits same_shape_steps_left [OF shape(1)] by (simp add: step_fits_def)
    have eq: "steps_left q' pc' = steps_left q pc'" "pass_length q' = pass_length q"
      using same_shape_steps_left [OF shape(1)] by blast+
    have "(T - Suc t) + (if Suc t < T then 2 * pass_length q' else steps_left q' pc') \<le> fuel"
    proof (cases "T \<le> t")
      case True
      then have "steps_left q pc' < steps_left q pc"
        using fits late by (simp add: step_fits_def)
      with True Suc.prems(4) eq show ?thesis by simp
    next
      case False
      with Suc.prems(4) steps_left_bound [OF fits'] eq show ?thesis by auto
    qed
    then show ?thesis
      using Suc.IH [OF same_shape_wf [OF shape(1) Suc.prems(1)]
          same_shape_registered [OF shape Suc.prems(2)] fits'] None step by simp
  qed
qed

section \<open>The order of preference\<close>

lemma scan_run_done: "scan_run stl p fuel t (q, c, SDone res) = Some (res, q, c)"
  by (cases fuel) simp_all

lemma scan_own_first:
  assumes "1 \<le> fuel" and "deques q (ctx_deque c) = r # rs"
  shows "scan stl fuel q c p = Some (Some r, q\<lparr>deques := (deques q)(ctx_deque c := rs)\<rparr>, c)"
  using assms by (cases fuel) (simp_all add: scan_def scan_run_done)

lemma scan_shard_second:
  assumes "wf_queue q" and "registered q c" and laws: "\<And>n. steal_laws (stl n)"
    and "2 \<le> fuel" and "never_retries (stl 1)"
    and own: "deques q (ctx_deque c) = []" and shard: "injectors q ! my_shard q c = r # rs"
  shows "\<exists>batch rest. rs = batch @ rest \<and> scan stl fuel q c p = Some (Some r,
     q\<lparr>injectors := (injectors q)[my_shard q c := rest],
       deques := (deques q)(ctx_deque c := batch)\<rparr>, c)"
proof -
  from assms(4) obtain n where "fuel = 2 + n" by (auto simp: le_iff_add)
  then have fuel: "fuel = Suc (Suc n)" by simp
  have my: "my_shard q c < length (injectors q)"
    using wf_queue_mask_less [OF assms(1)] by (simp add: my_shard_def)
  obtain res q' where st: "steal_injector (stl 1) p (my_shard q c) c q = (res, q')"
    by (cases "steal_injector (stl 1) p (my_shard q c) c q")
  from laws own my st show ?thesis
  proof (cases rule: steal_injector_outcome)
    case (success x batch rest)
    then show ?thesis using st own shard by (auto simp: scan_def fuel scan_run_done)
  next
    case retry
    with st steal_never_retries(1) [OF assms(5), of p "my_shard q c" c q] show ?thesis by simp
  next
    case empty
    with shard show ?thesis by simp
  qed
qed

section \<open>Properties of the scan\<close>

text \<open>
  C27. The scan terminates: once contention has ceased (no \<open>Retry\<close> from step \<open>T\<close> on)
  the scan returns within a bounded number of further steps, two passes over the tables;
  it never hands out a runnable that was not queued, and loses and duplicates none.
\<close>
theorem scan_terminates_and_conserves:
  assumes "wf_queue q" and "registered q c" and "\<And>n. steal_laws (stl n)"
    and "\<And>n. T \<le> n \<Longrightarrow> never_retries (stl n)" and "T + 2 * pass_length q \<le> fuel"
  shows "\<exists>res q' c'. scan stl fuel q c p = Some (res, q', c')
    \<and> queue_items q = queue_items q' + (case res of None \<Rightarrow> {#} | Some r \<Rightarrow> {#r#})"
proof -
  have "\<exists>out. scan_run stl p fuel 0 (q, c, SOwn) = Some out"
    using assms(4,5) by (intro scan_run_returns [OF assms(1,2), where T = T]) auto
  then obtain res q' c' where run: "scan_run stl p fuel 0 (q, c, SOwn) = Some (res, q', c')"
    by auto
  have "scan_inv p (queue_items q) (q', c', SDone res)"
    using run scan_inv_start [OF assms(1,2)] assms(3) by (rule scan_run_inv)
  then show ?thesis
    by (intro exI [of _ res] exI [of _ q'] exI [of _ c'])
      (cases res; simp add: scan_inv_def scan_def run)
qed

text \<open>A pool of two workers and two shards with five queued runnables, for concrete runs.\<close>

definition sample_queue :: "nat queue" where
  "sample_queue = \<lparr>injectors = [[10, 11, 12], [13]], stealers = [Some 0, Some 1],
     shard_mask = 1, park = None, waiters = {}, parked = 0, notified = 0,
     shutdown_flag = False, deques = (\<lambda>_. [])(1 := [14]), next_addr = 2\<rparr>"

definition sample_context :: worker_context where
  "sample_context = \<lparr>ctx_idx = 0, ctx_deque = 0, ctx_rng = rng_seed 0\<rparr>"

lemma sample_wf: "wf_queue sample_queue"
  by (auto simp: sample_queue_def wf_queue_def intro: exI [of _ 1])

lemma less_2_cases_nat: "v < Suc (Suc 0) \<Longrightarrow> v = 0 \<or> v = Suc 0"
  by auto

lemma sample_registered: "registered sample_queue sample_context"
  by (auto simp: sample_queue_def sample_context_def registered_def dest: less_2_cases_nat)

theorem scan_terminates_and_conserves_witness:
  "\<exists>res q' c'. scan (\<lambda>n. if n < 3 then steal_beaten else steal_half) 20 sample_queue
      sample_context Strict = Some (res, q', c')
    \<and> queue_items sample_queue = queue_items q' + (case res of None \<Rightarrow> {#} | Some r \<Rightarrow> {#r#})"
  by (rule scan_terminates_and_conserves [OF sample_wf sample_registered, where T = 3])
    (simp_all add: steal_beaten_laws steal_half_laws steal_half_never_retries sample_queue_def
      pass_length_def)

text \<open>
  C28. A strict scan (and a cheap one in a pool of at most nine workers and nine shards)
  comes back empty-handed only if nothing is queued anywhere a worker can reach: every
  injector, the worker's own deque and the deque behind every stealer slot are empty.
\<close>
theorem exhaustive_scan_none_means_empty:
  assumes "wf_queue q" and "registered q c" and "\<And>n. steal_laws (stl n)"
    and "p = Strict \<or> length (injectors q) \<le> 9 \<and> length (stealers q) \<le> 9"
    and "scan stl fuel q c p = Some (None, q', c')"
  shows "(\<forall>xs \<in> set (injectors q'). xs = []) \<and> deques q' (ctx_deque c) = []
    \<and> (\<forall>v < length (stealers q). \<forall>a. stealers q ! v = Some a \<longrightarrow> deques q' a = [])"
proof -
  have ex: "exhaustive p q"
    using assms(4) exhaustive_Strict exhaustive_small [OF _ _ assms(1)] by auto
  have inv: "scan_inv p (queue_items q) (q', c', SDone None)"
    using assms(5) scan_inv_start [OF assms(1,2)] assms(3) unfolding scan_def by (rule scan_run_inv)
  from scan_run_shape [OF assms(5) [unfolded scan_def]] ex
  have same: "exhaustive p q'" "stealers q' = stealers q" "ctx_idx c' = ctx_idx c"
    "ctx_deque c' = ctx_deque c"
    by (auto simp: same_shape_def exhaustive_def)
  have own: "deques q' (ctx_deque c) = []" using inv same by (simp add: scan_inv_def)
  have "\<forall>j < length (injectors q'). injectors q' ! j = []"
    using inv same(1) by (auto simp: scan_inv_def)
  then have "\<forall>xs \<in> set (injectors q'). xs = []" by (metis in_set_conv_nth)
  moreover have "deques q' a = []" if "v < length (stealers q)" "stealers q ! v = Some a" for v a
  proof (cases "v = ctx_idx c")
    case True
    with that(2) own registered_bounds(2) [OF assms(2)] show ?thesis by simp
  next
    case False
    with inv same that show ?thesis by (auto simp: scan_inv_def)
  qed
  ultimately show ?thesis using own by blast
qed

text \<open>
  The scan's order of preference, and FIFO within a container: the front of the own deque
  first, touching nothing else; with an empty own deque the front of the preferred injector,
  behind which a batch moves, in order, into the own deque. Neither advances the generator.
\<close>
theorem scan_prefers_own_then_shard:
  assumes "wf_queue q" and "registered q c" and "\<And>n. steal_laws (stl n)" and "2 \<le> fuel"
    and "never_retries (stl 1)"
  shows "(\<forall>r rs. deques q (ctx_deque c) = r # rs \<longrightarrow>
      scan stl fuel q c p = Some (Some r, q\<lparr>deques := (deques q)(ctx_deque c := rs)\<rparr>, c))
    \<and> (\<forall>r rs. deques q (ctx_deque c) = [] \<longrightarrow> injectors q ! my_shard q c = r # rs \<longrightarrow>
      (\<exists>batch rest. rs = batch @ rest \<and> scan stl fuel q c p = Some (Some r,
         q\<lparr>injectors := (injectors q)[my_shard q c := rest],
           deques := (deques q)(ctx_deque c := batch)\<rparr>, c)))"
proof (intro conjI allI impI)
  show "scan stl fuel q c p = Some (Some r, q\<lparr>deques := (deques q)(ctx_deque c := rs)\<rparr>, c)"
    if "deques q (ctx_deque c) = r # rs" for r rs
    by (rule scan_own_first) (use assms(4) that in auto)
  show "\<exists>batch rest. rs = batch @ rest \<and> scan stl fuel q c p = Some (Some r,
         q\<lparr>injectors := (injectors q)[my_shard q c := rest],
           deques := (deques q)(ctx_deque c := batch)\<rparr>, c)"
    if "deques q (ctx_deque c) = []" and "injectors q ! my_shard q c = r # rs" for r rs
    by (rule scan_shard_second) (use assms that in auto)
qed

theorem scan_prefers_own_then_shard_witness:
  "\<exists>batch rest. [11, 12] = batch @ rest
    \<and> scan (\<lambda>_. steal_half) 20 sample_queue sample_context Cheap = Some (Some 10,
         sample_queue\<lparr>injectors := (injectors sample_queue)[0 := rest],
           deques := (deques sample_queue)(0 := batch)\<rparr>, sample_context)"
proof -
  have shard: "my_shard sample_queue sample_context = 0" "ctx_deque sample_context = 0"
    by (simp_all add: my_shard_def sample_queue_def sample_context_def)
  have "deques sample_queue 0 = []" "injectors sample_queue ! 0 = [10, 11, 12]"
    by (simp_all add: sample_queue_def)
  then show ?thesis
    using scan_prefers_own_then_shard [OF sample_wf sample_registered steal_half_laws _
        steal_half_never_retries, of 20 Cheap] shard by simp
qed

text \<open>The same pool, drained.\<close>

definition drained_queue :: "nat queue" where
  "drained_queue = sample_queue\<lparr>injectors := [[], []], deques := (\<lambda>_. [])\<rparr>"

lemma drained_wf: "wf_queue drained_queue"
  using sample_wf by (simp add: drained_queue_def wf_queue_def sample_queue_def)

lemma drained_registered: "registered drained_queue sample_context"
  using sample_registered by (simp add: drained_queue_def registered_def)

theorem exhaustive_scan_none_means_empty_witness:
  "\<exists>q' c'. scan (\<lambda>_. steal_half) 20 drained_queue sample_context Strict = Some (None, q', c')
    \<and> (\<forall>xs \<in> set (injectors q'). xs = []) \<and> deques q' 0 = []"
proof -
  have "map_option fst (scan (\<lambda>_. steal_half) 20 drained_queue sample_context Strict) = Some None"
    by code_simp
  then obtain q' c' where run:
    "scan (\<lambda>_. steal_half) 20 drained_queue sample_context Strict = Some (None, q', c')"
    by auto
  from exhaustive_scan_none_means_empty [OF drained_wf drained_registered steal_half_laws disjI1 run]
  show ?thesis using run by (simp add: sample_context_def)
qed

text \<open>A drained-looking pool of ten workers: the one runnable is behind the last slot.\<close>

definition ten_workers :: "nat queue" where
  "ten_workers = \<lparr>injectors = replicate 8 [], stealers = map Some [0..<10], shard_mask = 7,
     park = None, waiters = {}, parked = 0, notified = 0, shutdown_flag = False,
     deques = (\<lambda>_. [])(9 := [7]), next_addr = 10\<rparr>"

text \<open>
  A cheap scan of a larger pool can miss queued work: with ten workers, worker 0's cheap
  scan returns nothing while a runnable sits in the deque of worker \<open>9\<close>; the strict scan
  from the same state finds it.
\<close>
theorem cheap_scan_can_miss:
  "map_option (\<lambda>(res, q', c'). (res, deques q' 9))
      (scan (\<lambda>_. steal_half) 40 ten_workers sample_context Cheap) = Some (None, [7])
   \<and> map_option (\<lambda>(res, q', c'). (res, deques q' 9))
      (scan (\<lambda>_. steal_half) 40 ten_workers sample_context Strict) = Some (Some 7, [])"
  by code_simp

end
