(* ===== verification/Fifo.thy ===== *)
theory Fifo
  imports Scan
begin

text \<open>
  The queue of \<open>src/queue.rs\<close> in a pool with one worker, where it degenerates to one shard:
  seen from the worker, the deque followed by the injector is one line. Scanning takes its
  head, a push by any other thread joins its end, whatever batches a steal moves; a push by
  the worker itself goes between the two parts.
\<close>

section \<open>The line\<close>

definition line :: "'r queue \<Rightarrow> worker_context \<Rightarrow> 'r list" where
  "line q c = deques q (ctx_deque c) @ injectors q ! 0"

definition one_lane :: "'r queue \<Rightarrow> worker_context \<Rightarrow> bool" where
  "one_lane q c \<longleftrightarrow> wf_queue q \<and> registered q c \<and> length (injectors q) = 1 \<and> length (stealers q) = 1"

fun fifo_pop :: "'r list \<Rightarrow> 'r option \<times> 'r list" where
  "fifo_pop [] = (None, [])"
| "fifo_pop (x # xs) = (Some x, xs)"

lemma one_lane_mask: "one_lane q c \<Longrightarrow> shard_mask q = 0 \<and> my_shard q c = 0"
  using wf_queue_length [of q] by (auto simp: one_lane_def my_shard_def)

lemma one_lane_shape: "one_lane q c \<Longrightarrow> same_shape q q' \<Longrightarrow> one_lane q' c"
  using same_shape_wf [of q q'] same_shape_registered [of q q' c c]
  by (simp add: one_lane_def same_shape_def)

lemma empty_lane_scan:
  assumes lane: "one_lane q c" and laws: "\<And>n. steal_laws (stl n)"
    and calm: "\<And>n. never_retries (stl n)" and "5 \<le> fuel" and empty: "line q c = []"
  shows "scan stl fuel q c p = Some (None, q, c)"
proof -
  obtain n where "fuel = 5 + n" using assms(4) by (auto simp: le_iff_add)
  then have fuel: "fuel = Suc (Suc (Suc (Suc (Suc n))))" by simp
  have own: "deques q (ctx_deque c) = []" and shard: "injectors q ! 0 = []"
    using empty by (simp_all add: line_def)
  note mask = one_lane_mask [OF lane]
  have len: "length (injectors q) = 1" "length (stealers q) = 1" using lane by (simp_all add: one_lane_def)
  obtain res q' where st: "steal_injector (stl 1) p 0 c q = (res, q')"
    by (cases "steal_injector (stl 1) p 0 c q")
  have pos: "0 < length (injectors q)" using len by simp
  have "res = Empty \<and> q' = q"
    using laws own pos st
  proof (cases rule: steal_injector_outcome)
    case retry
    with st steal_never_retries(1) [OF calm, of 1 p 0 c q] show ?thesis by simp
  qed (simp_all add: shard)
  then show ?thesis
    using st own len by (simp add: scan_def fuel mask enter_shards_def enter_peers_def scan_run_done)
qed

text \<open>A scan takes the head of the line.\<close>

lemma lane_scan:
  assumes lane: "one_lane q c" and laws: "\<And>n. steal_laws (stl n)"
    and calm: "\<And>n. never_retries (stl n)" and fuel: "5 \<le> fuel"
  obtains q' where "scan stl fuel q c p = Some (fst (fifo_pop (line q c)), q', c)"
    "line q' c = snd (fifo_pop (line q c))" "one_lane q' c"
proof (cases "deques q (ctx_deque c)")
  case (Cons r rs)
  let ?q = "q\<lparr>deques := (deques q)(ctx_deque c := rs)\<rparr>"
  have "scan stl fuel q c p = Some (Some r, ?q, c)"
    using fuel by (intro scan_own_first [OF _ Cons]) simp
  then show ?thesis
    using Cons one_lane_shape [OF lane, of ?q] by (intro that [of ?q]) (simp_all add: line_def same_shape_def)
next
  case own: Nil
  show ?thesis
  proof (cases "injectors q ! 0")
    case Nil
    with own have "line q c = []" by (simp add: line_def)
    with empty_lane_scan [OF lane laws calm fuel this] lane show ?thesis by (intro that) simp_all
  next
    case (Cons r rs)
    have len: "length (injectors q) = 1" "wf_queue q" "registered q c" using lane by (simp_all add: one_lane_def)
    have "injectors q ! my_shard q c = r # rs" by (simp add: one_lane_mask [OF lane] Cons)
    from scan_shard_second [of q c stl fuel, OF len(2,3) laws _ calm own this, of p] fuel
    obtain batch rest where st: "rs = batch @ rest" "scan stl fuel q c p = Some (Some r,
       q\<lparr>injectors := (injectors q)[0 := rest], deques := (deques q)(ctx_deque c := batch)\<rparr>, c)"
      by (auto simp: one_lane_mask [OF lane])
    let ?q = "q\<lparr>injectors := (injectors q)[0 := rest], deques := (deques q)(ctx_deque c := batch)\<rparr>"
    show ?thesis
      using st own Cons len one_lane_shape [OF lane, of ?q]
      by (intro that [of ?q]) (simp_all add: line_def same_shape_def)
  qed
qed

section \<open>Pushes and repeated scans\<close>

text \<open>A push by a thread outside the pool, with its hash and its route cell.\<close>

definition push_foreign ::
  "usize \<Rightarrow> 'r \<Rightarrow> 'r queue \<times> producer_route option \<Rightarrow> 'r queue \<times> producer_route option" where
  "push_foreign hash r = (\<lambda>(q, cell).
     let (d, cell') = push_dest 0 None (shard_mask q) hash cell in (enqueue d r q, cell'))"

lemma lane_push:
  assumes "one_lane q c"
  shows "\<exists>q'. push_foreign hash r (q, cell) = (q', cell) \<and> line q' c = line q c @ [r] \<and> one_lane q' c"
proof -
  have "push_foreign hash r (q, cell) = (enqueue (Shard 0) r q, cell)"
    using one_lane_mask [OF assms] by (simp add: push_foreign_def push_dest_def)
  moreover have "line (enqueue (Shard 0) r q) c = line q c @ [r]"
    using assms by (simp add: line_def enqueue_def one_lane_def)
  moreover have "one_lane (enqueue (Shard 0) r q) c"
    by (rule one_lane_shape [OF assms]) (simp add: same_shape_def enqueue_def)
  ultimately show ?thesis by blast
qed

primrec push_all ::
  "(usize \<times> 'r) list \<Rightarrow> 'r queue \<times> producer_route option \<Rightarrow> 'r queue \<times> producer_route option" where
  "push_all [] s = s"
| "push_all (x # xs) s = push_all xs (push_foreign (fst x) (snd x) s)"

text \<open>\<open>n\<close> scans in a row; \<open>stl k\<close> are the outcomes of the steals of the \<open>k\<close>-th.\<close>

primrec scan_all ::
  "(nat \<Rightarrow> nat \<Rightarrow> 'r steal_fn) \<Rightarrow> nat \<Rightarrow> probe \<Rightarrow> nat \<Rightarrow> 'r queue \<Rightarrow> worker_context \<Rightarrow>
     ('r option list \<times> 'r queue) option" where
  "scan_all stl fuel p 0 q c = Some ([], q)"
| "scan_all stl fuel p (Suc n) q c =
     Option.bind (scan (stl n) fuel q c p) (\<lambda>(res, q', c').
     map_option (\<lambda>(out, q''). (res # out, q'')) (scan_all stl fuel p n q' c'))"

lemma lane_push_all:
  "one_lane q c \<Longrightarrow> \<exists>q'. push_all xs (q, cell) = (q', cell)
     \<and> line q' c = line q c @ map snd xs \<and> one_lane q' c"
proof (induction xs arbitrary: q)
  case Nil
  then show ?case by simp
next
  case (Cons x xs)
  obtain q1 where q1: "push_foreign (fst x) (snd x) (q, cell) = (q1, cell)"
    "line q1 c = line q c @ [snd x]" "one_lane q1 c"
    using lane_push [OF Cons.prems] by blast
  from Cons.IH [OF q1(3)] q1 show ?case by simp
qed

lemma lane_scan_all:
  assumes "\<And>k n. steal_laws (stl k n)" and "\<And>k n. never_retries (stl k n)" and "5 \<le> fuel"
  shows "one_lane q c \<Longrightarrow> \<exists>q'. scan_all stl fuel p (length (line q c) + extra) q c
       = Some (map Some (line q c) @ replicate extra None, q') \<and> line q' c = [] \<and> one_lane q' c"
proof (induction "length (line q c) + extra" arbitrary: q extra)
  case 0
  then show ?case by simp
next
  case (Suc n)
  obtain q1 where q1: "scan (stl n) fuel q c p = Some (fst (fifo_pop (line q c)), q1, c)"
    "line q1 c = snd (fifo_pop (line q c))" "one_lane q1 c"
    using lane_scan [OF Suc.prems assms(1,2,3)] .
  show ?case
  proof (cases "line q c")
    case Nil
    with Suc.hyps(2) obtain m where m: "extra = Suc m" "n = m" by (cases extra) auto
    with Suc.hyps(1) [of q1 m] q1 Nil show ?thesis by auto
  next
    case (Cons x xs)
    with Suc.hyps(2) have "n = length (line q1 c) + extra" using q1(2) by simp
    from Suc.hyps(1) [OF this q1(3)] this q1 Cons show ?thesis by auto
  qed
qed

section \<open>Properties\<close>

text \<open>
  C25. A one-worker pool is a FIFO queue: with the abstraction that reads the worker's deque
  followed by the only injector, a scan (either probe, any batch size, no contention) is the
  removal of the head, \<open>None\<close> meaning that the line is empty; a push from outside, whatever
  its hash and route cell, appends; a push by the worker itself joins the end of its deque,
  ahead of everything still in the injector.
\<close>
theorem single_worker_fifo:
  assumes "one_lane q c" and "\<And>n. steal_laws (stl n)" and "\<And>n. never_retries (stl n)"
    and "5 \<le> fuel"
  shows "(\<exists>q'. scan stl fuel q c p = Some (fst (fifo_pop (line q c)), q', c)
      \<and> line q' c = snd (fifo_pop (line q c)) \<and> one_lane q' c)
    \<and> line (fst (push_foreign hash r (q, cell))) c = line q c @ [r]
    \<and> line (enqueue (fst (push_dest 0 (enter_worker_scope 0 c) (shard_mask q) hash cell)) r q) c
        = deques q (ctx_deque c) @ r # injectors q ! 0"
proof (intro conjI)
  show "\<exists>q'. scan stl fuel q c p = Some (fst (fifo_pop (line q c)), q', c)
      \<and> line q' c = snd (fifo_pop (line q c)) \<and> one_lane q' c"
    by (rule lane_scan [where stl = stl and p = p, OF assms]) blast
  show "line (fst (push_foreign hash r (q, cell))) c = line q c @ [r]"
    using lane_push [OF assms(1), of hash r cell] by auto
  show "line (enqueue (fst (push_dest 0 (enter_worker_scope 0 c) (shard_mask q) hash cell)) r q) c
        = deques q (ctx_deque c) @ r # injectors q ! 0"
    by (simp add: enter_worker_scope_def push_dest_def line_def enqueue_def)
qed

definition lane_context :: worker_context where
  "lane_context = \<lparr>ctx_idx = 0, ctx_deque = 0, ctx_rng = rng_seed 0\<rparr>"

definition lane_queue :: "nat list \<Rightarrow> nat list \<Rightarrow> nat queue" where
  "lane_queue own shared = \<lparr>injectors = [shared], stealers = [Some 0], shard_mask = 0, park = None,
     waiters = {}, parked = 0, notified = 0, shutdown_flag = False, deques = (\<lambda>_. [])(0 := own),
     next_addr = 1\<rparr>"

lemma lane_queue_ok: "one_lane (lane_queue own shared) lane_context"
proof -
  have "wf_queue (lane_queue own shared)"
    unfolding wf_queue_def by (intro conjI exI [of _ "0::nat"]) (auto simp: lane_queue_def)
  then show ?thesis by (simp add: one_lane_def lane_queue_def lane_context_def registered_def)
qed

lemma lane_queue_line [simp]: "line (lane_queue own shared) lane_context = own @ shared"
  by (simp add: line_def lane_queue_def lane_context_def)

theorem single_worker_fifo_witness:
  "\<exists>q'. scan (\<lambda>_. steal_half) 5 (lane_queue [] [1, 2, 3, 4]) lane_context Cheap = Some (Some 1, q', lane_context)
     \<and> line q' lane_context = [2, 3, 4]"
proof -
  have "fifo_pop (line (lane_queue [] [1, 2, 3, 4]) lane_context) = (Some 1, [2, 3, 4])" by simp
  with single_worker_fifo [OF lane_queue_ok, of "\<lambda>_. steal_half" 5 "[]" "[1, 2, 3, 4]" Cheap,
      THEN conjunct1]
  show ?thesis by (auto simp: steal_half_laws steal_half_never_retries)
qed

text \<open>
  C26. What is pushed comes back, once each and in order: into an idle one-worker queue any
  threads outside the pool push any runnables; as many scans as there were pushes return
  exactly these, first in first out, and all further scans return nothing.
\<close>
theorem pushed_then_scanned_in_order:
  assumes "one_lane q c" and "line q c = []"
    and "\<And>k n. steal_laws (stl k n)" and "\<And>k n. never_retries (stl k n)" and "5 \<le> fuel"
  shows "\<exists>q'. scan_all stl fuel p (length xs + extra) (fst (push_all xs (q, cell))) c
      = Some (map Some (map snd xs) @ replicate extra None, q') \<and> line q' c = []"
proof -
  obtain q1 where q1: "push_all xs (q, cell) = (q1, cell)" "line q1 c = map snd xs" "one_lane q1 c"
    using lane_push_all [OF assms(1), of xs cell] assms(2) by auto
  from lane_scan_all [where stl = stl, OF assms(3-5) q1(3), where p = p and extra = extra] q1(1,2) show ?thesis by auto
qed

theorem pushed_then_scanned_in_order_witness:
  "\<exists>q'. scan_all (\<lambda>_ _. steal_half) 5 Cheap 4
      (fst (push_all [(7, 10), (8, 11), (7, 12)] (lane_queue [] [], None))) lane_context
    = Some ([Some 10, Some 11, Some 12, None], q')"
proof -
  let ?xs = "[(7 :: usize, 10 :: nat), (8, 11), (7, 12)]"
  obtain q' where "scan_all (\<lambda>_ _. steal_half) 5 Cheap (length ?xs + 1)
      (fst (push_all ?xs (lane_queue [] [], None))) lane_context
    = Some (map Some (map snd ?xs) @ replicate 1 None, q')"
    using pushed_then_scanned_in_order [where stl = "\<lambda>_ _. steal_half" and xs = ?xs and cell = None,
        OF lane_queue_ok [of "[]" "[]"] lane_queue_line [of "[]" "[]", unfolded append_Nil]
          steal_half_laws steal_half_never_retries order_refl, of Cheap 1]
    by blast
  moreover have "length ?xs + 1 = 4" "map Some (map snd ?xs) @ replicate 1 None
      = [Some 10, Some 11, Some 12, None]" by simp_all
  ultimately show ?thesis by metis
qed

end
