(* ===== verification/Handshake.thy ===== *)
theory Handshake
  imports Scan
begin

text \<open>
  The concurrent queue: \<open>Queue::push\<close>, \<open>Queue::pop_blocking\<close> and \<open>Queue::shutdown\<close> of
  \<open>src/queue.rs\<close> and the worker loop of \<open>Threadpool::spin_up\<close> (\<open>src/lib.rs\<close>) as programs
  whose steps, one access to shared state each, interleave. The two \<open>SeqCst\<close> fences of the
  code order the queue access and the \<open>parked\<close> access of each side; the model is the
  sequentially consistent interleaving they are there to restore. The mutex gives mutual
  exclusion, \<open>wait\<close> releases it and joins the waiters in one step, and a waiter returns only
  when it was notified, as \<open>parking_lot\<close> documents. What a steal returns is any outcome the
  laws of \<open>Queue\<close> allow.
\<close>

section \<open>The producer's wake-up handshake\<close>

text \<open>
  What \<open>push\<close> does after it has queued the runnable: load \<open>parked\<close>, load \<open>notified\<close>,
  and, if they call for it, the locked re-check, the increment and \<open>notify_one\<close>. The two
  loads of the re-check and the increment are one step: both counters are written only with
  the mutex held.
\<close>

datatype hand_pc =
    HLoadParked
  | HLoadNotified usize
  | HLock
  | HRecheck
  | HNotify
  | HUnlock
  | HDone

inductive hand_step :: "tid \<Rightarrow> 'r queue \<times> hand_pc \<Rightarrow> 'r queue \<times> hand_pc \<Rightarrow> bool" for t where
  load_parked:
    "hand_step t (q, HLoadParked) (q, HLoadNotified (parked q))"
| load_notified_wake:
    "notified q < p \<Longrightarrow> hand_step t (q, HLoadNotified p) (q, HLock)"
| load_notified_skip:
    "\<not> notified q < p \<Longrightarrow> hand_step t (q, HLoadNotified p) (q, HDone)"
| hand_lock:
    "park q = None \<Longrightarrow> hand_step t (q, HLock) (q\<lparr>park := Some t\<rparr>, HRecheck)"
| recheck_wake:
    "notified q < parked q \<Longrightarrow>
     hand_step t (q, HRecheck) (q\<lparr>notified := notified q + 1\<rparr>, HNotify)"
| recheck_skip:
    "\<not> notified q < parked q \<Longrightarrow> hand_step t (q, HRecheck) (q, HUnlock)"
| notify_waiter:
    "w \<in> waiters q \<Longrightarrow>
     hand_step t (q, HNotify) (q\<lparr>waiters := waiters q - {w}\<rparr>, HUnlock)"
| notify_nobody:
    "waiters q = {} \<Longrightarrow> hand_step t (q, HNotify) (q, HUnlock)"
| hand_unlock:
    "hand_step t (q, HUnlock) (q\<lparr>park := None\<rparr>, HDone)"

section \<open>The worker's side\<close>

definition SPIN_ROUNDS :: nat where
  "SPIN_ROUNDS = 6"

text \<open>How \<open>pop_blocking\<close> goes on once it has released the mutex.\<close>

datatype 'r after = Got 'r | Quit | Again

text \<open>
  The program counter of a worker thread: not started; cheap scan number \<open>k\<close> (0 is phase 1,
  1 to 6 are the spin rounds); before \<open>park.lock\<close>; before \<open>parked.fetch_add\<close>; the armed
  re-scan; the \<open>shutdown\<close> load; before and inside \<open>notify.wait\<close>; the adjustment of
  \<open>notified\<close>; \<open>parked.fetch_sub\<close>; the release of the mutex; running a runnable; running
  one that is in the handshake of a push of its own; exited.
\<close>

datatype 'r wpc =
    WStart
  | WScan nat "'r scan_pc"
  | WLock
  | WArm
  | WRescan "'r scan_pc"
  | WCheck
  | WSleep
  | WWait
  | WAdjust "'r after"
  | WDisarm "'r after"
  | WUnlock "'r after"
  | WRun 'r
  | WPush 'r hand_pc
  | WExit

fun after_unlock :: "'r after \<Rightarrow> 'r wpc" where
  "after_unlock (Got r) = WRun r"
| "after_unlock Quit = WExit"
| "after_unlock Again = WScan 0 SOwn"

inductive pop_step ::
  "nat \<Rightarrow> 'r queue \<times> worker_context \<times> 'r wpc \<Rightarrow> 'r queue \<times> worker_context \<times> 'r wpc \<Rightarrow> bool"
  for i where
  start:
    "register_worker i q = Some (q', c') \<Longrightarrow> pop_step i (q, c, WStart) (q', c', WScan 0 SOwn)"
| cheap_scan:
    "steal_laws stl \<Longrightarrow> scan_finished (q, c, pc) = None \<Longrightarrow>
     scan_step stl Cheap q c pc = (q', c', pc') \<Longrightarrow>
     pop_step i (q, c, WScan k pc) (q', c', WScan k pc')"
| cheap_found:
    "pop_step i (q, c, WScan k (SDone (Some r))) (q, c, WRun r)"
| cheap_spin:
    "k < SPIN_ROUNDS \<Longrightarrow>
     pop_step i (q, c, WScan k (SDone None)) (q, c, WScan (Suc k) SOwn)"
| cheap_give_up:
    "\<not> k < SPIN_ROUNDS \<Longrightarrow> pop_step i (q, c, WScan k (SDone None)) (q, c, WLock)"
| pop_lock:
    "park q = None \<Longrightarrow> pop_step i (q, c, WLock) (q\<lparr>park := Some (Wrk i)\<rparr>, c, WArm)"
| arm:
    "pop_step i (q, c, WArm) (q\<lparr>parked := parked q + 1\<rparr>, c, WRescan SOwn)"
| strict_scan:
    "steal_laws stl \<Longrightarrow> scan_finished (q, c, pc) = None \<Longrightarrow>
     scan_step stl Strict q c pc = (q', c', pc') \<Longrightarrow>
     pop_step i (q, c, WRescan pc) (q', c', WRescan pc')"
| strict_found:
    "pop_step i (q, c, WRescan (SDone (Some r))) (q, c, WAdjust (Got r))"
| strict_nothing:
    "pop_step i (q, c, WRescan (SDone None)) (q, c, WCheck)"
| check_shutdown:
    "shutdown_flag q \<Longrightarrow> pop_step i (q, c, WCheck) (q, c, WAdjust Quit)"
| check_running:
    "\<not> shutdown_flag q \<Longrightarrow> pop_step i (q, c, WCheck) (q, c, WSleep)"
| wait:
    "pop_step i (q, c, WSleep) (q\<lparr>park := None, waiters := insert i (waiters q)\<rparr>, c, WWait)"
| wake:
    "i \<notin> waiters q \<Longrightarrow> park q = None \<Longrightarrow>
     pop_step i (q, c, WWait) (q\<lparr>park := Some (Wrk i)\<rparr>, c, WAdjust Again)"
| adjust:
    "pop_step i (q, c, WAdjust a)
       (if 0 < notified q then q\<lparr>notified := notified q - 1\<rparr> else q, c, WDisarm a)"
| disarm:
    "pop_step i (q, c, WDisarm a) (q\<lparr>parked := parked q - 1\<rparr>, c, WUnlock a)"
| pop_unlock:
    "pop_step i (q, c, WUnlock a) (q\<lparr>park := None\<rparr>, c, after_unlock a)"

section \<open>Shutdown\<close>

datatype closer_pc = CIdle | CLock | CNotify | CUnlock | CDone

inductive shutdown_step :: "'r queue \<times> closer_pc \<Rightarrow> 'r queue \<times> closer_pc \<Rightarrow> bool" where
  store_flag: "shutdown_step (q, CIdle) (q\<lparr>shutdown_flag := True\<rparr>, CLock)"
| close_lock: "park q = None \<Longrightarrow> shutdown_step (q, CLock) (q\<lparr>park := Some Closer\<rparr>, CNotify)"
| notify_all: "shutdown_step (q, CNotify) (q\<lparr>waiters := {}\<rparr>, CUnlock)"
| close_unlock: "shutdown_step (q, CUnlock) (q\<lparr>park := None\<rparr>, CDone)"

section \<open>The whole system\<close>

text \<open>
  All threads around one queue. Worker \<open>i\<close> is a thread for \<open>i\<close> below the number of slots.
  Producers are numbered; a producer that is not in a push is at \<open>HDone\<close>. \<open>hashes\<close> are
  the hashes of the producers' thread ids. The last three fields only record history: the
  runnables pushed, those a worker has run to the end, and the number of worker threads that
  unwound.
\<close>

record 'r sys =
  que :: "'r queue"
  ctxs :: "nat \<Rightarrow> worker_context"
  wpcs :: "nat \<Rightarrow> 'r wpc"
  ppcs :: "nat \<Rightarrow> hand_pc"
  routes :: "nat \<Rightarrow> producer_route option"
  hashes :: "nat \<Rightarrow> usize"
  cpc :: closer_pc
  pushed :: "'r multiset"
  ran :: "'r multiset"
  crashes :: nat

definition num_workers :: "'r sys \<Rightarrow> nat" where
  "num_workers s = length (stealers (que s))"

definition QID :: nat where
  "QID = 0"

text \<open>
  One rule per way a thread moves. A worker that unwinds out of \<open>run\<close> is replaced by its
  sentry: the new thread starts with the same index. A push by a worker of this queue and
  one by any other thread (its \<open>CURRENT_WORKER\<close> is empty or names another queue) differ in
  where the runnable goes; the handshake that follows is the same. A producer's route cell is
  shared by all pools, so pushes into other pools change it too.
\<close>

inductive sys_step :: "'r sys \<Rightarrow> 'r sys \<Rightarrow> bool" where
  worker_pop:
    "i < num_workers s \<Longrightarrow> pop_step i (que s, ctxs s i, wpcs s i) (q', c', pc') \<Longrightarrow>
     sys_step s (s\<lparr>que := q', ctxs := (ctxs s)(i := c'), wpcs := (wpcs s)(i := pc')\<rparr>)"
| worker_finish:
    "i < num_workers s \<Longrightarrow> wpcs s i = WRun r \<Longrightarrow>
     sys_step s (s\<lparr>wpcs := (wpcs s)(i := WScan 0 SOwn), ran := add_mset r (ran s)\<rparr>)"
| worker_unwind:
    "i < num_workers s \<Longrightarrow> wpcs s i = WRun r \<Longrightarrow>
     sys_step s (s\<lparr>wpcs := (wpcs s)(i := WStart), ran := add_mset r (ran s),
                  crashes := Suc (crashes s)\<rparr>)"
| self_push:
    "i < num_workers s \<Longrightarrow> wpcs s i = WRun r \<Longrightarrow>
     push_dest QID (enter_worker_scope QID (ctxs s i)) (shard_mask (que s)) hash cell
       = (d, cell') \<Longrightarrow>
     sys_step s (s\<lparr>que := enqueue d x (que s), wpcs := (wpcs s)(i := WPush r HLoadParked),
                  pushed := add_mset x (pushed s)\<rparr>)"
| self_hand:
    "i < num_workers s \<Longrightarrow> wpcs s i = WPush r h \<Longrightarrow> hand_step (Wrk i) (que s, h) (q', h') \<Longrightarrow>
     sys_step s (s\<lparr>que := q', wpcs := (wpcs s)(i := WPush r h')\<rparr>)"
| self_return:
    "i < num_workers s \<Longrightarrow> wpcs s i = WPush r HDone \<Longrightarrow>
     sys_step s (s\<lparr>wpcs := (wpcs s)(i := WRun r)\<rparr>)"
| foreign_push:
    "ppcs s p = HDone \<Longrightarrow> (\<forall>h. handle = Some h \<longrightarrow> handle_queue h \<noteq> QID) \<Longrightarrow>
     push_dest QID handle (shard_mask (que s)) (hashes s p) (routes s p) = (d, cell') \<Longrightarrow>
     sys_step s (s\<lparr>que := enqueue d x (que s), ppcs := (ppcs s)(p := HLoadParked),
                  routes := (routes s)(p := cell'), pushed := add_mset x (pushed s)\<rparr>)"
| push_elsewhere:
    "route_shard (hashes s p) msk (routes s p) = (target, cell') \<Longrightarrow>
     sys_step s (s\<lparr>routes := (routes s)(p := cell')\<rparr>)"
| foreign_hand:
    "hand_step (Prod p) (que s, ppcs s p) (q', h') \<Longrightarrow>
     sys_step s (s\<lparr>que := q', ppcs := (ppcs s)(p := h')\<rparr>)"
| closing:
    "shutdown_step (que s, cpc s) (q', k') \<Longrightarrow> sys_step s (s\<lparr>que := q', cpc := k'\<rparr>)"

text \<open>A pool of \<open>1..512\<close> workers before its threads have run, nothing pushed yet.\<close>

definition sys_init :: "'r sys \<Rightarrow> bool" where
  "sys_init s \<longleftrightarrow> (\<exists>nw ov. 1 \<le> nw \<and> nw \<le> 512 \<and> queue_new nw ov = Some (que s))
     \<and> (\<forall>i. wpcs s i = WStart) \<and> (\<forall>p. ppcs s p = HDone) \<and> (\<forall>p. routes s p = None)
     \<and> cpc s = CIdle \<and> pushed s = {#} \<and> ran s = {#} \<and> crashes s = 0"

text \<open>
  A step after which no thread outside the pool is in a push: what happens once the pool is
  being dropped, when nobody is left who could call \<open>spawn\<close> on it.
\<close>

definition quiet_step :: "'r sys \<Rightarrow> 'r sys \<Rightarrow> bool" where
  "quiet_step s s' \<longleftrightarrow> sys_step s s' \<and> (\<forall>p. ppcs s' p = HDone)"

inductive_cases hand_stepE: "hand_step t (q, h) (q', h')"
inductive_cases pop_stepE: "pop_step i (q, c, pc) (q', c', pc')"
inductive_cases shutdown_stepE: "shutdown_step (q, k) (q', k')"

text \<open>The program counters at which a thread has no step of its own.\<close>

inductive_simps hand_step_done: "hand_step t (q, HDone) y"
inductive_simps pop_step_run: "pop_step i (q, c, WRun r) y"
inductive_simps pop_step_push: "pop_step i (q, c, WPush r h) y"
inductive_simps pop_step_exit: "pop_step i (q, c, WExit) y"
inductive_simps shutdown_step_done: "shutdown_step (q, CDone) y"

lemmas no_step_at = hand_step_done pop_step_run pop_step_push pop_step_exit shutdown_step_done

end
