(* ===== verification/Locks.thy ===== *)
theory Locks
  imports Handshake
begin

text \<open>
  Mutual exclusion on \<open>park\<close>. The locale states what a thread owes a lock: a step belongs
  to one thread, and it takes a free lock, gives it back, or leaves both the lock and its own
  critical section alone. Mutual exclusion follows for any such system; the steps of
  \<open>push\<close>, \<open>pop_blocking\<close> and \<open>shutdown\<close> are shown to be one.
\<close>

section \<open>The contract of a lock\<close>

definition lock_move ::
  "('s \<Rightarrow> 't option) \<Rightarrow> ('s \<Rightarrow> 't \<Rightarrow> bool) \<Rightarrow> 't \<Rightarrow> 's \<Rightarrow> 's \<Rightarrow> bool" where
  "lock_move holder critical t s s' \<longleftrightarrow>
     (\<forall>u. u \<noteq> t \<longrightarrow> critical s' u = critical s u)
     \<and> ((holder s' = holder s \<and> critical s' t = critical s t)
       \<or> (holder s = None \<and> holder s' = Some t \<and> \<not> critical s t \<and> critical s' t)
       \<or> (critical s t \<and> \<not> critical s' t \<and> holder s' = None))"

locale lock_protocol =
  fixes ini :: "'s \<Rightarrow> bool"
    and stp :: "'s \<Rightarrow> 's \<Rightarrow> bool"
    and holder :: "'s \<Rightarrow> 't option"
    and critical :: "'s \<Rightarrow> 't \<Rightarrow> bool"
  assumes starts_free: "ini s \<Longrightarrow> holder s = None \<and> (\<forall>t. \<not> critical s t)"
    and disciplined: "stp s s' \<Longrightarrow> \<exists>t. lock_move holder critical t s s'"
begin

definition exact :: "'s \<Rightarrow> bool" where
  "exact s \<longleftrightarrow> (\<forall>t. holder s = Some t \<longleftrightarrow> critical s t)"

lemma exact_init: "ini s \<Longrightarrow> exact s"
  using starts_free by (auto simp: exact_def)

lemma exact_step:
  assumes "exact s" and "stp s s'"
  shows "exact s'"
proof -
  from disciplined [OF assms(2)] obtain t where t: "lock_move holder critical t s s'" by blast
  have "holder s' = Some u \<longleftrightarrow> critical s' u" for u
    using t assms(1) unfolding lock_move_def exact_def by (cases "u = t") (metis option.inject option.distinct(1))+
  then show ?thesis by (simp add: exact_def)
qed

lemma exact_reachable: "reachable_from ini stp s \<Longrightarrow> exact s"
  by (induction rule: reachable_from.induct) (auto intro: exact_init exact_step)

lemma exclusion: "exact s \<Longrightarrow> critical s t \<Longrightarrow> critical s u \<Longrightarrow> t = u"
  unfolding exact_def by (metis option.inject)

end

section \<open>Who holds the mutex\<close>

fun hand_holds :: "hand_pc \<Rightarrow> bool" where
  "hand_holds HRecheck = True"
| "hand_holds HNotify = True"
| "hand_holds HUnlock = True"
| "hand_holds _ = False"

fun w_holds :: "'r wpc \<Rightarrow> bool" where
  "w_holds WArm = True"
| "w_holds (WRescan pc) = True"
| "w_holds WCheck = True"
| "w_holds WSleep = True"
| "w_holds (WAdjust a) = True"
| "w_holds (WDisarm a) = True"
| "w_holds (WUnlock a) = True"
| "w_holds (WPush r h) = hand_holds h"
| "w_holds _ = False"

fun closer_holds :: "closer_pc \<Rightarrow> bool" where
  "closer_holds CNotify = True"
| "closer_holds CUnlock = True"
| "closer_holds _ = False"

fun in_critical :: "'r sys \<Rightarrow> tid \<Rightarrow> bool" where
  "in_critical s (Wrk i) \<longleftrightarrow> i < num_workers s \<and> w_holds (wpcs s i)"
| "in_critical s (Prod p) \<longleftrightarrow> hand_holds (ppcs s p)"
| "in_critical s Closer \<longleftrightarrow> closer_holds (cpc s)"

text \<open>How one thread's own step treats the lock.\<close>

definition takes_or_gives :: "tid \<Rightarrow> 'r queue \<Rightarrow> bool \<Rightarrow> 'r queue \<Rightarrow> bool \<Rightarrow> bool" where
  "takes_or_gives t q h q' h' \<longleftrightarrow>
     (park q' = park q \<and> h' = h) \<or> (park q = None \<and> park q' = Some t \<and> \<not> h \<and> h')
     \<or> (h \<and> \<not> h' \<and> park q' = None)"

lemma register_frame:
  assumes "register_worker i q = Some (q', c)"
  shows "park q' = park q" "waiters q' = waiters q" "parked q' = parked q"
    "notified q' = notified q" "shutdown_flag q' = shutdown_flag q"
    "injectors q' = injectors q" "shard_mask q' = shard_mask q"
    "length (stealers q') = length (stealers q)"
  using assms by (auto simp: register_worker_def Let_def split: if_splits)

lemma same_shape_frame:
  assumes "same_shape q q'"
  shows "park q' = park q" "waiters q' = waiters q" "parked q' = parked q"
    "notified q' = notified q" "shutdown_flag q' = shutdown_flag q" "stealers q' = stealers q"
    "shard_mask q' = shard_mask q" "next_addr q' = next_addr q"
    "length (injectors q') = length (injectors q)"
  using assms by (auto simp: same_shape_def)

lemmas scan_frame = same_shape_frame [OF scan_step_shape(1)]

lemma after_unlock_holds [simp]: "\<not> w_holds (after_unlock a)"
  by (cases a) auto

lemma pop_step_lock:
  "pop_step i (q, c, pc) (q', c', pc') \<Longrightarrow> takes_or_gives (Wrk i) q (w_holds pc) q' (w_holds pc')"
  by (erule pop_stepE)
    (auto simp: takes_or_gives_def register_frame dest: scan_frame(1) split: if_splits)

lemma hand_step_lock:
  "hand_step t (q, h) (q', h') \<Longrightarrow> takes_or_gives t q (hand_holds h) q' (hand_holds h')"
  by (erule hand_stepE) (auto simp: takes_or_gives_def)

lemma shutdown_step_lock:
  "shutdown_step (q, k) (q', k') \<Longrightarrow> takes_or_gives Closer q (closer_holds k) q' (closer_holds k')"
  by (erule shutdown_stepE) (auto simp: takes_or_gives_def)

text \<open>The table of slots never changes its size.\<close>

lemma pop_step_slots:
  "pop_step i (q, c, pc) (q', c', pc') \<Longrightarrow> length (stealers q') = length (stealers q)"
  by (erule pop_stepE) (auto simp: register_frame dest: scan_frame(6) split: if_splits)

lemma hand_step_frame:
  assumes "hand_step t (q, h) (q', h')"
  shows "injectors q' = injectors q" "stealers q' = stealers q" "shard_mask q' = shard_mask q"
    "parked q' = parked q" "shutdown_flag q' = shutdown_flag q" "deques q' = deques q"
    "next_addr q' = next_addr q" "waiters q' \<subseteq> waiters q"
  using assms by (auto elim!: hand_stepE)

lemma shutdown_step_frame:
  assumes "shutdown_step (q, k) (q', k')"
  shows "injectors q' = injectors q" "stealers q' = stealers q" "shard_mask q' = shard_mask q"
    "parked q' = parked q" "notified q' = notified q" "deques q' = deques q"
    "next_addr q' = next_addr q" "waiters q' \<subseteq> waiters q"
  using assms by (auto elim!: shutdown_stepE)

lemma sys_step_workers: "sys_step s s' \<Longrightarrow> num_workers s' = num_workers s"
  by (erule sys_step.cases)
    (auto simp: num_workers_def hand_step_frame shutdown_step_frame dest: pop_step_slots)

lemma lock_moveI:
  assumes "\<And>u. u \<noteq> t \<Longrightarrow> in_critical s' u = in_critical s u"
    and "takes_or_gives t (que s) (in_critical s t) (que s') (in_critical s' t)"
  shows "lock_move (\<lambda>s. park (que s)) in_critical t s s'"
  using assms unfolding lock_move_def takes_or_gives_def by metis

lemma sys_step_lock_move:
  assumes "sys_step s s'"
  shows "\<exists>t. lock_move (\<lambda>s. park (que s)) in_critical t s s'"
proof -
  have n: "num_workers s' = num_workers s" by (rule sys_step_workers [OF assms])
  have worker: ?thesis
    if "i < num_workers s" "wpcs s' = (wpcs s)(i := pc')" "ppcs s' = ppcs s" "cpc s' = cpc s"
      "takes_or_gives (Wrk i) (que s) (w_holds (wpcs s i)) (que s') (w_holds pc')" for i pc'
  proof (intro exI [of _ "Wrk i"] lock_moveI)
    show "in_critical s' u = in_critical s u" if "u \<noteq> Wrk i" for u
      using that \<open>wpcs s' = _\<close> \<open>ppcs s' = _\<close> \<open>cpc s' = _\<close> n by (cases u) simp_all
  qed (use that n in simp)
  have producer: ?thesis
    if "wpcs s' = wpcs s" "ppcs s' = (ppcs s)(p := h')" "cpc s' = cpc s"
      "takes_or_gives (Prod p) (que s) (hand_holds (ppcs s p)) (que s') (hand_holds h')" for p h'
  proof (intro exI [of _ "Prod p"] lock_moveI)
    show "in_critical s' u = in_critical s u" if "u \<noteq> Prod p" for u
      using that \<open>wpcs s' = _\<close> \<open>ppcs s' = _\<close> \<open>cpc s' = _\<close> n by (cases u) simp_all
  qed (use that n in simp)
  show ?thesis
    using assms
  proof cases
    case (worker_pop i q' c' pc')
    then show ?thesis by (intro worker [of i pc']) (auto dest: pop_step_lock)
  next
    case (worker_finish i r)
    then show ?thesis by (intro worker [of i]) (auto simp: takes_or_gives_def)
  next
    case (worker_unwind i r)
    then show ?thesis by (intro worker [of i]) (auto simp: takes_or_gives_def)
  next
    case (self_push i r hash cell d cell' x)
    then show ?thesis by (intro worker [of i]) (auto simp: takes_or_gives_def)
  next
    case (self_hand i r h q' h')
    then show ?thesis by (intro worker [of i]) (auto dest: hand_step_lock)
  next
    case (self_return i r)
    then show ?thesis by (intro worker [of i]) (auto simp: takes_or_gives_def)
  next
    case (foreign_push p handle d cell' x)
    then show ?thesis by (intro producer [of p]) (auto simp: takes_or_gives_def)
  next
    case (push_elsewhere p msk target cell')
    then show ?thesis by (intro producer [of p "ppcs s p"]) (auto simp: takes_or_gives_def)
  next
    case (foreign_hand p q' h')
    then show ?thesis by (intro producer [of p]) (auto dest: hand_step_lock)
  next
    case (closing q' k')
    show ?thesis
    proof (intro exI [of _ Closer] lock_moveI)
      show "in_critical s' u = in_critical s u" if "u \<noteq> Closer" for u
        using that closing(1) n by (cases u) simp_all
    qed (use closing shutdown_step_lock in simp)
  qed
qed

lemma sys_init_free:
  assumes "sys_init s"
  shows "park (que s) = None \<and> (\<forall>t. \<not> in_critical s t)"
proof -
  from assms have "park (que s) = None"
    by (auto simp: sys_init_def queue_new_fields)
  moreover have "\<not> in_critical s t" for t
    using assms by (cases t) (auto simp: sys_init_def)
  ultimately show ?thesis by blast
qed

interpretation park_lock: lock_protocol sys_init sys_step "\<lambda>s. park (que s)" in_critical
  by unfold_locales (auto simp: sys_init_free intro: sys_step_lock_move)

abbreviation reachable :: "'r sys \<Rightarrow> bool" where
  "reachable \<equiv> reachable_from sys_init sys_step"

end
