(* ===== verification/Sample_Run.thy ===== *)
theory Sample_Run
  imports Locks
begin

text \<open>
  A concrete run of the system, on which the properties of the later theories are exercised:
  a pool with one worker starts, finds nothing in seven cheap scans and the armed scan, and
  falls asleep; then a producer pushes a runnable and goes through the handshake.
\<close>

definition lone_queue :: "nat queue" where
  "lone_queue = \<lparr>injectors = [[]], stealers = [None], shard_mask = 0, park = None,
     waiters = {}, parked = 0, notified = 0, shutdown_flag = False, deques = (\<lambda>_. []),
     next_addr = 0\<rparr>"

text \<open>The same queue once worker 0 has registered.\<close>

definition lone_started :: "nat queue" where
  "lone_started = lone_queue\<lparr>stealers := [Some 0], next_addr := 1\<rparr>"

definition lone_context :: worker_context where
  "lone_context = \<lparr>ctx_idx = 0, ctx_deque = 0, ctx_rng = rng_seed 0\<rparr>"

definition lone :: "nat queue \<Rightarrow> nat wpc \<Rightarrow> hand_pc \<Rightarrow> closer_pc \<Rightarrow> nat multiset \<Rightarrow> nat sys" where
  "lone q pc h k ps = \<lparr>que = q, ctxs = (\<lambda>_. lone_context), wpcs = (\<lambda>_. WStart)(0 := pc),
     ppcs = (\<lambda>_. HDone)(0 := h), routes = (\<lambda>_. None), hashes = (\<lambda>_. 0), cpc = k,
     pushed = ps, ran = {#}, crashes = 0\<rparr>"

lemma lone_init: "sys_init (lone lone_queue WStart HDone CIdle {#})"
proof -
  have "num_shards 1 None = Some 1"
    by (simp add: num_shards_def next_power_of_two_def power_from.simps clamp_def MAX_SHARDS_def)
  then have "queue_new 1 None = Some lone_queue"
    by (simp add: queue_new_def lone_queue_def)
  then show ?thesis
    unfolding sys_init_def by (intro conjI exI [of _ 1] exI [of _ None]) (auto simp: lone_def)
qed

text \<open>Runs of the lone pool in which no producer takes part.\<close>

abbreviation lone_run :: "nat sys \<Rightarrow> bool" where
  "lone_run \<equiv> quiet_step\<^sup>*\<^sup>* (lone lone_queue WStart HDone CIdle {#})"

lemma reachable_quiet: "quiet_step\<^sup>*\<^sup>* s s' \<Longrightarrow> reachable s \<Longrightarrow> reachable s'"
  by (induction rule: rtranclp_induct) (auto simp: quiet_step_def intro: reach_step)

lemma lone_run_reachable: "lone_run s \<Longrightarrow> reachable s"
  by (erule reachable_quiet) (rule reach_init, rule lone_init)

lemma lone_worker:
  assumes "lone_run (lone q pc HDone k ps)"
    and "pop_step 0 (q, lone_context, pc) (q', lone_context, pc')" and "length (stealers q) = 1"
  shows "lone_run (lone q' pc' HDone k ps)"
proof -
  have "sys_step (lone q pc HDone k ps)
      ((lone q pc HDone k ps)\<lparr>que := q', ctxs := (ctxs (lone q pc HDone k ps))(0 := lone_context),
        wpcs := (wpcs (lone q pc HDone k ps))(0 := pc')\<rparr>)"
    by (rule worker_pop) (use assms in \<open>simp_all add: lone_def num_workers_def\<close>)
  then have "quiet_step (lone q pc HDone k ps) (lone q' pc' HDone k ps)"
    by (simp add: quiet_step_def lone_def fun_upd_idem)
  with assms(1) show ?thesis by (rule rtranclp.rtrancl_into_rtrancl)
qed

lemma lone_closer:
  assumes "lone_run (lone q pc HDone k ps)" and "shutdown_step (q, k) (q', k')"
  shows "lone_run (lone q' pc HDone k' ps)"
proof -
  have "sys_step (lone q pc HDone k ps) ((lone q pc HDone k ps)\<lparr>que := q', cpc := k'\<rparr>)"
    by (rule closing) (use assms in \<open>simp add: lone_def\<close>)
  then have "quiet_step (lone q pc HDone k ps) (lone q' pc HDone k' ps)"
    by (simp add: quiet_step_def lone_def)
  with assms(1) show ?thesis by (rule rtranclp.rtrancl_into_rtrancl)
qed

lemma lone_producer:
  assumes "reachable (lone q pc h k ps)" and "hand_step (Prod 0) (q, h) (q', h')"
  shows "reachable (lone q' pc h' k ps)"
proof -
  have "sys_step (lone q pc h k ps)
      ((lone q pc h k ps)\<lparr>que := q', ppcs := (ppcs (lone q pc h k ps))(0 := h')\<rparr>)"
    by (rule foreign_hand) (use assms in \<open>simp add: lone_def\<close>)
  from reach_step [OF assms(1) this] show ?thesis by (simp add: lone_def fun_upd_idem)
qed

text \<open>An empty pass of the lone worker: own deque, preferred injector, no others, no peers.\<close>

definition lone_empty :: "nat queue \<Rightarrow> bool" where
  "lone_empty q \<longleftrightarrow> injectors q = [[]] \<and> length (stealers q) = 1 \<and> shard_mask q = 0 \<and> deques q 0 = []"

lemma lone_scan_steps:
  assumes "lone_empty q"
  shows "scan_step steal_one p q lone_context SOwn = (q, lone_context, SPref)"
    and "scan_step steal_one p q lone_context SPref = (q, lone_context, SShards False [])"
    and "scan_step steal_one p q lone_context (SShards False []) = (q, lone_context, SPeers False [])"
    and "scan_step steal_one p q lone_context (SPeers False []) = (q, lone_context, SDone None)"
proof -
  have "q\<lparr>injectors := [[]], deques := (deques q)(0 := [])\<rparr> = q"
    using assms by (simp add: lone_empty_def fun_upd_idem)
  with assms show "scan_step steal_one p q lone_context SOwn = (q, lone_context, SPref)"
    "scan_step steal_one p q lone_context SPref = (q, lone_context, SShards False [])"
    "scan_step steal_one p q lone_context (SShards False []) = (q, lone_context, SPeers False [])"
    "scan_step steal_one p q lone_context (SPeers False []) = (q, lone_context, SDone None)"
    by (simp_all add: lone_empty_def lone_context_def steal_injector_def my_shard_def
        enter_shards_def enter_peers_def)
qed

lemma steal_one_laws: "steal_laws steal_one"
  unfolding steal_laws_def
proof (intro allI)
  fix v own :: "'r list"
  show "case steal_one v own of
        (Success r, v', own') \<Rightarrow> own = [] \<longrightarrow> v = r # own' @ v'
      | (Empty, v', own') \<Rightarrow> v = [] \<and> v' = [] \<and> own' = own
      | (Retry, v', own') \<Rightarrow> v' = v \<and> own' = own"
    by (cases v) auto
qed

lemma lone_pass:
  assumes empty: "lone_empty q" and "lone_run (lone q (W SOwn) HDone k ps)"
    and one: "\<And>pc pc'. scan_finished (q, lone_context, pc) = None \<Longrightarrow>
      scan_step steal_one p q lone_context pc = (q, lone_context, pc') \<Longrightarrow>
      pop_step 0 (q, lone_context, W pc) (q, lone_context, W pc')"
  shows "lone_run (lone q (W (SDone None)) HDone k ps)"
proof -
  have len: "length (stealers q) = 1" using empty by (simp add: lone_empty_def)
  note steps = lone_scan_steps [OF empty]
  note run = lone_worker [OF _ one [OF _ steps(1)] len] lone_worker [OF _ one [OF _ steps(2)] len]
    lone_worker [OF _ one [OF _ steps(3)] len] lone_worker [OF _ one [OF _ steps(4)] len]
  show ?thesis
    by (rule run(4), rule run(3), rule run(2), rule run(1), rule assms(2)) simp_all
qed

lemma lone_cheap:
  assumes "lone_empty q" and "lone_run (lone q (WScan 0 SOwn) HDone k ps)"
  shows "n \<le> SPIN_ROUNDS \<Longrightarrow> lone_run (lone q (WScan n (SDone None)) HDone k ps)"
proof (induction n)
  case 0
  show ?case
    by (rule lone_pass [where W = "WScan 0", OF assms]) (rule cheap_scan [OF steal_one_laws])
next
  case (Suc n)
  have len: "length (stealers q) = 1" using assms(1) by (simp add: lone_empty_def)
  have "lone_run (lone q (WScan (Suc n) SOwn) HDone k ps)"
    by (rule lone_worker [OF Suc.IH cheap_spin len]) (use Suc.prems in simp_all)
  then show ?case
    by (rule lone_pass [where W = "WScan (Suc n)", OF assms(1)]) (rule cheap_scan [OF steal_one_laws])
qed

text \<open>The worker asleep, and the producer at its \<open>notify_one\<close>.\<close>

definition lone_asleep :: "nat queue" where
  "lone_asleep = lone_started\<lparr>waiters := {0}, parked := 1\<rparr>"

definition lone_notified :: "nat queue" where
  "lone_notified = lone_asleep\<lparr>injectors := [[7]], park := Some (Prod 0), notified := 1\<rparr>"

lemma lone_started_run: "lone_run (lone lone_started (WScan 0 SOwn) HDone CIdle {#})"
proof -
  have "register_worker 0 lone_queue = Some (lone_started, lone_context)"
    by (simp add: register_worker_def lone_queue_def lone_started_def lone_context_def fun_upd_idem)
  then have step: "pop_step 0 (lone_queue, lone_context, WStart)
      (lone_started, lone_context, WScan 0 SOwn)"
    by (rule start)
  have "lone_run (lone lone_queue WStart HDone CIdle {#})" by (rule rtranclp.rtrancl_refl)
  from lone_worker [OF this step] show ?thesis by (simp add: lone_queue_def)
qed

lemma lone_to_check:
  assumes "lone_run (lone q (WScan 0 SOwn) HDone k ps)" and "lone_empty q" and "park q = None"
  shows "lone_run (lone (q\<lparr>park := Some (Wrk 0), parked := parked q + 1\<rparr>) WCheck HDone k ps)"
proof -
  let ?q = "q\<lparr>park := Some (Wrk 0), parked := parked q + 1\<rparr>"
  have one: "length (stealers q) = 1" "length (stealers ?q) = 1" "lone_empty ?q"
    using assms(2) by (simp_all add: lone_empty_def)
  have "lone_run (lone q (WScan SPIN_ROUNDS (SDone None)) HDone k ps)"
    by (rule lone_cheap [OF assms(2,1) order_refl])
  then have "lone_run (lone q WLock HDone k ps)"
    by (rule lone_worker) (rule cheap_give_up, simp, rule one(1))
  then have "lone_run (lone (q\<lparr>park := Some (Wrk 0)\<rparr>) WArm HDone k ps)"
    by (rule lone_worker) (rule pop_lock, rule assms(3), rule one(1))
  then have "lone_run (lone ?q (WRescan SOwn) HDone k ps)"
    using lone_worker [OF _ arm, of "q\<lparr>park := Some (Wrk 0)\<rparr>"] one(1) by simp
  then have "lone_run (lone ?q (WRescan (SDone None)) HDone k ps)"
    by (rule lone_pass [where W = WRescan, OF one(3)]) (rule strict_scan [OF steal_one_laws])
  then show ?thesis
    by (rule lone_worker) (rule strict_nothing, rule one(2))
qed

lemma lone_asleep_run: "lone_run (lone lone_asleep WWait HDone CIdle {#})"
proof -
  let ?q = "lone_started\<lparr>park := Some (Wrk 0), parked := parked lone_started + 1\<rparr>"
  have q: "lone_empty lone_started" "park lone_started = None" "length (stealers ?q) = 1"
    "\<not> shutdown_flag ?q"
    by (simp_all add: lone_empty_def lone_started_def lone_queue_def)
  have "lone_run (lone ?q WCheck HDone CIdle {#})"
    by (rule lone_to_check [OF lone_started_run q(1,2)])
  then have "lone_run (lone ?q WSleep HDone CIdle {#})"
    by (rule lone_worker) (rule check_running, rule q(4), rule q(3))
  then show ?thesis
    using lone_worker [OF _ wait, of ?q] q(3)
    by (simp add: lone_asleep_def lone_started_def lone_queue_def)
qed

text \<open>The pool is shut down before its worker has started; the worker then leaves.\<close>

definition lone_closed :: "nat queue" where
  "lone_closed = lone_started\<lparr>shutdown_flag := True\<rparr>"

lemma lone_exited_run: "lone_run (lone lone_closed WExit HDone CDone {#})"
proof -
  let ?f = "lone_queue\<lparr>shutdown_flag := True\<rparr>"
  let ?q = "lone_closed\<lparr>park := Some (Wrk 0), parked := parked lone_closed + 1\<rparr>"
  have f: "park ?f = None" "?f\<lparr>park := Some Closer, waiters := {}, park := None\<rparr> = ?f"
    "length (stealers ?f) = 1"
    by (simp_all add: lone_queue_def)
  have q: "lone_empty lone_closed" "park lone_closed = None" "length (stealers ?q) = 1"
    "shutdown_flag ?q" "\<not> 0 < notified ?q" "?q\<lparr>parked := parked ?q - 1, park := None\<rparr> = lone_closed"
    by (simp_all add: lone_empty_def lone_closed_def lone_started_def lone_queue_def)
  have "lone_run (lone lone_queue WStart HDone CIdle {#})" by (rule rtranclp.rtrancl_refl)
  then have "lone_run (lone ?f WStart HDone CLock {#})"
    by (rule lone_closer) (rule store_flag)
  then have "lone_run (lone (?f\<lparr>park := Some Closer\<rparr>) WStart HDone CNotify {#})"
    by (rule lone_closer) (rule close_lock, rule f(1))
  then have "lone_run (lone (?f\<lparr>park := Some Closer, waiters := {}\<rparr>) WStart HDone CUnlock {#})"
    using lone_closer [OF _ notify_all, of "?f\<lparr>park := Some Closer\<rparr>"] by simp
  then have "lone_run (lone ?f WStart HDone CDone {#})"
    using lone_closer [OF _ close_unlock, of "?f\<lparr>park := Some Closer, waiters := {}\<rparr>"] f(2) by simp
  moreover have "register_worker 0 ?f = Some (lone_closed, lone_context)"
    by (simp add: register_worker_def lone_queue_def lone_closed_def lone_started_def
        lone_context_def fun_upd_idem)
  ultimately have "lone_run (lone lone_closed (WScan 0 SOwn) HDone CDone {#})"
    using lone_worker [OF _ start] f(3) by blast
  then have "lone_run (lone ?q WCheck HDone CDone {#})"
    by (rule lone_to_check [OF _ q(1,2)])
  then have "lone_run (lone ?q (WAdjust Quit) HDone CDone {#})"
    by (rule lone_worker) (rule check_shutdown, rule q(4), rule q(3))
  then have "lone_run (lone ?q (WDisarm Quit) HDone CDone {#})"
    using lone_worker [OF _ adjust, of ?q] q(3,5) by simp
  then have "lone_run (lone (?q\<lparr>parked := parked ?q - 1\<rparr>) (WUnlock Quit) HDone CDone {#})"
    by (rule lone_worker) (rule disarm, rule q(3))
  then show ?thesis
    using lone_worker [OF _ pop_unlock, of "?q\<lparr>parked := parked ?q - 1\<rparr>" Quit CDone "{#}"] q(3,6)
    by simp
qed

text \<open>A producer pushes 7 into the sleeping pool and gets as far as \<open>notify_one\<close>.\<close>

lemma lone_push:
  assumes "reachable (lone q pc HDone k ps)" and "shard_mask q = 0"
  shows "reachable (lone (enqueue (Shard 0) x q) pc HLoadParked k (add_mset x ps))"
proof -
  have "sys_step (lone q pc HDone k ps)
      ((lone q pc HDone k ps)\<lparr>que := enqueue (Shard 0) x (que (lone q pc HDone k ps)),
        ppcs := (ppcs (lone q pc HDone k ps))(0 := HLoadParked),
        routes := (routes (lone q pc HDone k ps))(0 := None),
        pushed := add_mset x (pushed (lone q pc HDone k ps))\<rparr>)"
    by (rule foreign_push [where handle = None]) (use assms in \<open>simp_all add: lone_def push_dest_def\<close>)
  from reach_step [OF assms(1) this] show ?thesis by (simp add: lone_def fun_upd_idem)
qed

lemma lone_notified_reachable: "reachable (lone lone_notified WWait HNotify CIdle {#7#})"
proof -
  let ?q = "enqueue (Shard 0) 7 lone_asleep"
  have q: "?q = lone_asleep\<lparr>injectors := [[7]]\<rparr>" "parked ?q = 1" "notified ?q = 0" "park ?q = None"
    by (simp_all add: enqueue_def lone_asleep_def lone_started_def lone_queue_def)
  have "reachable (lone ?q WWait HLoadParked CIdle {#7#})"
    by (rule lone_push [OF lone_run_reachable [OF lone_asleep_run]])
      (simp add: lone_asleep_def lone_started_def lone_queue_def)
  then have "reachable (lone ?q WWait (HLoadNotified (parked ?q)) CIdle {#7#})"
    by (rule lone_producer) (rule load_parked)
  then have "reachable (lone ?q WWait HLock CIdle {#7#})"
    by (rule lone_producer) (rule load_notified_wake, simp add: lone_asleep_def lone_started_def lone_queue_def)
  then have "reachable (lone (?q\<lparr>park := Some (Prod 0)\<rparr>) WWait HRecheck CIdle {#7#})"
    by (rule lone_producer) (rule hand_lock, rule q(4))
  then show ?thesis
  proof (rule lone_producer)
    have "lone_notified = ?q\<lparr>park := Some (Prod 0),
        notified := notified (?q\<lparr>park := Some (Prod 0)\<rparr>) + 1\<rparr>"
      by (simp add: lone_notified_def q(1))
        (simp add: lone_asleep_def lone_started_def lone_queue_def)
    then show "hand_step (Prod 0) (?q\<lparr>park := Some (Prod 0)\<rparr>, HRecheck) (lone_notified, HNotify)"
      using recheck_wake [of "?q\<lparr>park := Some (Prod 0)\<rparr>" "Prod 0"]
      by (simp add: lone_asleep_def lone_started_def lone_queue_def)
  qed
qed

end
