(* ===== verification/Accounting.thy ===== *)
theory Accounting
  imports Sample_Run
begin

text \<open>
  What the two counters of the handshake mean. \<open>parked\<close> is exactly the number of workers
  between their \<open>fetch_add\<close> and their \<open>fetch_sub\<close>; \<open>notified\<close> never exceeds the
  wake-ups still on their way. Neither wraps around, although both are decremented.
\<close>

section \<open>Workers between arming and disarming\<close>

fun armed :: "'r wpc \<Rightarrow> bool" where
  "armed (WRescan pc) = True"
| "armed WCheck = True"
| "armed WSleep = True"
| "armed WWait = True"
| "armed (WAdjust a) = True"
| "armed (WDisarm a) = True"
| "armed _ = False"

text \<open>A worker that was signalled and has not yet accounted for it.\<close>

definition woken :: "'r queue \<Rightarrow> nat \<Rightarrow> 'r wpc \<Rightarrow> bool" where
  "woken q i pc \<longleftrightarrow> (pc = WWait \<and> i \<notin> waiters q) \<or> pc = WAdjust Again"

text \<open>The thread \<open>t\<close> is at \<open>h\<close> in the handshake of a push of its own.\<close>

fun at_hand :: "'r sys \<Rightarrow> tid \<Rightarrow> hand_pc \<Rightarrow> bool" where
  "at_hand s (Wrk i) h \<longleftrightarrow> i < num_workers s \<and> (\<exists>r. wpcs s i = WPush r h)"
| "at_hand s (Prod p) h \<longleftrightarrow> ppcs s p = h"
| "at_hand s Closer h \<longleftrightarrow> False"

definition notifying :: "'r sys \<Rightarrow> bool" where
  "notifying s \<longleftrightarrow> (\<exists>t. at_hand s t HNotify)"

abbreviation armed_count :: "'r sys \<Rightarrow> nat" where
  "armed_count s \<equiv> count_upto (num_workers s) (\<lambda>i. armed (wpcs s i))"

abbreviation woken_count :: "'r sys \<Rightarrow> nat" where
  "woken_count s \<equiv> count_upto (num_workers s) (\<lambda>i. woken (que s) i (wpcs s i))"

definition pool_size_ok :: "'r sys \<Rightarrow> bool" where
  "pool_size_ok s \<longleftrightarrow> wf_queue (que s) \<and> 1 \<le> num_workers s \<and> num_workers s \<le> 512"

definition waiters_wait :: "'r sys \<Rightarrow> bool" where
  "waiters_wait s \<longleftrightarrow> waiters (que s) \<subseteq> {i. i < num_workers s \<and> wpcs s i = WWait}"

definition parked_exact :: "'r sys \<Rightarrow> bool" where
  "parked_exact s \<longleftrightarrow> unat (parked (que s)) = armed_count s"

definition notified_bounded :: "'r sys \<Rightarrow> bool" where
  "notified_bounded s \<longleftrightarrow>
     unat (notified (que s)) \<le> woken_count s + of_bool (notifying s)
     \<and> (notifying s \<longrightarrow> 1 \<le> unat (notified (que s)) \<and> unat (notified (que s)) \<le> armed_count s)"

definition acct_inv :: "'r sys \<Rightarrow> bool" where
  "acct_inv s \<longleftrightarrow> park_lock.exact s \<and> pool_size_ok s \<and> waiters_wait s
     \<and> parked_exact s \<and> notified_bounded s"

section \<open>The counters in one step\<close>

lemma pop_step_wf: "pop_step i (q, c, pc) (q', c', pc') \<Longrightarrow> wf_queue q \<Longrightarrow> wf_queue q'"
  by (erule pop_stepE) (auto simp: wf_queue_def register_frame same_shape_def dest: scan_step_shape(1))

lemma after_unlock_not [simp]:
  "after_unlock a \<noteq> WWait" "after_unlock a \<noteq> WAdjust b" "after_unlock a \<noteq> WPush r h"
  "after_unlock a \<noteq> WStart" "after_unlock a \<noteq> WSleep" "after_unlock a \<noteq> WCheck"
  by (cases a; simp)+

lemma after_unlock_armed [simp]: "\<not> armed (after_unlock a)"
  by (cases a) auto

lemma after_unlock_woken [simp]: "\<not> woken q i (after_unlock a)"
  by (cases a) (auto simp: woken_def)

lemma pop_step_parked:
  "pop_step i (q, c, pc) (q', c', pc') \<Longrightarrow>
     parked q' + of_bool (armed pc) = parked q + of_bool (armed pc')"
  by (erule pop_stepE) (auto simp: register_frame dest: scan_frame(3) split: after.splits)

lemma counter_update:
  fixes x x' :: usize
  assumes "x' + of_bool b = x + of_bool b'" and "unat x = n" and "n' + of_bool b = n + of_bool b'"
    and "n' \<le> 512"
  shows "unat x' = n'"
proof -
  have "x = word_of_nat n" using assms(2) by auto
  then have "word_of_nat n' + (of_bool b :: usize) = x' + of_bool b"
    using assms(1) arg_cong [OF assms(3), of "word_of_nat :: nat \<Rightarrow> usize"] by simp
  then have "x' = word_of_nat n'" by simp
  with assms(4) show ?thesis by (simp add: unsigned_of_nat take_bit_nat_eq_self)
qed

lemma pred_counter:
  fixes x :: usize
  assumes "0 < x"
  shows "unat (x - 1) = unat x - 1"
  using assms by (simp add: unat_minus_one word_gt_0)

lemma pop_step_notified:
  "pop_step i (q, c, pc) (q', c', pc') \<Longrightarrow>
     (woken q' i pc' = woken q i pc \<and> unat (notified q') \<le> unat (notified q))
     \<or> (woken q i pc \<and> \<not> woken q' i pc' \<and> unat (notified q') = unat (notified q) - 1)"
  by (erule pop_stepE)
    (auto simp: woken_def register_frame pred_counter word_gt_0 dest: scan_frame(4))

lemma pop_step_others:
  "pop_step i (q, c, pc) (q', c', pc') \<Longrightarrow> j \<noteq> i \<Longrightarrow> woken q' j pcj = woken q j pcj"
  by (erule pop_stepE) (auto simp: woken_def register_frame dest: scan_frame(2))

lemma pop_step_unlocked:
  "pop_step i (q, c, pc) (q', c', pc') \<Longrightarrow> park q \<noteq> None \<Longrightarrow> \<not> w_holds pc \<Longrightarrow>
     notified q' = notified q \<and> armed pc' = armed pc"
  by (erule pop_stepE) (auto simp: register_frame dest: scan_frame(4))

lemma pop_step_waiters:
  "pop_step i (q, c, pc) (q', c', pc') \<Longrightarrow>
     waiters q' \<subseteq> insert i (waiters q)
     \<and> (i \<in> waiters q' \<longrightarrow> pc' = WWait \<or> pc \<noteq> WWait \<and> i \<in> waiters q)"
  by (erule pop_stepE) (auto simp: register_frame dest: scan_frame(2) split: if_splits)

lemma pop_step_no_push:
  "pop_step i (q, c, pc) (q', c', pc') \<Longrightarrow> pc \<noteq> WPush r h \<and> pc' \<noteq> WPush r h"
  by (erule pop_stepE) (auto elim: after_unlock.elims)

section \<open>The invariant over all threads\<close>

lemma count_upd:
  assumes "i < n" and "\<And>j. j < n \<Longrightarrow> j \<noteq> i \<Longrightarrow> Q j = P j"
  shows "count_upto n Q + of_bool (P i) = count_upto n P + of_bool (Q i)"
  by (rule count_upto_change) (use assms in auto)

text \<open>A step that leaves both counters, the waiters and the phases as they were.\<close>

lemma quiet_step:
  assumes "acct_inv s" and "park_lock.exact s'" and "pool_size_ok s'"
    and "num_workers s' = num_workers s"
    and "waiters (que s') = waiters (que s)" "parked (que s') = parked (que s)"
    and "notified (que s') = notified (que s)"
    and "\<And>i. i < num_workers s \<Longrightarrow> armed (wpcs s' i) = armed (wpcs s i)
           \<and> (wpcs s' i = WWait \<longleftrightarrow> wpcs s i = WWait)
           \<and> (wpcs s' i = WAdjust Again \<longleftrightarrow> wpcs s i = WAdjust Again)"
    and "\<And>t. at_hand s' t HNotify = at_hand s t HNotify"
  shows "acct_inv s'"
proof -
  have "armed_count s' = armed_count s" "woken_count s' = woken_count s"
    using assms(4,5,8) by (auto intro!: count_upto_cong simp: woken_def)
  moreover have "notifying s' = notifying s" using assms(9) by (simp add: notifying_def)
  moreover have "waiters_wait s'"
    using assms(1,4,5,8) by (auto simp: acct_inv_def waiters_wait_def)
  ultimately show ?thesis
    using assms by (simp add: acct_inv_def parked_exact_def notified_bounded_def)
qed

lemma lock_elsewhere:
  assumes "park_lock.exact s" and "in_critical s t" and "u \<noteq> t"
  shows "\<not> in_critical s u" and "park (que s) = Some t"
  using assms unfolding park_lock.exact_def by (metis option.inject)+

lemma at_hand_critical: "at_hand s t h \<Longrightarrow> hand_holds h \<Longrightarrow> in_critical s t"
  by (cases t) auto

section \<open>Worker steps\<close>

lemma acct_worker_pop:
  assumes inv: "acct_inv s" and i: "i < num_workers s"
    and step: "pop_step i (que s, ctxs s i, wpcs s i) (q', c', pc')"
    and s': "s' = s\<lparr>que := q', ctxs := (ctxs s)(i := c'), wpcs := (wpcs s)(i := pc')\<rparr>"
    and exact: "park_lock.exact s'"
  shows "acct_inv s'"
proof -
  have n: "num_workers s' = num_workers s"
    using pop_step_slots [OF step] by (simp add: s' num_workers_def)
  have pc': "wpcs s' i = pc'" "que s' = q'" "\<And>j. j \<noteq> i \<Longrightarrow> wpcs s' j = wpcs s j" by (simp_all add: s')
  have size: "pool_size_ok s'"
    using inv pop_step_wf [OF step] n by (simp add: acct_inv_def pool_size_ok_def pc')
  have armed: "armed_count s' + of_bool (armed (wpcs s i)) = armed_count s + of_bool (armed pc')"
    using count_upd [OF i, of "\<lambda>j. armed (wpcs s' j)" "\<lambda>j. armed (wpcs s j)"] by (simp add: n pc')
  have parked: "parked_exact s'"
    unfolding parked_exact_def pc'(2)
    by (rule counter_update [OF pop_step_parked [OF step] _ armed])
      (use inv n count_upto_le [of "num_workers s'"] in \<open>auto simp: acct_inv_def parked_exact_def
        pool_size_ok_def intro: order_trans\<close>)
  have woken: "woken_count s' + of_bool (woken (que s) i (wpcs s i))
      = woken_count s + of_bool (woken q' i pc')"
    using count_upd [OF i, of "\<lambda>j. woken q' j (wpcs s' j)" "\<lambda>j. woken (que s) j (wpcs s j)"]
      pop_step_others [OF step] by (simp add: n pc')
  have hand: "at_hand s' t HNotify = at_hand s t HNotify" for t
    using pop_step_no_push [OF step] n unfolding s' by (cases t) auto
  then have notifying: "notifying s' = notifying s" by (simp add: notifying_def)
  have "notified_bounded s'"
  proof (cases "notifying s")
    case False
    with notifying woken pop_step_notified [OF step] inv show ?thesis
      by (auto simp: notified_bounded_def acct_inv_def pc'(2) split: if_splits)
  next
    case True
    then obtain t where t: "at_hand s t HNotify" by (auto simp: notifying_def)
    then have "t \<noteq> Wrk i" using pop_step_no_push [OF step] by auto
    with lock_elsewhere [of s t "Wrk i"] at_hand_critical [OF t] inv i
    have "\<not> w_holds (wpcs s i)" "park (que s) \<noteq> None" by (auto simp: acct_inv_def)
    with pop_step_unlocked [OF step] armed have
      "notified q' = notified (que s)" "armed_count s' = armed_count s" by auto
    with notifying woken pop_step_notified [OF step] inv True show ?thesis
      by (auto simp: notified_bounded_def acct_inv_def pc'(2))
  qed
  moreover have "waiters_wait s'"
  proof -
    have "wpcs s' = (wpcs s)(i := pc')" by (simp add: s')
    with pop_step_waiters [OF step] inv i show ?thesis
      unfolding waiters_wait_def n pc'(2) acct_inv_def by auto
  qed
  ultimately show ?thesis using exact size parked by (simp add: acct_inv_def)
qed

section \<open>Handshake steps\<close>

lemma at_hand_same:
  "num_workers s' = num_workers s \<Longrightarrow> wpcs s' = wpcs s \<Longrightarrow> ppcs s' = ppcs s \<Longrightarrow>
   at_hand s' t h = at_hand s t h"
  by (cases t) simp_all

lemma at_hand_others:
  assumes "num_workers s' = num_workers s"
  shows "wpcs s' = (wpcs s)(i := pc') \<Longrightarrow> ppcs s' = ppcs s \<Longrightarrow> u \<noteq> Wrk i \<Longrightarrow>
      at_hand s' u h = at_hand s u h"
    and "wpcs s' = wpcs s \<Longrightarrow> ppcs s' = (ppcs s)(p := h') \<Longrightarrow> u \<noteq> Prod p \<Longrightarrow>
      at_hand s' u h = at_hand s u h"
  using assms by (cases u; simp)+

lemma unat_inc:
  fixes x y :: usize
  assumes "x < y"
  shows "unat (x + 1) = Suc (unat x)"
proof -
  have "Suc (unat x) < 2 ^ 64"
    using assms unat_lt64 [of y] by (simp add: word_less_nat_alt)
  then show ?thesis by (simp add: unat_word_ariths)
qed

text \<open>Whoever notifies finds, if nobody waits, every armed worker already woken.\<close>

lemma nobody_waits:
  assumes "acct_inv s" and "at_hand s t h" and "hand_holds h" and "waiters (que s) = {}"
  shows "armed_count s \<le> woken_count s"
proof (rule count_upto_mono)
  fix i assume i: "i < num_workers s" "armed (wpcs s i)"
  have crit: "in_critical s t" using assms(2,3) by (rule at_hand_critical)
  have "wpcs s i = WWait"
  proof (cases "w_holds (wpcs s i)")
    case True
    with i have "in_critical s (Wrk i)" by simp
    with crit assms(1) have "t = Wrk i" by (auto simp: acct_inv_def intro: park_lock.exclusion)
    with assms(2) i show ?thesis by auto
  next
    case False
    with i(2) show ?thesis by (cases "wpcs s i") auto
  qed
  with assms(4) show "woken (que s) i (wpcs s i)" by (simp add: woken_def)
qed

text \<open>How a handshake step moves the bound on \<open>notified\<close>; \<open>other\<close> says that another thread notifies.\<close>

lemma notified_hand:
  fixes n :: nat and pcs :: "nat \<Rightarrow> 'r wpc" and q :: "'r queue"
  defines "wake \<equiv> \<lambda>q. count_upto n (\<lambda>i. woken q i (pcs i))"
  assumes step: "hand_step t (q, h) (q', h')"
    and bound: "unat (notified q) \<le> wake q + of_bool (h = HNotify \<or> other)"
      "h = HNotify \<or> other \<longrightarrow> 1 \<le> unat (notified q) \<and> unat (notified q) \<le> m"
    and parked: "unat (parked q) = m"
    and alone: "hand_holds h \<Longrightarrow> \<not> other"
    and waits: "\<And>i. i \<in> waiters q \<Longrightarrow> i < n \<and> pcs i = WWait"
    and nobody: "hand_holds h \<Longrightarrow> waiters q = {} \<Longrightarrow> m \<le> wake q"
  shows "unat (notified q') \<le> wake q' + of_bool (h' = HNotify \<or> other)
    \<and> (h' = HNotify \<or> other \<longrightarrow> 1 \<le> unat (notified q') \<and> unat (notified q') \<le> m)"
  using step
proof cases
  case recheck_wake
  then have "\<not> other" "unat (notified q') = Suc (unat (notified q))" "unat (notified q) < m"
    using alone unat_inc [of "notified q" "parked q"] parked by (auto simp: word_less_nat_alt)
  then show ?thesis using bound recheck_wake by (auto simp: wake_def woken_def)
next
  case (notify_waiter w)
  then have w: "w < n" "pcs w = WWait" "\<not> other" using waits alone by auto
  have "wake q' = Suc (wake q)"
    unfolding wake_def by (rule count_upto_enter [OF w(1)]) (use notify_waiter w in \<open>auto simp: woken_def\<close>)
  then show ?thesis using w bound notify_waiter by auto
next
  case notify_nobody
  then show ?thesis using alone nobody bound by auto
qed (use bound in \<open>auto simp: wake_def woken_def\<close>)

lemma acct_hand:
  assumes inv: "acct_inv s" and exact: "park_lock.exact s'" and at: "at_hand s t h"
    and step: "hand_step t (que s, h) (q', h')"
    and s': "que s' = q'" "at_hand s' t h'" "\<And>u h. u \<noteq> t \<Longrightarrow> at_hand s' u h = at_hand s u h"
      "\<And>h''. at_hand s' t h'' \<Longrightarrow> h'' = h'" "\<And>h''. at_hand s t h'' \<Longrightarrow> h'' = h"
    and pcs: "\<And>i. wpcs s' i = wpcs s i \<or> (\<exists>r r' h h'. wpcs s i = WPush r h \<and> wpcs s' i = WPush r' h')"
  shows "acct_inv s'"
proof -
  have n: "num_workers s' = num_workers s"
    by (simp add: num_workers_def s'(1) hand_step_frame(2) [OF step])
  have armed: "armed (wpcs s' i) = armed (wpcs s i)" and wait: "wpcs s' i = WWait \<longleftrightarrow> wpcs s i = WWait"
    and adj: "wpcs s' i = WAdjust Again \<longleftrightarrow> wpcs s i = WAdjust Again" for i
    using pcs [of i] by auto
  have A: "armed_count s' = armed_count s" by (simp add: n armed)
  have K: "woken_count s' = count_upto (num_workers s) (\<lambda>i. woken q' i (wpcs s i))"
    by (simp add: n s'(1) woken_def wait adj)
  have parked: "parked_exact s'"
    using inv by (simp add: acct_inv_def parked_exact_def A s'(1) hand_step_frame(4) [OF step])
  have waiters: "waiters_wait s'"
    using inv hand_step_frame(8) [OF step] by (auto simp: acct_inv_def waiters_wait_def n s'(1) wait)
  have size: "pool_size_ok s'"
    using inv by (simp add: acct_inv_def pool_size_ok_def n s'(1) wf_queue_def hand_step_frame [OF step])
  have other: "\<not> at_hand s u HNotify" if "hand_holds h" "u \<noteq> t" for u
    using lock_elsewhere(1) [of s t u] at_hand_critical [OF at that(1)] at_hand_critical [of s u HNotify]
      inv that(2) by (auto simp: acct_inv_def)
  have notifying: "notifying s' = ((h' = HNotify) \<or> (\<exists>u. u \<noteq> t \<and> at_hand s u HNotify))"
    and notifying0: "notifying s = ((h = HNotify) \<or> (\<exists>u. u \<noteq> t \<and> at_hand s u HNotify))"
    unfolding notifying_def using s' at by metis+
  have "notified_bounded s'"
    unfolding notified_bounded_def K A notifying unfolding s'(1)
  proof (rule notified_hand [OF step])
    show "\<not> (\<exists>u. u \<noteq> t \<and> at_hand s u HNotify)" if "hand_holds h" using other that by blast
    show "i < num_workers s \<and> wpcs s i = WWait" if "i \<in> waiters (que s)" for i
      using inv that by (auto simp: acct_inv_def waiters_wait_def)
    show "armed_count s \<le> woken_count s" if "hand_holds h" "waiters (que s) = {}"
      by (rule nobody_waits [OF inv at that])
  qed (use inv in \<open>simp_all add: acct_inv_def parked_exact_def notified_bounded_def notifying0\<close>)
  with exact parked waiters size show ?thesis by (simp add: acct_inv_def)
qed

section \<open>All steps\<close>

lemma wf_queue_frame:
  "length (injectors q') = length (injectors q) \<Longrightarrow> shard_mask q' = shard_mask q \<Longrightarrow>
   length (stealers q') = length (stealers q) \<Longrightarrow> wf_queue q' = wf_queue q"
  by (simp add: wf_queue_def)

lemma acct_notify_all:
  assumes inv: "acct_inv s" and exact: "park_lock.exact s'" and "cpc s = CNotify"
    and s': "s' = s\<lparr>que := (que s)\<lparr>waiters := {}\<rparr>, cpc := CUnlock\<rparr>"
  shows "acct_inv s'"
proof -
  have n: "num_workers s' = num_workers s" by (simp add: s' num_workers_def)
  have "\<not> at_hand s t HNotify" for t
    using lock_elsewhere(1) [of s Closer t] at_hand_critical [of s t HNotify] inv assms(3)
    by (cases "t = Closer") (auto simp: acct_inv_def)
  then have quiet: "\<not> notifying s" by (simp add: notifying_def)
  have "at_hand s' t HNotify = at_hand s t HNotify" for t
    by (cases t) (simp_all add: n, simp_all add: s')
  with quiet have quiet': "\<not> notifying s'" by (simp add: notifying_def)
  have "woken_count s \<le> count_upto (num_workers s) (\<lambda>i. woken (que s') i (wpcs s' i))"
    by (rule count_upto_mono) (auto simp: woken_def s')
  then have "notified_bounded s'"
    using inv quiet quiet' unfolding acct_inv_def notified_bounded_def n by (simp add: s')
  moreover have "parked_exact s'" "waiters_wait s'" "pool_size_ok s'"
    using inv unfolding acct_inv_def parked_exact_def waiters_wait_def pool_size_ok_def n
    by (auto simp: s' wf_queue_def)
  ultimately show ?thesis using exact by (simp add: acct_inv_def)
qed

text \<open>Worker steps outside the handshake and outside \<open>pop_blocking\<close>; a producer's push.\<close>

lemma quiet_worker:
  assumes "acct_inv s" and "park_lock.exact s'" and n: "num_workers s' = num_workers s"
    and wpcs: "wpcs s' = (wpcs s)(i := pc')" and ppcs: "ppcs s' = ppcs s"
    and "wf_queue (que s')" and "waiters (que s') = waiters (que s)"
    and "parked (que s') = parked (que s)" and "notified (que s') = notified (que s)"
    and "\<not> armed pc'" and "\<not> armed (wpcs s i)"
    and "\<forall>r. pc' \<noteq> WPush r HNotify" and "\<forall>r. wpcs s i \<noteq> WPush r HNotify"
  shows "acct_inv s'"
proof (rule quiet_step [OF assms(1,2) _ n])
  show "pool_size_ok s'" using assms(1,6) n by (simp add: acct_inv_def pool_size_ok_def)
  show "at_hand s' t HNotify = at_hand s t HNotify" for t
    using assms(12,13) by (cases t) (auto simp: n wpcs ppcs)
  show "armed (wpcs s' j) = armed (wpcs s j) \<and> (wpcs s' j = WWait \<longleftrightarrow> wpcs s j = WWait)
      \<and> (wpcs s' j = WAdjust Again \<longleftrightarrow> wpcs s j = WAdjust Again)" for j
    using assms(10,11) by (auto simp: wpcs)
qed (use assms in simp_all)

lemma quiet_producer:
  assumes "acct_inv s" and "park_lock.exact s'" and n: "num_workers s' = num_workers s"
    and wpcs: "wpcs s' = wpcs s" and ppcs: "ppcs s' = (ppcs s)(p := h')"
    and "wf_queue (que s')" and "waiters (que s') = waiters (que s)"
    and "parked (que s') = parked (que s)" and "notified (que s') = notified (que s)"
    and "h' \<noteq> HNotify" and "ppcs s p \<noteq> HNotify"
  shows "acct_inv s'"
proof (rule quiet_step [OF assms(1,2) _ n])
  show "pool_size_ok s'" using assms(1,6) n by (simp add: acct_inv_def pool_size_ok_def)
  show "at_hand s' t HNotify = at_hand s t HNotify" for t
    using assms(10,11) by (cases t) (auto simp: n wpcs ppcs)
qed (use assms in simp_all)

lemma acct_closing:
  assumes inv: "acct_inv s" and exact: "park_lock.exact s'" and n: "num_workers s' = num_workers s"
    and step: "shutdown_step (que s, cpc s) (q', k')" and s': "s' = s\<lparr>que := q', cpc := k'\<rparr>"
  shows "acct_inv s'"
proof (cases "cpc s = CNotify")
  case True
  with step have "q' = (que s)\<lparr>waiters := {}\<rparr>" "k' = CUnlock"
    by (auto elim!: shutdown_stepE)
  with acct_notify_all [OF inv exact True] s' show ?thesis by simp
next
  case False
  have pcs: "wpcs s' = wpcs s" "ppcs s' = ppcs s" "que s' = q'" by (simp_all add: s')
  show ?thesis
  proof (rule quiet_step [OF inv exact _ n])
    show "pool_size_ok s'"
      using inv n shutdown_step_frame [OF step]
      by (simp add: acct_inv_def pool_size_ok_def pcs wf_queue_def)
    show "at_hand s' t HNotify = at_hand s t HNotify" for t
      by (cases t) (simp_all add: n pcs)
    show "waiters (que s') = waiters (que s)"
      using step False by (auto elim!: shutdown_stepE simp: pcs)
  qed (simp_all add: pcs shutdown_step_frame [OF step])
qed

lemma acct_step:
  assumes inv: "acct_inv s" and step: "sys_step s s'"
  shows "acct_inv s'"
proof -
  have exact: "park_lock.exact s'"
    using inv park_lock.exact_step [OF _ step] by (simp add: acct_inv_def)
  have n: "num_workers s' = num_workers s" by (rule sys_step_workers [OF step])
  have wf: "wf_queue (que s)" using inv by (simp add: acct_inv_def pool_size_ok_def)
  note worker = quiet_worker [OF inv exact n] and producer = quiet_producer [OF inv exact n]
  show ?thesis
    using step
  proof cases
    case (worker_pop i q' c' pc')
    with acct_worker_pop [OF inv] exact show ?thesis by blast
  next
    case (worker_finish i r)
    show ?thesis by (rule worker [of i "WScan 0 SOwn"]) (simp_all add: worker_finish wf)
  next
    case (worker_unwind i r)
    show ?thesis by (rule worker [of i WStart]) (simp_all add: worker_unwind wf)
  next
    case (self_push i r hash cell d cell' x)
    show ?thesis
      by (rule worker [of i "WPush r HLoadParked"])
        (simp_all add: self_push wf wf_queue_frame [where q = "que s"])
  next
    case (self_hand i r h q' h')
    then have pcs: "wpcs s' = (wpcs s)(i := WPush r h')" "ppcs s' = ppcs s" "que s' = q'" by simp_all
    show ?thesis
      by (rule acct_hand [OF inv exact _ self_hand(4)])
        (use self_hand(2,3) pcs at_hand_others(1) [OF n pcs(1,2)] n in auto)
  next
    case (self_return i r)
    show ?thesis by (rule worker [of i "WRun r"]) (simp_all add: self_return wf)
  next
    case (foreign_push p handle d cell' x)
    show ?thesis
      by (rule producer [of p HLoadParked])
        (simp_all add: foreign_push wf wf_queue_frame [where q = "que s"])
  next
    case (push_elsewhere p msk target cell')
    have "at_hand s' t h = at_hand s t h" for t h
      by (rule at_hand_same [OF n]) (simp_all add: push_elsewhere(1))
    moreover have "pool_size_ok s'"
      using inv n by (simp add: push_elsewhere(1) acct_inv_def pool_size_ok_def)
    ultimately show ?thesis by (intro quiet_step [OF inv exact _ n]) (simp_all add: push_elsewhere(1))
  next
    case (foreign_hand p q' h')
    then have pcs: "wpcs s' = wpcs s" "ppcs s' = (ppcs s)(p := h')" "que s' = q'" by simp_all
    show ?thesis
      by (rule acct_hand [OF inv exact _ foreign_hand(2)])
        (use pcs at_hand_others(2) [OF n pcs(1,2)] in auto)
  next
    case (closing q' k')
    with acct_closing [OF inv exact n] show ?thesis by blast
  qed
qed

lemma acct_init:
  assumes "sys_init s"
  shows "acct_inv s"
proof -
  obtain nw ov where nw: "1 \<le> nw" "nw \<le> 512" "queue_new nw ov = Some (que s)"
    using assms by (auto simp: sys_init_def)
  note q = queue_new_fields [OF nw(3)] wf_queue_new [OF nw]
  have "\<not> at_hand s t HNotify" for t using assms by (cases t) (auto simp: sys_init_def)
  then have "\<not> notifying s" by (simp add: notifying_def)
  moreover have "armed_count s = 0" using assms by (simp add: sys_init_def count_upto_0_iff)
  ultimately show ?thesis
    using park_lock.exact_init [OF assms] q nw(1,2)
    by (simp add: acct_inv_def pool_size_ok_def num_workers_def waiters_wait_def parked_exact_def
        notified_bounded_def)
qed

interpretation accounting: invariant_system sys_init sys_step acct_inv
  by unfold_locales (auto intro: acct_init acct_step)

section \<open>Properties\<close>

text \<open>
  C13. Mutual exclusion: in every reachable state the mutex is held exactly by the thread whose
  program is inside its critical section, so no two threads are ever inside at once, worker,
  producer or the thread that shuts the pool down. Everything the code does to \<open>parked\<close>,
  \<open>notified\<close> and the condition variable happens in there.
\<close>
theorem park_mutual_exclusion:
  assumes "reachable s"
  shows "(park (que s) = Some t \<longleftrightarrow> in_critical s t)
    \<and> (in_critical s t \<longrightarrow> in_critical s u \<longrightarrow> t = u)"
  using park_lock.exact_reachable [OF assms] park_lock.exclusion
  by (auto simp: park_lock.exact_def)

theorem park_mutual_exclusion_witness:
  "park (que (lone lone_notified WWait HNotify CIdle {#7#})) = Some (Prod 0)
    \<and> \<not> in_critical (lone lone_notified WWait HNotify CIdle {#7#}) (Wrk 0)"
  using park_mutual_exclusion [OF lone_notified_reachable, of "Prod 0" "Wrk 0"]
  by (simp add: lone_def)

text \<open>
  C15. \<open>parked\<close> is exact: in every reachable state it is the number of workers that have
  executed \<open>parked.fetch_add\<close> and not yet \<open>parked.fetch_sub\<close>. It never exceeds the number of
  workers, and a worker about to decrement it finds it positive, so it never wraps around.
\<close>
theorem parked_counts_armed:
  assumes "reachable s"
  shows "unat (parked (que s)) = count_upto (num_workers s) (\<lambda>i. armed (wpcs s i))
    \<and> unat (parked (que s)) \<le> num_workers s
    \<and> (\<forall>i < num_workers s. \<forall>a. wpcs s i = WDisarm a \<longrightarrow> 0 < parked (que s))"
proof -
  have inv: "acct_inv s" by (rule accounting.reachable_inv [OF assms])
  then have eq: "unat (parked (que s)) = armed_count s" by (simp add: acct_inv_def parked_exact_def)
  moreover have "0 < parked (que s)" if "i < num_workers s" "wpcs s i = WDisarm a" for i a
  proof -
    have "0 < armed_count s" unfolding count_upto_pos_iff using that by (intro exI [of _ i]) simp
    with eq show ?thesis by (simp add: word_less_nat_alt)
  qed
  ultimately show ?thesis by (auto simp: count_upto_le)
qed

theorem parked_counts_armed_witness:
  "unat (parked (que (lone lone_notified WWait HNotify CIdle {#7#})))
      = armed_count (lone lone_notified WWait HNotify CIdle {#7#})
    \<and> parked (que (lone lone_notified WWait HNotify CIdle {#7#})) = 1"
  using parked_counts_armed [OF lone_notified_reachable]
  by (simp add: lone_def lone_notified_def lone_asleep_def)

text \<open>
  C16. \<open>notified\<close> counts wake-ups that are really on their way: in every reachable state it is
  at most the number of workers that were signalled and have not yet accounted for it, plus
  one while some thread stands between its increment and its \<open>notify_one\<close>. So
  \<open>notified\<close> never exceeds \<open>parked\<close>, never wraps, and a push that finds the two equal and
  skips the mutex leaves no armed worker without a signal.
\<close>
theorem notified_never_overcounts:
  assumes "reachable s"
  shows "unat (notified (que s)) \<le> woken_count s + of_bool (notifying s)
    \<and> notified (que s) \<le> parked (que s)
    \<and> (notified (que s) = parked (que s) \<longrightarrow> \<not> notifying s \<longrightarrow>
        (\<forall>i < num_workers s. armed (wpcs s i) \<longrightarrow> woken (que s) i (wpcs s i)))"
proof -
  have inv: "acct_inv s" by (rule accounting.reachable_inv [OF assms])
  then have nb: "notified_bounded s" and eq: "unat (parked (que s)) = armed_count s"
    by (simp_all add: acct_inv_def parked_exact_def)
  have le: "woken_count s \<le> armed_count s"
    by (rule count_upto_mono) (auto simp: woken_def)
  have "woken (que s) i (wpcs s i)"
    if "notified (que s) = parked (que s)" "\<not> notifying s" "i < num_workers s" "armed (wpcs s i)" for i
  proof (rule ccontr)
    assume "\<not> woken (que s) i (wpcs s i)"
    with that(3,4) have "woken_count s < armed_count s"
      by (intro count_upto_less) (auto simp: woken_def)
    with that(1,2) nb eq show False by (simp add: notified_bounded_def)
  qed
  with nb le eq show ?thesis
    by (auto simp: notified_bounded_def word_le_nat_alt)
qed

theorem notified_never_overcounts_witness:
  "notified lone_notified \<le> parked lone_notified \<and> notifying (lone lone_notified WWait HNotify CIdle {#7#})"
proof -
  let ?s = "lone lone_notified WWait HNotify CIdle {#7#}"
  have "at_hand ?s (Prod 0) HNotify" by (simp add: lone_def)
  then have "notifying ?s" unfolding notifying_def by blast
  moreover have "que ?s = lone_notified" by (simp add: lone_def)
  ultimately show ?thesis
    using notified_never_overcounts [OF lone_notified_reachable] by simp
qed

end
