(* ===== verification/Ownership.thy ===== *)
theory Ownership
  imports Accounting
begin

text \<open>
  Who owns what: every started worker sits in its own stealer slot with a deque no other slot
  leads to, a worker that is about to sleep or to leave has emptied its deque, and every
  runnable that was ever pushed is in exactly one place: in a container of the queue, in the
  hands of one worker, or run.
\<close>

section \<open>The invariant\<close>

definition slots_ok :: "'r queue \<Rightarrow> bool" where
  "slots_ok q \<longleftrightarrow> (\<forall>v < length (stealers q). \<forall>a. stealers q ! v = Some a \<longrightarrow>
     a < next_addr q \<and> (\<forall>u < length (stealers q). stealers q ! u = Some a \<longrightarrow> u = v))"

text \<open>Where the code relies on the own deque being empty.\<close>

fun own_ok :: "'r queue \<Rightarrow> worker_context \<Rightarrow> 'r wpc \<Rightarrow> bool" where
  "own_ok q c (WScan k pc) \<longleftrightarrow> pc_ok q c pc"
| "own_ok q c (WRescan pc) \<longleftrightarrow> pc_ok q c pc"
| "own_ok q c WCheck \<longleftrightarrow> deques q (ctx_deque c) = []"
| "own_ok q c WSleep \<longleftrightarrow> deques q (ctx_deque c) = []"
| "own_ok q c WWait \<longleftrightarrow> deques q (ctx_deque c) = []"
| "own_ok q c (WAdjust a) \<longleftrightarrow> (\<forall>r. a \<noteq> Got r) \<longrightarrow> deques q (ctx_deque c) = []"
| "own_ok q c (WDisarm a) \<longleftrightarrow> (\<forall>r. a \<noteq> Got r) \<longrightarrow> deques q (ctx_deque c) = []"
| "own_ok q c (WUnlock a) \<longleftrightarrow> (\<forall>r. a \<noteq> Got r) \<longrightarrow> deques q (ctx_deque c) = []"
| "own_ok q c WExit \<longleftrightarrow> deques q (ctx_deque c) = []"
| "own_ok q c _ \<longleftrightarrow> True"

definition seated :: "'r queue \<Rightarrow> nat \<Rightarrow> worker_context \<Rightarrow> bool" where
  "seated q i c \<longleftrightarrow> ctx_idx c = i \<and> stealers q ! i = Some (ctx_deque c)"

definition worker_ok :: "'r queue \<Rightarrow> nat \<Rightarrow> worker_context \<Rightarrow> 'r wpc \<Rightarrow> bool" where
  "worker_ok q i c pc \<longleftrightarrow> (pc = WStart \<or> seated q i c) \<and> own_ok q c pc"

text \<open>The runnables a worker has taken out of the queue and not yet run to the end.\<close>

fun after_hand :: "'r after \<Rightarrow> 'r multiset" where
  "after_hand (Got r) = {#r#}"
| "after_hand _ = {#}"

fun in_hand :: "'r wpc \<Rightarrow> 'r multiset" where
  "in_hand (WScan k pc) = found pc"
| "in_hand (WRescan pc) = found pc"
| "in_hand (WAdjust a) = after_hand a"
| "in_hand (WDisarm a) = after_hand a"
| "in_hand (WUnlock a) = after_hand a"
| "in_hand (WRun r) = {#r#}"
| "in_hand (WPush r h) = {#r#}"
| "in_hand _ = {#}"

definition held :: "'r sys \<Rightarrow> 'r multiset" where
  "held s = (\<Sum>i<num_workers s. in_hand (wpcs s i))"

text \<open>As long as no worker has unwound, every allocated deque is behind a slot.\<close>

definition all_seated :: "'r sys \<Rightarrow> bool" where
  "all_seated s \<longleftrightarrow>
     (\<forall>i < num_workers s. wpcs s i = WStart \<longrightarrow> stealers (que s) ! i = None)
     \<and> (\<forall>a < next_addr (que s). \<exists>v < num_workers s. stealers (que s) ! v = Some a)"

definition own_inv :: "'r sys \<Rightarrow> bool" where
  "own_inv s \<longleftrightarrow> wf_queue (que s) \<and> slots_ok (que s)
     \<and> (\<forall>i < num_workers s. worker_ok (que s) i (ctxs s i) (wpcs s i))
     \<and> pushed s = queue_items (que s) + held s + ran s
     \<and> (crashes s = 0 \<longrightarrow> all_seated s)"

section \<open>One worker step\<close>

lemma seated_registered:
  "slots_ok q \<Longrightarrow> seated q i c \<Longrightarrow> i < length (stealers q) \<Longrightarrow> registered q c"
  by (auto simp: slots_ok_def seated_def registered_def)

lemma slots_ok_frame:
  assumes "stealers q' = stealers q" and "next_addr q' = next_addr q"
  shows "slots_ok q' = slots_ok q"
  unfolding slots_ok_def assms ..

lemma slots_okD:
  assumes "slots_ok q" and "v < length (stealers q)" and "stealers q ! v = Some a"
  shows "a < next_addr q" and "u < length (stealers q) \<Longrightarrow> stealers q ! u = Some a \<Longrightarrow> u = v"
  using assms(1) [unfolded slots_ok_def, rule_format, OF assms(2,3)] by simp_all

lemma slots_ok_start:
  assumes "slots_ok q" and "i < length (stealers q)"
    and "stealers q' = (stealers q)[i := Some (next_addr q)]" and "next_addr q' = Suc (next_addr q)"
  shows "slots_ok q'"
  unfolding slots_ok_def
proof (intro allI impI)
  fix v a assume v: "v < length (stealers q')" "stealers q' ! v = Some a"
  show "a < next_addr q' \<and> (\<forall>u < length (stealers q'). stealers q' ! u = Some a \<longrightarrow> u = v)"
  proof (cases "v = i")
    case True
    with v assms have "a = next_addr q" by simp
    with True assms slots_okD(1) [OF assms(1), of _ a] show ?thesis
      by (auto simp: nth_list_update split: if_splits)
  next
    case False
    with v assms have q: "v < length (stealers q)" "stealers q ! v = Some a" by simp_all
    note a = slots_okD(1) [OF assms(1) q]
    have "u = v" if u: "u < length (stealers q')" "stealers q' ! u = Some a" for u
    proof (cases "u = i")
      case True
      with u assms a show ?thesis by simp
    next
      case False
      with u assms have "u < length (stealers q)" "stealers q ! u = Some a" by simp_all
      then show ?thesis by (rule slots_okD(2) [OF assms(1) q])
    qed
    with a assms(4) show ?thesis by auto
  qed
qed

lemma seated_apart:
  assumes "slots_ok q" and "seated q i c" and "seated q j c'" and "i \<noteq> j"
    and "i < length (stealers q)" and "j < length (stealers q)"
  shows "ctx_deque c \<noteq> ctx_deque c'"
  using assms unfolding slots_ok_def seated_def by metis

lemma pc_ok_mono:
  "pc_ok q c pc \<Longrightarrow> (deques q (ctx_deque c) = [] \<Longrightarrow> deques q' (ctx_deque c) = []) \<Longrightarrow>
   length (injectors q') = length (injectors q) \<Longrightarrow> length (stealers q') = length (stealers q) \<Longrightarrow>
   pc_ok q' c pc"
  by (cases pc) auto

lemma own_ok_mono:
  "own_ok q c pc \<Longrightarrow> (deques q (ctx_deque c) = [] \<Longrightarrow> deques q' (ctx_deque c) = []) \<Longrightarrow>
   length (injectors q') = length (injectors q) \<Longrightarrow> length (stealers q') = length (stealers q) \<Longrightarrow>
   own_ok q' c pc"
  by (cases pc) (auto intro: pc_ok_mono)

lemma queue_items_cong:
  "injectors q' = injectors q \<Longrightarrow> deques q' = deques q \<Longrightarrow> next_addr q' = next_addr q \<Longrightarrow>
   queue_items q' = queue_items q"
  by (simp add: queue_items_def)

text \<open>What a started worker's step keeps, of its own and of the others.\<close>

definition pop_keeps ::
  "'r queue \<Rightarrow> worker_context \<Rightarrow> 'r wpc \<Rightarrow> 'r queue \<times> worker_context \<times> 'r wpc \<Rightarrow> bool" where
  "pop_keeps q c pc = (\<lambda>(q', c', pc').
     stealers q' = stealers q \<and> next_addr q' = next_addr q \<and> shard_mask q' = shard_mask q
     \<and> length (injectors q') = length (injectors q)
     \<and> ctx_idx c' = ctx_idx c \<and> ctx_deque c' = ctx_deque c \<and> pc' \<noteq> WStart \<and> own_ok q' c' pc'
     \<and> queue_items q' + in_hand pc' = queue_items q + in_hand pc
     \<and> (\<forall>j. injectors q ! j = [] \<longrightarrow> injectors q' ! j = [])
     \<and> (\<forall>a. a \<noteq> ctx_deque c \<longrightarrow> deques q a = [] \<longrightarrow> deques q' a = []))"

lemma scan_step_keeps:
  assumes "wf_queue q" and "registered q c" and "steal_laws stl" and "pc_ok q c pc"
    and "scan_step stl p q c pc = (q', c', pc')"
  shows "pop_keeps q c (WScan k pc) (q', c', WScan k' pc')"
    and "pop_keeps q c (WRescan pc) (q', c', WRescan pc')"
  using scan_step_sound [OF assms(1-4), of p] scan_step_shape [OF assms(5)]
  by (auto simp: assms(5) step_sound_def pop_keeps_def same_shape_def)

lemma pop_keeps_trivial:
  assumes "injectors q' = injectors q" and "stealers q' = stealers q"
    and "shard_mask q' = shard_mask q" and "deques q' = deques q" and "next_addr q' = next_addr q"
    and "pc' \<noteq> WStart" and "own_ok q c pc'" and "in_hand pc' = in_hand pc"
  shows "pop_keeps q c pc (q', c, pc')"
  using assms own_ok_mono [OF assms(7), of q'] queue_items_cong [OF assms(1,4,5)]
  by (simp add: pop_keeps_def)

lemma pop_step_keeps:
  assumes "wf_queue q" and "registered q c" and "own_ok q c pc" and "pc \<noteq> WStart"
    and "pop_step i (q, c, pc) (q', c', pc')"
  shows "pop_keeps q c pc (q', c', pc')"
  using assms(5)
proof cases
  case (cheap_scan stl pc1 pc2 k)
  with assms scan_step_keeps(1) [OF assms(1,2) cheap_scan(3)] show ?thesis by simp
next
  case (strict_scan stl pc1 pc2)
  with assms scan_step_keeps(2) [OF assms(1,2) strict_scan(3)] show ?thesis by simp
next
  case (pop_unlock a)
  with assms(3) show ?thesis by (cases a) (auto intro!: pop_keeps_trivial)
qed (use assms(3,4) in \<open>auto intro!: pop_keeps_trivial split: if_splits\<close>)

section \<open>All steps\<close>

lemma held_upd:
  assumes "i < num_workers s" and "num_workers s' = num_workers s"
    and "wpcs s' = (wpcs s)(i := pc')"
  shows "held s' + in_hand (wpcs s i) = held s + in_hand pc'"
proof -
  have "(\<Sum>j\<in>{..<num_workers s} - {i}. in_hand (wpcs s' j))
      = (\<Sum>j\<in>{..<num_workers s} - {i}. in_hand (wpcs s j))"
    by (rule sum.cong) (simp_all add: assms(3))
  then show ?thesis
    using sum.remove [of "{..<num_workers s}" i "\<lambda>j. in_hand (wpcs s' j)"]
      sum.remove [of "{..<num_workers s}" i "\<lambda>j. in_hand (wpcs s j)"] assms
    by (simp add: held_def ac_simps)
qed

lemma held_same: "num_workers s' = num_workers s \<Longrightarrow> wpcs s' = wpcs s \<Longrightarrow> held s' = held s"
  by (simp add: held_def)

text \<open>A started worker moves: the shape of the queue stays, the other deques only shrink.\<close>

lemma own_worker:
  assumes inv: "own_inv s" and i: "i < num_workers s" and pc: "wpcs s i \<noteq> WStart"
    and wpcs: "wpcs s' = (wpcs s)(i := pc')" and ctxs: "ctxs s' = (ctxs s)(i := c')"
    and slots: "stealers (que s') = stealers (que s)" "next_addr (que s') = next_addr (que s)"
      "shard_mask (que s') = shard_mask (que s)"
      "length (injectors (que s')) = length (injectors (que s))"
    and c': "ctx_idx c' = ctx_idx (ctxs s i)" "ctx_deque c' = ctx_deque (ctxs s i)"
    and ok: "own_ok (que s') c' pc'" and crash: "crashes s' = 0 \<Longrightarrow> pc' \<noteq> WStart \<and> crashes s = 0"
    and others: "\<And>a. a \<noteq> ctx_deque (ctxs s i) \<Longrightarrow> deques (que s) a = [] \<Longrightarrow> deques (que s') a = []"
    and items: "pushed s' + (queue_items (que s) + in_hand (wpcs s i) + ran s)
      = pushed s + (queue_items (que s') + in_hand pc' + ran s')"
  shows "own_inv s'"
proof -
  have n: "num_workers s' = num_workers s" by (simp add: num_workers_def slots)
  have sl: "slots_ok (que s)" and wok: "\<And>j. j < num_workers s \<Longrightarrow> worker_ok (que s) j (ctxs s j) (wpcs s j)"
    and eq: "pushed s = queue_items (que s) + held s + ran s"
    using inv by (simp_all add: own_inv_def)
  have seat: "seated (que s) i (ctxs s i)" using wok [OF i] pc by (simp add: worker_ok_def)
  have "worker_ok (que s') j (ctxs s' j) (wpcs s' j)" if j: "j < num_workers s" for j
  proof (cases "j = i")
    case True
    with seat ok c' slots show ?thesis by (simp add: worker_ok_def seated_def wpcs ctxs)
  next
    case False
    have "own_ok (que s') (ctxs s j) (wpcs s j)"
    proof (cases "wpcs s j = WStart")
      case True
      then show ?thesis by simp
    next
      case started: False
      with wok [OF j] have seat_j: "seated (que s) j (ctxs s j)" by (simp add: worker_ok_def)
      have "ctx_deque (ctxs s j) \<noteq> ctx_deque (ctxs s i)"
        using seated_apart [OF sl seat_j seat False] i j by (simp add: num_workers_def)
      with wok [OF j] others show ?thesis
        by (auto simp: worker_ok_def slots intro: own_ok_mono)
    qed
    with wok [OF j] False slots show ?thesis by (simp add: worker_ok_def seated_def wpcs ctxs)
  qed
  moreover have "pushed s' = queue_items (que s') + held s' + ran s'"
  proof -
    have "pushed s' + (queue_items (que s) + ran s + held s + in_hand (wpcs s i))
        = pushed s + (queue_items (que s') + ran s' + (held s' + in_hand (wpcs s i)) )"
      using items held_upd [OF i n wpcs] eq by (simp add: ac_simps)
    with eq show ?thesis by (simp add: ac_simps)
  qed
  moreover have "all_seated s'" if "crashes s' = 0"
    using inv crash [OF that] by (simp add: own_inv_def all_seated_def n slots wpcs)
  moreover have "wf_queue (que s')" "slots_ok (que s')"
    using inv wf_queue_frame [of "que s'" "que s"] slots_ok_frame [of "que s'" "que s"]
    by (simp_all add: own_inv_def slots)
  ultimately show ?thesis by (simp add: own_inv_def n)
qed

text \<open>A producer or the closing thread moves: what the workers own stays.\<close>

lemma own_other:
  assumes inv: "own_inv s" and wpcs: "wpcs s' = wpcs s" and ctxs: "ctxs s' = ctxs s"
    and slots: "stealers (que s') = stealers (que s)" "next_addr (que s') = next_addr (que s)"
      "shard_mask (que s') = shard_mask (que s)" "deques (que s') = deques (que s)"
      "length (injectors (que s')) = length (injectors (que s))"
    and hist: "ran s' = ran s" "crashes s' = crashes s"
    and items: "pushed s' + queue_items (que s) = pushed s + queue_items (que s')"
  shows "own_inv s'"
proof -
  have n: "num_workers s' = num_workers s" by (simp add: num_workers_def slots)
  have held: "held s' = held s" by (rule held_same [OF n wpcs])
  have eq: "pushed s = queue_items (que s) + held s + ran s" using inv by (simp add: own_inv_def)
  have "pushed s' + queue_items (que s) = queue_items (que s) + (queue_items (que s') + held s + ran s)"
    using items unfolding eq by (simp add: ac_simps)
  then have "pushed s' = queue_items (que s') + held s' + ran s'"
    unfolding held hist by (metis add.commute add_left_cancel)
  moreover have "worker_ok (que s') j (ctxs s' j) (wpcs s' j)" if "j < num_workers s" for j
  proof -
    have ok: "worker_ok (que s) j (ctxs s j) (wpcs s j)" using inv that by (simp add: own_inv_def)
    then have "own_ok (que s') (ctxs s j) (wpcs s j)"
      using slots by - (rule own_ok_mono [of "que s"]; simp add: worker_ok_def)
    with ok show ?thesis by (simp add: worker_ok_def seated_def slots wpcs ctxs)
  qed
  moreover have "all_seated s'" if "crashes s' = 0"
    using inv that by (simp add: own_inv_def all_seated_def n slots wpcs hist)
  moreover have "wf_queue (que s')" "slots_ok (que s')"
    using inv wf_queue_frame [of "que s'" "que s"] slots_ok_frame [of "que s'" "que s"]
    by (simp_all add: own_inv_def slots)
  ultimately show ?thesis by (simp add: own_inv_def n)
qed

text \<open>A worker registers.\<close>

lemma own_start:
  assumes inv: "own_inv s" and i: "i < num_workers s" and pc: "wpcs s i = WStart"
    and reg: "register_worker i (que s) = Some (q', c')"
    and s': "s' = s\<lparr>que := q', ctxs := (ctxs s)(i := c'), wpcs := (wpcs s)(i := WScan 0 SOwn)\<rparr>"
  shows "own_inv s'"
proof -
  let ?q = "que s"
  have q': "stealers q' = (stealers ?q)[i := Some (next_addr ?q)]" "next_addr q' = Suc (next_addr ?q)"
    "deques q' = (deques ?q)(next_addr ?q := [])" "injectors q' = injectors ?q"
    "shard_mask q' = shard_mask ?q" "ctx_idx c' = i" "ctx_deque c' = next_addr ?q"
    using reg by (auto simp: register_worker_def Let_def split: if_splits)
  have n: "num_workers s' = num_workers s" by (simp add: num_workers_def s' q')
  have i': "i < length (stealers ?q)" using i by (simp add: num_workers_def)
  have sl: "slots_ok ?q" and wok: "\<And>j. j < num_workers s \<Longrightarrow> worker_ok ?q j (ctxs s j) (wpcs s j)"
    using inv by (simp_all add: own_inv_def)
  have slot: "stealers q' ! v = (if v = i then Some (next_addr ?q) else stealers ?q ! v)" for v
    using i' by (simp add: q'(1))
  have "slots_ok q'"
    by (rule slots_ok_start [OF sl i' q'(1,2)])
  moreover have "worker_ok q' j (ctxs s' j) (wpcs s' j)" if j: "j < num_workers s" for j
  proof (cases "j = i")
    case True
    then show ?thesis using i' by (simp add: worker_ok_def seated_def s' q')
  next
    case False
    have "own_ok q' (ctxs s j) (wpcs s j)"
      using wok [OF j] by - (rule own_ok_mono [of ?q]; simp add: worker_ok_def q')
    with wok [OF j] False show ?thesis by (simp add: worker_ok_def seated_def s' slot)
  qed
  moreover have "pushed s' = queue_items q' + held s' + ran s'"
  proof -
    have "queue_items q' = queue_items ?q"
      by (simp add: queue_items_def q' lessThan_Suc)
    moreover have "held s' = held s"
      using held_upd [OF i n, of "WScan 0 SOwn"] by (simp add: s' pc)
    ultimately show ?thesis using inv by (simp add: own_inv_def s')
  qed
  moreover have "all_seated s'" if "crashes s' = 0"
  proof -
    from inv that have all: "all_seated s" by (simp add: own_inv_def s')
    have "\<exists>v < num_workers s. stealers q' ! v = Some a" if "a < Suc (next_addr ?q)" for a
    proof (cases "a = next_addr ?q")
      case True
      then show ?thesis using i slot by (intro exI [of _ i]) simp
    next
      case False
      with that have "a < next_addr ?q" by simp
      with all obtain v where v: "v < num_workers s" "stealers ?q ! v = Some a"
        unfolding all_seated_def by blast
      moreover have "v \<noteq> i" using v all i pc by (auto simp: all_seated_def)
      ultimately show ?thesis using slot by (intro exI [of _ v]) simp
    qed
    moreover have "wpcs s' = (wpcs s)(i := WScan 0 SOwn)" "que s' = q'" by (simp_all add: s')
    ultimately show ?thesis
      using all unfolding all_seated_def n by (simp add: slot q'(2))
  qed
  moreover have "wf_queue q'"
    using inv wf_queue_frame [of q' ?q] by (simp add: own_inv_def q')
  ultimately show ?thesis by (simp add: own_inv_def n) (simp add: s')
qed

lemma own_pop:
  assumes inv: "own_inv s" and i: "i < num_workers s"
    and step: "pop_step i (que s, ctxs s i, wpcs s i) (q', c', pc')"
    and s': "s' = s\<lparr>que := q', ctxs := (ctxs s)(i := c'), wpcs := (wpcs s)(i := pc')\<rparr>"
  shows "own_inv s'"
proof (cases "wpcs s i = WStart")
  case True
  with step have "register_worker i (que s) = Some (q', c')" "pc' = WScan 0 SOwn"
    by (auto elim: pop_stepE)
  with own_start [OF inv i True] s' show ?thesis by simp
next
  case False
  have wok: "worker_ok (que s) i (ctxs s i) (wpcs s i)" and wf: "wf_queue (que s)"
    and sl: "slots_ok (que s)"
    using inv i by (simp_all add: own_inv_def)
  from wok False have seat: "seated (que s) i (ctxs s i)" and ok: "own_ok (que s) (ctxs s i) (wpcs s i)"
    by (simp_all add: worker_ok_def)
  have reg: "registered (que s) (ctxs s i)"
    using seated_registered [OF sl seat] i by (simp add: num_workers_def)
  have keeps: "pop_keeps (que s) (ctxs s i) (wpcs s i) (q', c', pc')"
    by (rule pop_step_keeps [OF wf reg ok False step])
  show ?thesis
    by (rule own_worker [OF inv i False, of s' pc' c'])
      (use keeps in \<open>simp_all add: s' pop_keeps_def add.assoc add.left_commute\<close>)
qed

lemma own_self_push:
  assumes inv: "own_inv s" and i: "i < num_workers s" and pc: "wpcs s i = WRun r"
    and dest: "push_dest QID (enter_worker_scope QID (ctxs s i)) (shard_mask (que s)) hash cell
      = (d, cell')"
    and s': "s' = s\<lparr>que := enqueue d x (que s), wpcs := (wpcs s)(i := WPush r HLoadParked),
      pushed := add_mset x (pushed s)\<rparr>"
  shows "own_inv s'"
proof -
  have d: "d = Own (ctx_deque (ctxs s i))"
    using dest push_dest_own [of "enter_worker_scope QID (ctxs s i)" _ QID]
    by (simp add: enter_worker_scope_def)
  have seat: "seated (que s) i (ctxs s i)" and sl: "slots_ok (que s)"
    using inv i pc by (auto simp: own_inv_def worker_ok_def)
  have "ctx_deque (ctxs s i) < next_addr (que s)"
    using slots_okD(1) [OF sl, of i] seat i by (simp add: num_workers_def seated_def)
  then have items: "queue_items (enqueue d x (que s)) = add_mset x (queue_items (que s))"
    by (intro queue_items_enqueue) (simp add: valid_dest_def d)
  have "deques (enqueue d x (que s)) a = deques (que s) a" if "a \<noteq> ctx_deque (ctxs s i)" for a
    using that by (simp add: enqueue_def d)
  with items show ?thesis
    by (intro own_worker [OF inv i, of s' "WPush r HLoadParked" "ctxs s i"]) (simp_all add: pc s')
qed

lemma own_foreign_push:
  assumes inv: "own_inv s" and "\<And>h. handle = Some h \<Longrightarrow> handle_queue h \<noteq> QID"
    and dest: "push_dest QID handle (shard_mask (que s)) hash cell = (d, cell')"
    and s': "s' = s\<lparr>que := enqueue d x (que s), ppcs := pp, routes := rt,
      pushed := add_mset x (pushed s)\<rparr>"
  shows "own_inv s'"
proof -
  have "wf_queue (que s)" using inv by (simp add: own_inv_def)
  then obtain j where d: "d = Shard j" "j < length (injectors (que s))"
    using push_dest_foreign [OF _ dest assms(2)] by blast
  then have items: "queue_items (enqueue d x (que s)) = add_mset x (queue_items (que s))"
    by (intro queue_items_enqueue) (simp add: valid_dest_def)
  have "deques (enqueue d x (que s)) = deques (que s)" by (simp add: enqueue_def d)
  with items show ?thesis
    by (intro own_other [OF inv, of s']) (simp_all add: s')
qed

lemma own_step:
  assumes inv: "own_inv s" and step: "sys_step s s'"
  shows "own_inv s'"
  using step
proof cases
  case (worker_pop i q' c' pc')
  with own_pop [OF inv] show ?thesis by blast
next
  case (worker_finish i r)
  then show ?thesis
    by (intro own_worker [OF inv, of i s' "WScan 0 SOwn" "ctxs s i"]) simp_all
next
  case (worker_unwind i r)
  then show ?thesis
    by (intro own_worker [OF inv, of i s' WStart "ctxs s i"]) simp_all
next
  case (self_push i r hash cell d cell' x)
  with own_self_push [OF inv] show ?thesis by blast
next
  case (self_hand i r h q' h')
  then show ?thesis
    by (intro own_worker [OF inv, of i s' "WPush r h'" "ctxs s i"])
      (simp_all add: hand_step_frame queue_items_cong [OF hand_step_frame(1,6,7)])
next
  case (self_return i r)
  then show ?thesis
    by (intro own_worker [OF inv, of i s' "WRun r" "ctxs s i"]) simp_all
next
  case (foreign_push p handle d cell' x)
  with own_foreign_push [OF inv] show ?thesis by blast
next
  case (push_elsewhere p msk target cell')
  then show ?thesis by (intro own_other [OF inv, of s']) simp_all
next
  case (foreign_hand p q' h')
  then show ?thesis
    by (intro own_other [OF inv, of s'])
      (simp_all add: hand_step_frame queue_items_cong [OF hand_step_frame(1,6,7)])
next
  case (closing q' k')
  then show ?thesis
    by (intro own_other [OF inv, of s'])
      (simp_all add: shutdown_step_frame queue_items_cong [OF shutdown_step_frame(1,6,7)])
qed

lemma own_init:
  assumes "sys_init s"
  shows "own_inv s"
proof -
  obtain nw ov where nw: "1 \<le> nw" "nw \<le> 512" "queue_new nw ov = Some (que s)"
    using assms by (auto simp: sys_init_def)
  note q = queue_new_fields [OF nw(3)] wf_queue_new [OF nw]
  from assms q show ?thesis
    by (simp add: own_inv_def sys_init_def slots_ok_def worker_ok_def held_def all_seated_def
        num_workers_def)
qed

interpretation ownership: invariant_system sys_init sys_step own_inv
  by unfold_locales (auto intro: own_init own_step)

section \<open>Property\<close>

text \<open>
  C14. Exactly once: in every reachable state the runnables ever pushed are, as a multiset, those
  in the queue's containers, those in the hands of one worker, and those run to the end. None
  is lost between containers or run twice, whatever the interleaving of pushes, batch
  steals, registrations and unwinding workers, and a deque belongs to one worker at a time.
\<close>
theorem every_runnable_accounted_for:
  assumes "reachable s"
  shows "pushed s = queue_items (que s) + held s + ran s
    \<and> (\<forall>i < num_workers s. \<forall>j < num_workers s. i \<noteq> j \<longrightarrow> wpcs s i \<noteq> WStart \<longrightarrow>
         wpcs s j \<noteq> WStart \<longrightarrow> ctx_deque (ctxs s i) \<noteq> ctx_deque (ctxs s j))"
proof -
  have inv: "own_inv s" by (rule ownership.reachable_inv [OF assms])
  have "ctx_deque (ctxs s i) \<noteq> ctx_deque (ctxs s j)"
    if "i < num_workers s" "j < num_workers s" "i \<noteq> j" "wpcs s i \<noteq> WStart" "wpcs s j \<noteq> WStart" for i j
    using seated_apart [of "que s" i "ctxs s i" j "ctxs s j"] inv that
    by (auto simp: own_inv_def worker_ok_def num_workers_def)
  with inv show ?thesis by (simp add: own_inv_def)
qed

theorem every_runnable_accounted_for_witness:
  "queue_items (que (lone lone_notified WWait HNotify CIdle {#7#})) = {#7#}"
proof -
  let ?s = "lone lone_notified WWait HNotify CIdle {#7#}"
  have "pushed ?s = queue_items (que ?s) + held ?s + ran ?s"
    using every_runnable_accounted_for [OF lone_notified_reachable] by blast
  moreover have "num_workers ?s = 1"
    by (simp add: lone_def num_workers_def lone_notified_def lone_asleep_def lone_started_def
        lone_queue_def)
  then have "held ?s = {#}" by (simp add: held_def lone_def)
  ultimately show ?thesis by (simp add: lone_def)
qed

text \<open>
  C19. Every index and address the code uses is valid: in every reachable state the injector
  table has \<open>2^k\<close> entries with \<open>2^k - 1\<close> as its mask, a started worker sits in its own
  slot with an allocated deque that no other slot leads to, its preferred injector exists, and
  every victim left in the walk it is in is an existing injector, or the slot of another
  worker. No scan can panic on an index, and no worker steals from itself.
\<close>
theorem every_index_in_range:
  assumes "reachable s" and "i < num_workers s" and "wpcs s i \<noteq> WStart"
  shows "(\<exists>k\<le>9. length (injectors (que s)) = 2 ^ k \<and> shard_mask (que s) = 2 ^ k - 1)
    \<and> ctx_idx (ctxs s i) = i \<and> stealers (que s) ! i = Some (ctx_deque (ctxs s i))
    \<and> ctx_deque (ctxs s i) < next_addr (que s)
    \<and> (\<forall>j < num_workers s. j \<noteq> i \<longrightarrow> stealers (que s) ! j \<noteq> Some (ctx_deque (ctxs s i)))
    \<and> my_shard (que s) (ctxs s i) < length (injectors (que s))
    \<and> (\<forall>b js. (\<exists>k. wpcs s i = WScan k (SShards b js)) \<or> wpcs s i = WRescan (SShards b js) \<longrightarrow>
         set js \<subseteq> {..<length (injectors (que s))})
    \<and> (\<forall>b vs. (\<exists>k. wpcs s i = WScan k (SPeers b vs)) \<or> wpcs s i = WRescan (SPeers b vs) \<longrightarrow>
         set vs \<subseteq> {..<num_workers s} - {i})"
proof -
  have inv: "own_inv s" by (rule ownership.reachable_inv [OF assms(1)])
  then have wf: "wf_queue (que s)" and sl: "slots_ok (que s)" by (simp_all add: own_inv_def)
  have seat: "seated (que s) i (ctxs s i)" and ok: "own_ok (que s) (ctxs s i) (wpcs s i)"
    using inv assms(2,3) by (auto simp: own_inv_def worker_ok_def)
  have reg: "registered (que s) (ctxs s i)"
    using seated_registered [OF sl seat] assms(2) by (simp add: num_workers_def)
  have walks: "(\<forall>b js. (\<exists>k. wpcs s i = WScan k (SShards b js)) \<or> wpcs s i = WRescan (SShards b js) \<longrightarrow>
         set js \<subseteq> {..<length (injectors (que s))})
    \<and> (\<forall>b vs. (\<exists>k. wpcs s i = WScan k (SPeers b vs)) \<or> wpcs s i = WRescan (SPeers b vs) \<longrightarrow>
         set vs \<subseteq> {..<num_workers s} - {i})"
    using ok seat by (auto simp: seated_def num_workers_def)
  have "my_shard (que s) (ctxs s i) < length (injectors (que s))"
    using wf_queue_mask_less [OF wf] by (simp add: my_shard_def)
  moreover have "\<exists>k\<le>9. length (injectors (que s)) = 2 ^ k \<and> shard_mask (que s) = 2 ^ k - 1"
    using wf by (simp add: wf_queue_def)
  moreover have "ctx_idx (ctxs s i) = i" "stealers (que s) ! i = Some (ctx_deque (ctxs s i))"
    using seat by (simp_all add: seated_def)
  moreover have "ctx_deque (ctxs s i) < next_addr (que s)"
    using slots_okD(1) [OF sl] assms(2) calculation(4) by (simp add: num_workers_def)
  moreover have "\<forall>j < num_workers s. j \<noteq> i \<longrightarrow> stealers (que s) ! j \<noteq> Some (ctx_deque (ctxs s i))"
    using reg calculation(3) unfolding registered_def num_workers_def by blast
  ultimately show ?thesis using walks by blast
qed

theorem every_index_in_range_witness:
  "ctx_idx (ctxs (lone lone_asleep WWait HDone CIdle {#}) 0) = 0
    \<and> stealers lone_asleep ! 0 = Some 0 \<and> my_shard lone_asleep lone_context < 1"
  using every_index_in_range [OF lone_run_reachable [OF lone_asleep_run], of 0]
  by (simp add: lone_def num_workers_def lone_asleep_def lone_started_def lone_queue_def
      lone_context_def)

end
