(* ===== verification/Closing.thy ===== *)
theory Closing
  imports Ownership
begin

text \<open>
  \<open>Queue::shutdown\<close> against sleeping workers: only a worker that saw the flag leaves, and
  once the broadcast is out nobody sleeps or is about to.
\<close>

section \<open>Workers on their way out\<close>

fun quitting :: "'r wpc \<Rightarrow> bool" where
  "quitting (WAdjust a) \<longleftrightarrow> a = Quit"
| "quitting (WDisarm a) \<longleftrightarrow> a = Quit"
| "quitting (WUnlock a) \<longleftrightarrow> a = Quit"
| "quitting WExit \<longleftrightarrow> True"
| "quitting _ \<longleftrightarrow> False"

definition closing_inv :: "'r sys \<Rightarrow> bool" where
  "closing_inv s \<longleftrightarrow>
     (shutdown_flag (que s) \<longleftrightarrow> cpc s \<noteq> CIdle)
     \<and> (\<forall>i < num_workers s. quitting (wpcs s i) \<longrightarrow> shutdown_flag (que s))
     \<and> (cpc s \<in> {CNotify, CUnlock, CDone} \<longrightarrow> (\<forall>i < num_workers s. wpcs s i \<noteq> WSleep))
     \<and> (cpc s \<in> {CUnlock, CDone} \<longrightarrow> waiters (que s) = {})"

lemma pop_step_flag:
  "pop_step i (q, c, pc) (q', c', pc') \<Longrightarrow> shutdown_flag q' = shutdown_flag q"
  by (erule pop_stepE) (auto simp: register_frame dest: scan_frame(5))

lemma quitting_after_unlock [simp]: "quitting (after_unlock a) \<longleftrightarrow> a = Quit"
  by (cases a) auto

lemma pop_step_quitting:
  "pop_step i (q, c, pc) (q', c', pc') \<Longrightarrow> quitting pc' \<Longrightarrow> quitting pc \<or> shutdown_flag q"
  by (erule pop_stepE) auto

lemma pop_step_sleep:
  "pop_step i (q, c, pc) (q', c', pc') \<Longrightarrow> pc' = WSleep \<Longrightarrow> \<not> shutdown_flag q"
  by (erule pop_stepE) auto

lemma pop_step_no_new_waiter:
  "pop_step i (q, c, pc) (q', c', pc') \<Longrightarrow> pc \<noteq> WSleep \<Longrightarrow> waiters q' = waiters q"
  by (erule pop_stepE) (auto simp: register_frame dest: scan_frame(2) split: if_splits)

text \<open>A worker's step outside \<open>pop_blocking\<close>: neither quitting nor falling asleep.\<close>

lemma closing_worker:
  assumes "closing_inv s" and "num_workers s' = num_workers s"
    and "wpcs s' = (wpcs s)(i := pc')" and "cpc s' = cpc s"
    and "shutdown_flag (que s') = shutdown_flag (que s)"
    and "waiters (que s') \<subseteq> waiters (que s)"
    and "\<not> quitting pc'" and "pc' \<noteq> WSleep"
  shows "closing_inv s'"
  using assms by (auto simp: closing_inv_def)

lemma closing_other:
  assumes "closing_inv s" and "num_workers s' = num_workers s"
    and "wpcs s' = wpcs s" and "cpc s' = cpc s"
    and "shutdown_flag (que s') = shutdown_flag (que s)"
    and "waiters (que s') \<subseteq> waiters (que s)"
  shows "closing_inv s'"
  using assms by (auto simp: closing_inv_def)

lemma closing_pop:
  assumes inv: "closing_inv s" and n: "num_workers s' = num_workers s"
    and step: "pop_step i (que s, ctxs s i, wpcs s i) (q', c', pc')"
    and i: "i < num_workers s"
    and s': "wpcs s' = (wpcs s)(i := pc')" "cpc s' = cpc s" "que s' = q'"
  shows "closing_inv s'"
proof -
  have "waiters q' = {}" if "cpc s \<in> {CUnlock, CDone}"
    using inv that i pop_step_no_new_waiter [OF step] by (auto simp: closing_inv_def)
  moreover have "pc' \<noteq> WSleep" if "cpc s \<noteq> CIdle"
    using inv that pop_step_sleep [OF step] by (auto simp: closing_inv_def)
  moreover have "quitting pc' \<Longrightarrow> shutdown_flag (que s)"
    using inv i pop_step_quitting [OF step] by (auto simp: closing_inv_def)
  ultimately show ?thesis
    using inv unfolding closing_inv_def n s' pop_step_flag [OF step] by auto
qed

lemma closing_shutdown:
  assumes inv: "closing_inv s" and exact: "park_lock.exact s"
    and step: "shutdown_step (que s, cpc s) (q', k')" and s': "s' = s\<lparr>que := q', cpc := k'\<rparr>"
  shows "closing_inv s'"
proof -
  have pcs: "wpcs s' = wpcs s" "que s' = q'" "cpc s' = k'" by (simp_all add: s')
  have n: "num_workers s' = num_workers s"
    using shutdown_step_frame(2) [OF step] by (simp add: num_workers_def pcs)
  have nosleep: "wpcs s i \<noteq> WSleep" if "park (que s) = None" "i < num_workers s" for i
  proof
    assume "wpcs s i = WSleep"
    with that have "in_critical s (Wrk i)" by simp
    with exact that(1) show False unfolding park_lock.exact_def by (metis option.distinct(1))
  qed
  from step show ?thesis
  proof cases
    case store_flag
    then show ?thesis using inv unfolding closing_inv_def n pcs by auto
  next
    case close_lock
    then show ?thesis using inv nosleep unfolding closing_inv_def n pcs by auto
  next
    case notify_all
    then show ?thesis using inv unfolding closing_inv_def n pcs by auto
  next
    case close_unlock
    then show ?thesis using inv unfolding closing_inv_def n pcs by auto
  qed
qed

lemma closing_step:
  assumes inv: "closing_inv s" and exact: "park_lock.exact s" and step: "sys_step s s'"
  shows "closing_inv s'"
proof -
  note n = sys_step_workers [OF step]
  note worker = closing_worker [OF inv n] and other = closing_other [OF inv n]
  show ?thesis
    using step
  proof cases
    case (worker_pop i q' c' pc')
    then show ?thesis using closing_pop [OF inv n] by simp
  next
    case (worker_finish i r)
    then show ?thesis using worker [of i "WScan 0 SOwn"] by simp
  next
    case (worker_unwind i r)
    then show ?thesis using worker [of i WStart] by simp
  next
    case (self_push i r hash cell d cell' x)
    then show ?thesis using worker [of i "WPush r HLoadParked"] by simp
  next
    case (self_hand i r h q' h')
    then show ?thesis using worker [of i "WPush r h'"] by (simp add: hand_step_frame)
  next
    case (self_return i r)
    then show ?thesis using worker [of i "WRun r"] by simp
  next
    case (foreign_push p handle d cell' x)
    then show ?thesis using other by simp
  next
    case (push_elsewhere p msk target cell')
    then show ?thesis using other by simp
  next
    case (foreign_hand p q' h')
    then show ?thesis using other by (simp add: hand_step_frame)
  next
    case (closing q' k')
    with closing_shutdown [OF inv exact] show ?thesis by blast
  qed
qed

definition queue_inv :: "'r sys \<Rightarrow> bool" where
  "queue_inv s \<longleftrightarrow> acct_inv s \<and> own_inv s \<and> closing_inv s"

lemma closing_init:
  assumes "sys_init s"
  shows "closing_inv s"
proof -
  obtain nw ov where "queue_new nw ov = Some (que s)" using assms by (auto simp: sys_init_def)
  from queue_new_fields(6) [OF this] show ?thesis
    using assms by (simp add: closing_inv_def sys_init_def)
qed

lemma queue_inv_init: "sys_init s \<Longrightarrow> queue_inv s"
  unfolding queue_inv_def by (intro conjI acct_init own_init closing_init)

lemma queue_inv_step:
  assumes "queue_inv s" and "sys_step s s'"
  shows "queue_inv s'"
proof -
  have "acct_inv s" "own_inv s" "closing_inv s" "park_lock.exact s"
    using assms(1) by (simp_all add: queue_inv_def acct_inv_def)
  then show ?thesis
    unfolding queue_inv_def
    using acct_step [OF _ assms(2)] own_step [OF _ assms(2)] closing_step [OF _ _ assms(2)] by blast
qed

interpretation queue_system: invariant_system sys_init sys_step queue_inv
  by unfold_locales (erule queue_inv_init, erule queue_inv_step)

section \<open>Properties\<close>

text \<open>
  Shutdown reaches every sleeper: once \<open>shutdown\<close> has returned, no worker waits for a
  signal and none is about to, although the flag is stored without the mutex; and from the
  moment the broadcast has been issued it stays so.
\<close>
theorem shutdown_reaches_sleepers:
  assumes "reachable s" and "cpc s = CUnlock \<or> cpc s = CDone"
  shows "shutdown_flag (que s) \<and> waiters (que s) = {}
    \<and> (\<forall>i < num_workers s. wpcs s i \<noteq> WSleep)"
  using queue_system.reachable_inv [OF assms(1)] assms(2)
  by (auto simp: queue_inv_def closing_inv_def)

theorem shutdown_reaches_sleepers_witness:
  "shutdown_flag (que (lone lone_closed WExit HDone CDone {#}))
    \<and> waiters (que (lone lone_closed WExit HDone CDone {#})) = {}"
  using shutdown_reaches_sleepers [OF lone_run_reachable [OF lone_exited_run]]
  by (simp add: lone_def)

text \<open>
  A worker leaves only when told to, and cleanly: \<open>pop_blocking\<close> returns \<open>None\<close> only
  after \<open>shutdown\<close> has been called, with the worker's own deque empty and its share of
  \<open>parked\<close> given back.
\<close>
theorem workers_leave_only_after_shutdown:
  assumes "reachable s" and "i < num_workers s" and "wpcs s i = WExit"
  shows "shutdown_flag (que s) \<and> cpc s \<noteq> CIdle \<and> deques (que s) (ctx_deque (ctxs s i)) = []
    \<and> unat (parked (que s)) < num_workers s"
proof -
  have inv: "queue_inv s" by (rule queue_system.reachable_inv [OF assms(1)])
  then have "shutdown_flag (que s) \<and> cpc s \<noteq> CIdle"
    using assms(2,3) unfolding queue_inv_def closing_inv_def by (metis quitting.simps(4))
  moreover have "worker_ok (que s) i (ctxs s i) (wpcs s i)"
    using inv assms(2) by (simp add: queue_inv_def own_inv_def)
  then have "deques (que s) (ctx_deque (ctxs s i)) = []" by (simp add: worker_ok_def assms(3))
  moreover have "armed_count s < count_upto (num_workers s) (\<lambda>_. True)"
    by (rule count_upto_less [OF assms(2)]) (simp_all add: assms(3))
  then have "armed_count s < num_workers s"
    using count_upto_le [of "num_workers s" "\<lambda>_. True"] by linarith
  moreover have "unat (parked (que s)) = armed_count s"
    using inv by (simp add: queue_inv_def acct_inv_def parked_exact_def)
  ultimately show ?thesis by simp
qed

theorem workers_leave_only_after_shutdown_witness:
  "shutdown_flag (que (lone lone_closed WExit HDone CDone {#}))
    \<and> deques (que (lone lone_closed WExit HDone CDone {#})) 0 = []"
  using workers_leave_only_after_shutdown [OF lone_run_reachable [OF lone_exited_run], of 0]
  by (simp add: lone_def num_workers_def lone_closed_def lone_started_def lone_queue_def
      lone_context_def)

end
