(* ===== verification/Work_Bag.thy ===== *)
theory Work_Bag
  imports Ownership Closing
begin

text \<open>
  What the pool promises, without injectors, deques, scans, counters or mutex: a bag of
  waiting runnables from which idle workers take one at a time, and a gate that workers pass
  only when it has been closed. The queue of \<open>src/queue.rs\<close> and the worker loop refine it,
  with respawns: whatever order the threads interleave in, the pool is that bag.
\<close>

section \<open>The specification\<close>

record 'r bag =
  waiting :: "'r multiset"
  hands :: "nat \<Rightarrow> 'r option"
  finished :: "'r multiset"
  closed :: bool
  departed :: "nat set"

definition bag_init :: "'r bag \<Rightarrow> bool" where
  "bag_init b \<longleftrightarrow> b = \<lparr>waiting = {#}, hands = (\<lambda>_. None), finished = {#}, closed = False, departed = {}\<rparr>"

inductive bag_step :: "'r bag \<Rightarrow> 'r bag \<Rightarrow> bool" where
  submit: "bag_step b (b\<lparr>waiting := add_mset x (waiting b)\<rparr>)"
| take_one:
    "waiting b = add_mset r rest \<Longrightarrow> hands b i = None \<Longrightarrow> i \<notin> departed b \<Longrightarrow>
     bag_step b (b\<lparr>waiting := rest, hands := (hands b)(i := Some r)\<rparr>)"
| finish_one:
    "hands b i = Some r \<Longrightarrow>
     bag_step b (b\<lparr>hands := (hands b)(i := None), finished := add_mset r (finished b)\<rparr>)"
| close_gate: "\<not> closed b \<Longrightarrow> bag_step b (b\<lparr>closed := True\<rparr>)"
| depart:
    "closed b \<Longrightarrow> hands b i = None \<Longrightarrow> bag_step b (b\<lparr>departed := insert i (departed b)\<rparr>)"

section \<open>The abstraction\<close>

fun found_one :: "'r scan_pc \<Rightarrow> 'r option" where
  "found_one (SDone res) = res"
| "found_one _ = None"

fun after_one :: "'r after \<Rightarrow> 'r option" where
  "after_one (Got r) = Some r"
| "after_one _ = None"

fun hand_of :: "'r wpc \<Rightarrow> 'r option" where
  "hand_of (WScan k pc) = found_one pc"
| "hand_of (WRescan pc) = found_one pc"
| "hand_of (WAdjust a) = after_one a"
| "hand_of (WDisarm a) = after_one a"
| "hand_of (WUnlock a) = after_one a"
| "hand_of (WRun r) = Some r"
| "hand_of (WPush r h) = Some r"
| "hand_of _ = None"

lemma in_hand_of: "in_hand pc = (case hand_of pc of None \<Rightarrow> {#} | Some r \<Rightarrow> {#r#})"
proof (cases pc)
  case (WScan k pc1)
  then show ?thesis by (cases pc1) (auto split: option.split)
next
  case (WRescan pc1)
  then show ?thesis by (cases pc1) (auto split: option.split)
next
  case (WAdjust a)
  then show ?thesis by (cases a) auto
next
  case (WDisarm a)
  then show ?thesis by (cases a) auto
next
  case (WUnlock a)
  then show ?thesis by (cases a) auto
qed simp_all

definition bag_of :: "'r sys \<Rightarrow> 'r bag" where
  "bag_of s = \<lparr>waiting = queue_items (que s), hands = (\<lambda>i. hand_of (wpcs s i)), finished = ran s,
     closed = shutdown_flag (que s), departed = {i. i < num_workers s \<and> wpcs s i = WExit}\<rparr>"

section \<open>Every step is a step of the bag\<close>

lemma hand_of_after_unlock [simp]: "hand_of (after_unlock a) = after_one a"
  by (cases a) auto

lemma after_unlock_exit [simp]: "after_unlock a = WExit \<longleftrightarrow> a = Quit"
  by (cases a) auto

text \<open>A worker's step inside \<open>pop_blocking\<close> keeps what it holds, unless its scan succeeds.\<close>

lemma pop_step_hand:
  "pop_step i (q, c, pc) (q', c', pc') \<Longrightarrow> hand_of pc' = hand_of pc \<or> hand_of pc = None"
proof (erule pop_stepE)
  fix stl pc1 pc2 k
  assume "pc = WScan k pc1" "scan_finished (q, c, pc1) = None"
  then show ?thesis by (cases pc1) auto
next
  fix stl pc1 pc2
  assume "pc = WRescan pc1" "scan_finished (q, c, pc1) = None"
  then show ?thesis by (cases pc1) auto
qed auto

lemma pop_step_exit:
  "pop_step i (q, c, pc) (q', c', pc') \<Longrightarrow> pc' = WExit \<Longrightarrow> pc = WUnlock Quit \<and> q' = q\<lparr>park := None\<rparr>"
  by (erule pop_stepE) (auto split: after.splits)

lemma pop_step_not_exit: "pop_step i (q, c, pc) (q', c', pc') \<Longrightarrow> pc \<noteq> WExit"
  by (erule pop_stepE) auto

lemma started_worker:
  assumes "own_inv s" and "i < num_workers s" and "wpcs s i \<noteq> WStart"
  shows "wf_queue (que s)" "registered (que s) (ctxs s i)" "own_ok (que s) (ctxs s i) (wpcs s i)"
proof -
  have "worker_ok (que s) i (ctxs s i) (wpcs s i)" and "slots_ok (que s)"
    using assms(1,2) by (simp_all add: own_inv_def)
  then show "registered (que s) (ctxs s i)" "own_ok (que s) (ctxs s i) (wpcs s i)"
    using assms(2,3) seated_registered by (auto simp: worker_ok_def num_workers_def)
  show "wf_queue (que s)" using assms(1) by (simp add: own_inv_def)
qed

lemma register_items:
  assumes "register_worker i q = Some (q', c')"
  shows "queue_items q' = queue_items q"
  using assms by (auto simp: register_worker_def Let_def queue_items_def lessThan_Suc
      split: if_splits intro!: sum.cong)

lemma pop_step_items:
  assumes "own_inv s" and "i < num_workers s"
    and "pop_step i (que s, ctxs s i, wpcs s i) (q', c', pc')"
  shows "queue_items q' + in_hand pc' = queue_items (que s) + in_hand (wpcs s i)"
proof (cases "wpcs s i = WStart")
  case True
  with assms(3) show ?thesis by (auto elim!: pop_stepE simp: register_items)
next
  case False
  from pop_step_keeps [OF started_worker [OF assms(1,2) False] False assms(3)] show ?thesis
    by (simp add: pop_keeps_def)
qed

lemma bag_pop:
  assumes own: "own_inv s" and closing: "closing_inv s" and i: "i < num_workers s"
    and step: "pop_step i (que s, ctxs s i, wpcs s i) (q', c', pc')"
    and s': "s' = s\<lparr>que := q', ctxs := (ctxs s)(i := c'), wpcs := (wpcs s)(i := pc')\<rparr>"
  shows "bag_of s' = bag_of s \<or> bag_step (bag_of s) (bag_of s')"
proof -
  have n: "num_workers s' = num_workers s"
    using pop_step_slots [OF step] by (simp add: s' num_workers_def)
  have flag: "shutdown_flag q' = shutdown_flag (que s)" by (rule pop_step_flag [OF step])
  have here: "wpcs s i \<noteq> WExit" by (rule pop_step_not_exit [OF step])
  note items = pop_step_items [OF own i step]
  have hands: "hands (bag_of s') = (hands (bag_of s))(i := hand_of pc')"
    by (auto simp: bag_of_def s')
  show ?thesis
  proof (cases "pc' = WExit")
    case True
    with pop_step_exit [OF step] have exit: "wpcs s i = WUnlock Quit" "q' = que s\<lparr>park := None\<rparr>"
      by auto
    then have "closed (bag_of s)"
      using closing i by (auto simp: bag_of_def closing_inv_def)
    moreover have "hands (bag_of s) i = None" by (simp add: bag_of_def exit(1))
    ultimately have "bag_step (bag_of s) ((bag_of s)\<lparr>departed := insert i (departed (bag_of s))\<rparr>)"
      by (rule depart)
    moreover have "bag_of s' = (bag_of s)\<lparr>departed := insert i (departed (bag_of s))\<rparr>"
      using True exit i n by (auto simp: bag_of_def s' queue_items_def)
    ultimately show ?thesis by simp
  next
    case stays: False
    then have departed: "departed (bag_of s') = departed (bag_of s)"
      using here n by (auto simp: bag_of_def s')
    show ?thesis
    proof (cases "hand_of pc' = hand_of (wpcs s i)")
      case True
      with items have "queue_items q' = queue_items (que s)" by (simp add: in_hand_of)
      moreover have "hands (bag_of s') = hands (bag_of s)"
        unfolding hands using True by (intro fun_upd_idem) (simp add: bag_of_def)
      ultimately have "bag_of s' = bag_of s"
        using departed flag by (intro bag.equality) (simp_all add: bag_of_def s')
      then show ?thesis ..
    next
      case False
      with pop_step_hand [OF step] obtain r where r: "hand_of (wpcs s i) = None" "hand_of pc' = Some r"
        by (cases "hand_of pc'") auto
      with items have "waiting (bag_of s) = add_mset r (queue_items q')"
        by (simp add: bag_of_def in_hand_of)
      moreover have "hands (bag_of s) i = None" "i \<notin> departed (bag_of s)"
        using r(1) here by (simp_all add: bag_of_def)
      ultimately have "bag_step (bag_of s)
          ((bag_of s)\<lparr>waiting := queue_items q', hands := (hands (bag_of s))(i := Some r)\<rparr>)"
        by (rule take_one)
      moreover have "bag_of s'
          = (bag_of s)\<lparr>waiting := queue_items q', hands := (hands (bag_of s))(i := Some r)\<rparr>"
        using hands departed flag r(2) by (simp add: bag_of_def s')
      ultimately show ?thesis by simp
    qed
  qed
qed

text \<open>Steps that touch neither the containers, nor what workers hold, nor the gate.\<close>

lemma bag_same:
  assumes "queue_items (que s') = queue_items (que s)" and "ran s' = ran s"
    and "shutdown_flag (que s') = shutdown_flag (que s)" and "num_workers s' = num_workers s"
    and "\<And>i. hand_of (wpcs s' i) = hand_of (wpcs s i)"
    and "\<And>i. wpcs s' i = WExit \<longleftrightarrow> wpcs s i = WExit"
  shows "bag_of s' = bag_of s"
  using assms by (simp add: bag_of_def)

lemma bag_finish:
  assumes "wpcs s i = WRun r" and "wpcs s' = (wpcs s)(i := pc')" and "ran s' = add_mset r (ran s)"
    and "que s' = que s" and "hand_of pc' = None" and "pc' \<noteq> WExit"
  shows "bag_step (bag_of s) (bag_of s')"
proof -
  have "hands (bag_of s) i = Some r" by (simp add: bag_of_def assms(1))
  from finish_one [OF this] show ?thesis
  proof (rule back_subst [where P = "bag_step (bag_of s)"])
    show "(bag_of s)\<lparr>hands := (hands (bag_of s))(i := None),
        finished := add_mset r (finished (bag_of s))\<rparr> = bag_of s'"
      using assms by (auto simp: bag_of_def num_workers_def)
  qed
qed

lemma bag_submit:
  assumes "queue_items (que s') = add_mset x (queue_items (que s))" and "ran s' = ran s"
    and "shutdown_flag (que s') = shutdown_flag (que s)" and "num_workers s' = num_workers s"
    and "\<And>i. hand_of (wpcs s' i) = hand_of (wpcs s i)"
    and "\<And>i. wpcs s' i = WExit \<longleftrightarrow> wpcs s i = WExit"
  shows "bag_step (bag_of s) (bag_of s')"
  using submit [of "bag_of s" x] assms by (simp add: bag_of_def)

text \<open>A push adds exactly its runnable to what the queue holds.\<close>

lemma pushed_items:
  assumes "own_inv s" and "own_inv s'" and "held s' = held s" and "ran s' = ran s"
    and "pushed s' = add_mset x (pushed s)"
  shows "queue_items (que s') = add_mset x (queue_items (que s))"
  using assms by (simp add: own_inv_def)

lemma bag_close:
  assumes closing: "closing_inv s" and step: "shutdown_step (que s, cpc s) (q', k')"
    and s': "s' = s\<lparr>que := q', cpc := k'\<rparr>"
  shows "bag_of s' = bag_of s \<or> bag_step (bag_of s) (bag_of s')"
proof -
  have items: "queue_items q' = queue_items (que s)"
    by (rule queue_items_cong) (simp_all add: shutdown_step_frame [OF step])
  have n: "num_workers s' = num_workers s"
    by (simp add: num_workers_def s' shutdown_step_frame [OF step])
  show ?thesis
  proof (cases "cpc s = CIdle")
    case True
    with step have q': "q' = que s\<lparr>shutdown_flag := True\<rparr>" by (auto elim: shutdown_stepE)
    have "\<not> closed (bag_of s)" using closing True by (simp add: bag_of_def closing_inv_def)
    from close_gate [OF this] show ?thesis using s' n items by (simp add: bag_of_def q')
  next
    case False
    with step have "shutdown_flag q' = shutdown_flag (que s)" by (auto elim: shutdown_stepE)
    with s' items n show ?thesis by (intro disjI1 bag_same) simp_all
  qed
qed

lemma bag_simulates:
  assumes inv: "queue_inv s" and step: "sys_step s s'"
  shows "bag_of s' = bag_of s \<or> bag_step (bag_of s) (bag_of s')"
proof -
  have own: "own_inv s" and closing: "closing_inv s" using inv by (simp_all add: queue_inv_def)
  note own' = own_step [OF own step] and n = sys_step_workers [OF step]
  show ?thesis
    using step
  proof cases
    case (worker_pop i q' c' pc')
    with bag_pop [OF own closing] show ?thesis by blast
  next
    case (worker_finish i r)
    then show ?thesis by (intro disjI2 bag_finish [of s i r s' "WScan 0 SOwn"]) simp_all
  next
    case (worker_unwind i r)
    then show ?thesis by (intro disjI2 bag_finish [of s i r s' WStart]) simp_all
  next
    case (self_push i r hash cell d cell' x)
    have "held s' = held s"
      using held_upd [OF self_push(2) n, of "WPush r HLoadParked"] self_push(1,3) by simp
    with self_push have "queue_items (que s') = add_mset x (queue_items (que s))"
      by (intro pushed_items [OF own own']) simp_all
    then show ?thesis using self_push n by (intro disjI2 bag_submit) simp_all
  next
    case (self_hand i r h q' h')
    have "queue_items q' = queue_items (que s)"
      by (rule queue_items_cong) (simp_all add: hand_step_frame [OF self_hand(4)])
    then show ?thesis
      using self_hand n hand_step_frame(5) [OF self_hand(4)] by (intro disjI1 bag_same) simp_all
  next
    case (self_return i r)
    then show ?thesis using n by (intro disjI1 bag_same) simp_all
  next
    case (foreign_push p handle d cell' x)
    have "held s' = held s" by (rule held_same [OF n]) (simp add: foreign_push(1))
    with foreign_push have "queue_items (que s') = add_mset x (queue_items (que s))"
      by (intro pushed_items [OF own own']) simp_all
    then show ?thesis using foreign_push n by (intro disjI2 bag_submit) simp_all
  next
    case (push_elsewhere p msk target cell')
    then show ?thesis using n by (intro disjI1 bag_same) simp_all
  next
    case (foreign_hand p q' h')
    have "queue_items q' = queue_items (que s)"
      by (rule queue_items_cong) (simp_all add: hand_step_frame [OF foreign_hand(2)])
    then show ?thesis
      using foreign_hand n hand_step_frame(5) [OF foreign_hand(2)]
      by (intro disjI1 bag_same) simp_all
  next
    case (closing q' k')
    then show ?thesis by (intro bag_close [OF \<open>closing_inv s\<close>]) simp_all
  qed
qed

lemma bag_of_init:
  assumes "sys_init s"
  shows "bag_init (bag_of s)"
proof -
  have "own_inv s" by (rule own_init [OF assms])
  with assms have "queue_items (que s) + held s = {#}" by (auto simp: own_inv_def sys_init_def)
  then have "queue_items (que s) = {#}" by simp
  moreover obtain nw ov where "queue_new nw ov = Some (que s)"
    using assms by (auto simp: sys_init_def)
  ultimately show ?thesis
    using assms by (simp add: bag_init_def bag_of_def sys_init_def queue_new_fields)
qed

interpretation bag: refinement sys_init sys_step queue_inv bag_of bag_init bag_step
  by unfold_locales (erule bag_of_init, erule (1) bag_simulates)

section \<open>Property\<close>

text \<open>
  C12. The pool is a bag of work with a gate: under the abstraction that forgets everything but
  the multiset of queued runnables, what each worker holds, what has been run, the shutdown
  flag and who has left, every reachable state is a state of that specification, and every
  step of every thread is one of its steps (a submission, an idle worker taking one runnable,
  the end of a run, the closing of the gate, a departure through it) or invisible.
\<close>
theorem pool_refines_bag:
  assumes "reachable s"
  shows "reachable_from bag_init bag_step (bag_of s)
    \<and> (sys_step s s' \<longrightarrow> bag_of s' = bag_of s \<or> bag_step (bag_of s) (bag_of s'))"
  using bag.abs_reachable [OF assms] bag.abs_stp [OF queue_system.reachable_inv [OF assms]] by blast

theorem pool_refines_bag_witness:
  "reachable_from bag_init bag_step (bag_of (lone lone_notified WWait HNotify CIdle {#7#}))"
  using pool_refines_bag [OF lone_notified_reachable] by blast

end
