(* ===== verification/Wakeup.thy ===== *)
theory Wakeup
  imports Closing
begin

text \<open>
  No lost wake-up. The argument of the module documentation of \<open>src/queue.rs\<close> as an
  invariant: as long as an injector holds a runnable, some worker is bound to look at it,
  or the push that will wake one is still in its handshake, or all workers have left.
\<close>

section \<open>Who will see a runnable\<close>

text \<open>
  Worker \<open>i\<close> is bound to inspect injector \<open>j\<close> before it sleeps (again): it is before or in
  the part of its armed scan that reaches \<open>j\<close>, or holds a runnable after which it scans
  again, or was signalled. \<open>W\<close> are the waiters not yet signalled.
\<close>

fun will_look :: "nat set \<Rightarrow> nat \<Rightarrow> 'r wpc \<Rightarrow> nat \<Rightarrow> bool" where
  "will_look W i (WRescan pc) j \<longleftrightarrow> looks_at pc j"
| "will_look W i WCheck j \<longleftrightarrow> False"
| "will_look W i WSleep j \<longleftrightarrow> False"
| "will_look W i WWait j \<longleftrightarrow> i \<notin> W"
| "will_look W i (WAdjust a) j \<longleftrightarrow> a \<noteq> Quit"
| "will_look W i (WDisarm a) j \<longleftrightarrow> a \<noteq> Quit"
| "will_look W i (WUnlock a) j \<longleftrightarrow> a \<noteq> Quit"
| "will_look W i WExit j \<longleftrightarrow> False"
| "will_look W i _ j \<longleftrightarrow> True"

definition someone_looks :: "'r sys \<Rightarrow> nat \<Rightarrow> bool" where
  "someone_looks s j \<longleftrightarrow> (\<exists>i < num_workers s. will_look (waiters (que s)) i (wpcs s i) j)"

text \<open>A push whose handshake may still signal a worker.\<close>

fun pending :: "hand_pc \<Rightarrow> bool" where
  "pending HLoadParked = True"
| "pending (HLoadNotified p) = (p \<noteq> 0)"
| "pending HLock = True"
| "pending HRecheck = True"
| "pending HNotify = True"
| "pending _ = False"

definition push_pending :: "'r sys \<Rightarrow> bool" where
  "push_pending s \<longleftrightarrow> (\<exists>t h. at_hand s t h \<and> pending h)"

fun gone :: "'r wpc \<Rightarrow> bool" where
  "gone (WUnlock a) \<longleftrightarrow> a = Quit"
| "gone WExit \<longleftrightarrow> True"
| "gone _ \<longleftrightarrow> False"

definition all_gone :: "'r sys \<Rightarrow> bool" where
  "all_gone s \<longleftrightarrow> (\<forall>i < num_workers s. gone (wpcs s i))"

definition covered :: "'r sys \<Rightarrow> nat \<Rightarrow> bool" where
  "covered s j \<longleftrightarrow> injectors (que s) ! j = [] \<or> someone_looks s j \<or> push_pending s \<or> all_gone s"

definition wake_inv :: "'r sys \<Rightarrow> bool" where
  "wake_inv s \<longleftrightarrow> (\<forall>j < length (injectors (que s)). covered s j)"

section \<open>Nobody looks\<close>

text \<open>
  If nobody is bound to look at \<open>j\<close>, no worker is between its signal and its next scan, so
  \<open>notified\<close> is zero but for a producer that is about to signal; and if moreover
  \<open>parked\<close> is zero, everybody has left.
\<close>

lemma unseen_notified:
  assumes "acct_inv s" and "\<not> someone_looks s j"
  shows "unat (notified (que s)) \<le> of_bool (notifying s)"
proof -
  have "\<not> woken (que s) i (wpcs s i)" if "i < num_workers s" for i
    using assms(2) that by (auto simp: someone_looks_def woken_def)
  then have "woken_count s = 0" by (simp add: count_upto_0_iff)
  with assms(1) show ?thesis by (simp add: acct_inv_def notified_bounded_def)
qed

lemma unseen_unparked:
  assumes "acct_inv s" and "\<not> someone_looks s j" and "parked (que s) = 0"
  shows "all_gone s"
  unfolding all_gone_def
proof (intro allI impI)
  fix i assume i: "i < num_workers s"
  have "armed_count s = 0" using assms(1,3) by (simp add: acct_inv_def parked_exact_def)
  with i have "\<not> armed (wpcs s i)" by (simp add: count_upto_0_iff)
  moreover have "\<not> will_look (waiters (que s)) i (wpcs s i) j"
    using assms(2) i by (auto simp: someone_looks_def)
  ultimately show "gone (wpcs s i)" by (cases "wpcs s i") auto
qed

section \<open>Worker steps\<close>

lemma will_look_mono: "will_look W i pc j \<Longrightarrow> i \<in> W' \<longrightarrow> i \<in> W \<Longrightarrow> will_look W' i pc j"
  by (cases pc) auto

lemma pop_step_look:
  assumes "wf_queue q" and "registered q c \<or> pc = WStart" and "own_ok q c pc"
    and j: "j < length (injectors q)"
    and look: "will_look (waiters q) i pc j" and full: "injectors q' ! j \<noteq> []"
    and step: "pop_step i (q, c, pc) (q', c', pc')"
  shows "will_look (waiters q') i pc' j"
  using step
proof cases
  case (strict_scan stl pc1 pc2)
  from strict_scan assms(2,3) have "registered q c" "pc_ok q c pc1" by auto
  from scan_step_looks_at [OF assms(1) this(1) strict_scan(3) this(2) exhaustive_Strict j
      strict_scan(5)] strict_scan look full
  show ?thesis by simp
next
  case (pop_unlock a)
  with look show ?thesis by (cases a) auto
qed (use look in auto)

lemma pop_step_gone: "pop_step i (q, c, pc) (q', c', pc') \<Longrightarrow> gone pc \<Longrightarrow> gone pc'"
  by (erule pop_stepE) auto

lemma pop_step_injectors:
  assumes "own_inv s" and i: "i < num_workers s"
    and step: "pop_step i (que s, ctxs s i, wpcs s i) (q', c', pc')"
  shows "length (injectors q') = length (injectors (que s))
    \<and> (\<forall>j. injectors (que s) ! j = [] \<longrightarrow> injectors q' ! j = [])"
proof (cases "wpcs s i = WStart")
  case True
  with step show ?thesis by (auto elim!: pop_stepE simp: register_frame)
next
  case False
  have wok: "worker_ok (que s) i (ctxs s i) (wpcs s i)" and "wf_queue (que s)" "slots_ok (que s)"
    using assms(1) i by (simp_all add: own_inv_def)
  with False pop_step_keeps [OF _ _ _ False step] seated_registered i show ?thesis
    by (auto simp: worker_ok_def num_workers_def pop_keeps_def)
qed

text \<open>Once somebody is bound to look at \<open>j\<close>, that stays so until \<open>j\<close> is empty.\<close>

lemma looks_pop:
  assumes own: "own_inv s" and i: "i < num_workers s"
    and step: "pop_step i (que s, ctxs s i, wpcs s i) (q', c', pc')"
    and n: "num_workers s' = num_workers s" and s': "wpcs s' = (wpcs s)(i := pc')" "que s' = q'"
    and j: "j < length (injectors (que s))" and full: "injectors q' ! j \<noteq> []"
    and looks: "someone_looks s j"
  shows "someone_looks s' j"
proof -
  have wok: "worker_ok (que s) i (ctxs s i) (wpcs s i)" and wf: "wf_queue (que s)"
    and sl: "slots_ok (que s)"
    using own i by (simp_all add: own_inv_def)
  have reg: "registered (que s) (ctxs s i) \<or> wpcs s i = WStart"
    using wok seated_registered [OF sl] i by (auto simp: worker_ok_def num_workers_def)
  have ok: "own_ok (que s) (ctxs s i) (wpcs s i)" using wok by (simp add: worker_ok_def)
  from looks obtain k where k: "k < num_workers s" "will_look (waiters (que s)) k (wpcs s k) j"
    by (auto simp: someone_looks_def)
  have "will_look (waiters q') k (wpcs s' k) j"
  proof (cases "k = i")
    case True
    with k pop_step_look [OF wf reg ok j _ full step] show ?thesis by (simp add: s')
  next
    case False
    with k pop_step_waiters [OF step] show ?thesis by (auto simp: s' elim: will_look_mono)
  qed
  with k n show ?thesis by (auto simp: someone_looks_def s')
qed

lemma looks_fewer_waiters:
  assumes "someone_looks s j" and "num_workers s' = num_workers s" and "wpcs s' = wpcs s"
    and "waiters (que s') \<subseteq> waiters (que s)"
  shows "someone_looks s' j"
  using assms by (auto simp: someone_looks_def elim!: will_look_mono)

lemma wake_pop:
  assumes inv: "queue_inv s" and wake: "wake_inv s" and i: "i < num_workers s"
    and step: "pop_step i (que s, ctxs s i, wpcs s i) (q', c', pc')"
    and n: "num_workers s' = num_workers s"
    and s': "wpcs s' = (wpcs s)(i := pc')" "ppcs s' = ppcs s" "que s' = q'"
  shows "wake_inv s'"
  unfolding wake_inv_def
proof (intro allI impI)
  fix j assume j: "j < length (injectors (que s'))"
  have own: "own_inv s" using inv by (simp add: queue_inv_def)
  note inj = pop_step_injectors [OF own i step]
  have j': "j < length (injectors (que s))" using j inj by (simp add: s')
  show "covered s' j"
  proof (cases "injectors q' ! j = []")
    case True
    then show ?thesis by (simp add: covered_def s')
  next
    case full: False
    with inj have "injectors (que s) ! j \<noteq> []" by metis
    with wake j' have "someone_looks s j \<or> push_pending s \<or> all_gone s"
      by (auto simp: wake_inv_def covered_def)
    then show ?thesis
    proof (elim disjE)
      assume "someone_looks s j"
      with looks_pop [OF own i step n s'(1,3) j' full] show ?thesis by (simp add: covered_def)
    next
      assume "push_pending s"
      then obtain t h where t: "at_hand s t h" "pending h" by (auto simp: push_pending_def)
      then have "t \<noteq> Wrk i" using pop_step_no_push [OF step] by auto
      with t at_hand_others(1) [OF n s'(1,2)] have "push_pending s'" by (auto simp: push_pending_def)
      then show ?thesis by (simp add: covered_def)
    next
      assume "all_gone s"
      with i pop_step_gone [OF step] have "all_gone s'" by (auto simp: all_gone_def n s')
      then show ?thesis by (simp add: covered_def)
    qed
  qed
qed

text \<open>A worker that ends a step outside \<open>pop_blocking\<close> is bound to look everywhere.\<close>

lemma wake_looking:
  assumes "i < num_workers s'" and "\<And>W j. will_look W i (wpcs s' i) j"
  shows "wake_inv s'"
  using assms by (auto simp: wake_inv_def covered_def someone_looks_def)

section \<open>Handshake steps\<close>

lemma at_hand_notifying: "at_hand s t HNotify \<Longrightarrow> notifying s"
  by (auto simp: notifying_def)

text \<open>A push gives up its duty only if someone looks, another push is pending, or all left.\<close>

lemma hand_step_discharged:
  assumes inv: "acct_inv s" and at: "at_hand s t h" "\<And>h'. at_hand s t h' \<Longrightarrow> h' = h"
    and step: "hand_step t (que s, h) (q', h')"
    and duty: "pending h" and left: "\<not> pending h'" and unseen: "\<not> someone_looks s j"
    and nobody: "\<And>i. i < num_workers s \<Longrightarrow> wpcs s i = WWait \<Longrightarrow> i \<in> waiters q'"
  shows "all_gone s \<or> (\<exists>u. u \<noteq> t \<and> at_hand s u HNotify)"
  using step
proof cases
  case load_parked
  with left unseen_unparked [OF inv unseen] show ?thesis by simp
next
  case (load_notified_skip p)
  then have "0 < unat (notified (que s))" using duty
    by (metis less_eq_word_def not_less pending.simps(2) unat_gt_0 word_gt_0 word_le_less_eq
        word_less_nat_alt order_less_le_trans)
  with unseen_notified [OF inv unseen] have "notifying s" by (cases "notifying s") simp_all
  then obtain u where u: "at_hand s u HNotify" by (auto simp: notifying_def)
  have "u \<noteq> t" using u at(2) [of HNotify] load_notified_skip by auto
  with u show ?thesis by blast
next
  case recheck_skip
  have crit: "in_critical s t" using at(1) recheck_skip by (auto intro: at_hand_critical)
  have "\<not> notifying s"
  proof
    assume "notifying s"
    then obtain u where u: "at_hand s u HNotify" by (auto simp: notifying_def)
    with crit inv have "u = t"
      by (auto simp: acct_inv_def intro: park_lock.exclusion dest: at_hand_critical)
    with u at(2) recheck_skip show False by auto
  qed
  with unseen_notified [OF inv unseen] have "notified (que s) = 0" by (simp add: unat_eq_0)
  with recheck_skip have "parked (que s) = 0" by (simp add: word_gt_0)
  with unseen_unparked [OF inv unseen] show ?thesis by simp
next
  case (notify_waiter w)
  with inv have "w < num_workers s" "wpcs s w = WWait"
    by (auto simp: acct_inv_def waiters_wait_def)
  with nobody [of w] notify_waiter show ?thesis by simp
next
  case notify_nobody
  have "1 \<le> armed_count s"
    using inv at_hand_notifying [of s t] at(1) notify_nobody
    by (auto simp: acct_inv_def notified_bounded_def)
  also have "armed_count s \<le> woken_count s"
    by (rule nobody_waits [OF inv at(1)]) (use notify_nobody in auto)
  finally have "0 < woken_count s" by simp
  then obtain i where "i < num_workers s" "woken (que s) i (wpcs s i)"
    unfolding count_upto_pos_iff by blast
  with unseen show ?thesis by (auto simp: someone_looks_def woken_def)
qed (use duty left in auto)

lemma wake_foreign_hand:
  assumes inv: "queue_inv s" and wake: "wake_inv s"
    and step: "hand_step (Prod p) (que s, ppcs s p) (q', h')"
    and s': "wpcs s' = wpcs s" "ppcs s' = (ppcs s)(p := h')" "que s' = q'"
  shows "wake_inv s'"
  unfolding wake_inv_def
proof (intro allI impI)
  fix j assume j: "j < length (injectors (que s'))"
  have acct: "acct_inv s" using inv by (simp add: queue_inv_def)
  note frame = hand_step_frame [OF step]
  have n: "num_workers s' = num_workers s" by (simp add: num_workers_def s' frame)
  note others = at_hand_others(2) [OF n s'(1,2)]
  have looks: "someone_looks s' j" if "someone_looks s j"
    by (rule looks_fewer_waiters [OF that n s'(1)]) (simp add: s' frame(8))
  have gone: "all_gone s' = all_gone s" by (simp add: all_gone_def n s')
  from wake j frame have "covered s j" by (simp add: wake_inv_def s')
  then consider "injectors (que s) ! j = [] \<or> someone_looks s j \<or> all_gone s"
    | (duty) t h where "at_hand s t h" "pending h" "\<not> someone_looks s j"
    by (auto simp: covered_def push_pending_def)
  then show "covered s' j"
  proof cases
    case 1
    with looks gone frame show ?thesis by (auto simp: covered_def s')
  next
    case duty
    show ?thesis
    proof (cases "t = Prod p \<and> \<not> pending h'")
      case False
      then have "\<exists>h. at_hand s' t h \<and> pending h"
        using duty others [of t] s'(2) by (cases "t = Prod p") auto
      then have "push_pending s'" by (auto simp: push_pending_def)
      then show ?thesis by (simp add: covered_def)
    next
      case True
      show ?thesis
      proof (cases "\<forall>i < num_workers s. wpcs s i = WWait \<longrightarrow> i \<in> waiters q'")
        case False
        then have "someone_looks s' j" by (auto simp: someone_looks_def n s')
        then show ?thesis by (simp add: covered_def)
      next
        case waits: True
        have h: "h = ppcs s p" using True duty(1) by simp
        have "all_gone s \<or> (\<exists>u. u \<noteq> t \<and> at_hand s u HNotify)"
          by (rule hand_step_discharged [OF acct duty(1) _ _ duty(2) _ duty(3)])
            (use True step waits h in auto)
        then show ?thesis
        proof
          assume "all_gone s"
          then show ?thesis by (simp add: covered_def gone)
        next
          assume "\<exists>u. u \<noteq> t \<and> at_hand s u HNotify"
          then obtain u where "at_hand s' u HNotify" using others True by auto
          then show ?thesis unfolding covered_def push_pending_def using pending.simps(5) by blast
        qed
      qed
    qed
  qed
qed

section \<open>All steps\<close>

lemma wake_foreign_push:
  assumes "ppcs s' p = HLoadParked"
  shows "wake_inv s'"
proof -
  have "at_hand s' (Prod p) HLoadParked" using assms by simp
  then have "push_pending s'" unfolding push_pending_def using pending.simps(1) by blast
  then show ?thesis by (simp add: wake_inv_def covered_def)
qed

lemma wake_closing:
  assumes wake: "wake_inv s" and step: "shutdown_step (que s, cpc s) (q', k')"
    and s': "s' = s\<lparr>que := q', cpc := k'\<rparr>"
  shows "wake_inv s'"
proof -
  have pcs: "wpcs s' = wpcs s" "ppcs s' = ppcs s" "que s' = q'" by (simp_all add: s')
  note frame = shutdown_step_frame [OF step]
  have n: "num_workers s' = num_workers s" by (simp add: num_workers_def pcs frame)
  have "at_hand s' t h = at_hand s t h" for t h by (cases t) (simp_all add: n pcs)
  then have "push_pending s' = push_pending s" by (simp add: push_pending_def)
  moreover have "someone_looks s' j" if "someone_looks s j" for j
    by (rule looks_fewer_waiters [OF that n pcs(1)]) (simp add: pcs frame(8))
  moreover have "all_gone s' = all_gone s" by (simp add: all_gone_def n pcs)
  ultimately show ?thesis
    using wake by (auto simp: wake_inv_def covered_def pcs frame)
qed

lemma wake_step:
  assumes inv: "queue_inv s" and wake: "wake_inv s" and step: "sys_step s s'"
  shows "wake_inv s'"
proof -
  note n = sys_step_workers [OF step]
  note looking = wake_looking [of _ s', unfolded n]
  show ?thesis
    using step
  proof cases
    case (worker_pop i q' c' pc')
    then show ?thesis by (intro wake_pop [OF inv wake worker_pop(2,3) n]) simp_all
  next
    case (worker_finish i r)
    then show ?thesis by (intro looking [of i]) simp_all
  next
    case (worker_unwind i r)
    then show ?thesis by (intro looking [of i]) simp_all
  next
    case (self_push i r hash cell d cell' x)
    then show ?thesis by (intro looking [of i]) simp_all
  next
    case (self_hand i r h q' h')
    then show ?thesis by (intro looking [of i]) simp_all
  next
    case (self_return i r)
    then show ?thesis by (intro looking [of i]) simp_all
  next
    case (foreign_push p handle d cell' x)
    then show ?thesis by (intro wake_foreign_push [of _ p]) simp
  next
    case (push_elsewhere p msk target cell')
    have "at_hand s' t h = at_hand s t h" for t h
      by (rule at_hand_same [OF n]) (simp_all add: push_elsewhere(1))
    then have "push_pending s' = push_pending s" by (simp add: push_pending_def)
    with wake n show ?thesis
      by (simp add: push_elsewhere(1) wake_inv_def covered_def someone_looks_def all_gone_def)
  next
    case (foreign_hand p q' h')
    then show ?thesis by (intro wake_foreign_hand [OF inv wake foreign_hand(2)]) simp_all
  next
    case (closing q' k')
    with wake_closing [OF wake] show ?thesis by blast
  qed
qed

definition full_inv :: "'r sys \<Rightarrow> bool" where
  "full_inv s \<longleftrightarrow> queue_inv s \<and> wake_inv s"

lemma full_inv_init:
  assumes "sys_init s"
  shows "full_inv s"
proof -
  obtain nw ov where "queue_new nw ov = Some (que s)" using assms by (auto simp: sys_init_def)
  from queue_new_fields(9) [OF this] have "injectors (que s) ! j = []"
    if "j < length (injectors (que s))" for j
    using that nth_mem by blast
  then show ?thesis
    using queue_inv_init [OF assms] by (simp add: full_inv_def wake_inv_def covered_def)
qed

lemma full_inv_step: "full_inv s \<Longrightarrow> sys_step s s' \<Longrightarrow> full_inv s'"
  unfolding full_inv_def using queue_inv_step wake_step by blast

interpretation wakeup: invariant_system sys_init sys_step full_inv
  by unfold_locales (erule full_inv_init, erule full_inv_step)

section \<open>An idle pool\<close>

lemma full_invD:
  assumes "reachable s"
  shows "acct_inv s" and "own_inv s" and "closing_inv s" and "wake_inv s" and "queue_inv s"
  using wakeup.reachable_inv [OF assms] by (simp_all add: full_inv_def queue_inv_def)

text \<open>A worker that is asleep, or has left, left nothing in its own deque.\<close>

fun at_rest :: "'r wpc \<Rightarrow> bool" where
  "at_rest WWait \<longleftrightarrow> True"
| "at_rest WExit \<longleftrightarrow> True"
| "at_rest _ \<longleftrightarrow> False"

lemma resting_slots_empty:
  assumes "own_inv s" and "\<And>i. i < num_workers s \<Longrightarrow> at_rest (wpcs s i)"
    and "v < num_workers s" and "stealers (que s) ! v = Some a"
  shows "deques (que s) a = []"
proof -
  have "worker_ok (que s) v (ctxs s v) (wpcs s v)" using assms(1,3) by (simp add: own_inv_def)
  with assms(2) [OF assms(3)] assms(4) show ?thesis
    by (cases "wpcs s v") (auto simp: worker_ok_def seated_def)
qed

text \<open>What an unwound worker left behind: the deques no slot leads to any more.\<close>

definition orphans :: "'r queue \<Rightarrow> 'r multiset" where
  "orphans q = (\<Sum>a | a < next_addr q \<and> Some a \<notin> set (stealers q). mset (deques q a))"

lemma only_orphans_left:
  assumes inj: "\<And>j. j < length (injectors q) \<Longrightarrow> injectors q ! j = []"
    and slots: "\<And>v a. v < length (stealers q) \<Longrightarrow> stealers q ! v = Some a \<Longrightarrow> deques q a = []"
  shows "queue_items q = orphans q"
proof -
  have "deques q a = []" if "Some a \<in> set (stealers q)" for a
    using that slots by (auto simp: in_set_conv_nth)
  then have "(\<Sum>a<next_addr q. mset (deques q a)) = orphans q"
    unfolding orphans_def by (intro sum.mono_neutral_right) auto
  moreover have "(\<Sum>xs\<leftarrow>injectors q. mset xs) = {#}"
    using inj by (intro sum_list_empty_mset) (metis in_set_conv_nth)
  ultimately show ?thesis by (simp add: queue_items_def)
qed

lemma resting_accounts:
  assumes inv: "own_inv s" and rest: "\<And>i. i < num_workers s \<Longrightarrow> at_rest (wpcs s i)"
    and inj: "\<And>j. j < length (injectors (que s)) \<Longrightarrow> injectors (que s) ! j = []"
  shows "pushed s = ran s + orphans (que s)"
proof -
  have items: "queue_items (que s) = orphans (que s)"
    by (rule only_orphans_left [OF inj])
      (use resting_slots_empty [OF inv rest] in \<open>auto simp: num_workers_def\<close>)
  have "in_hand (wpcs s i) = {#}" if "i < num_workers s" for i
    using rest [OF that] by (cases "wpcs s i") auto
  then have "held s = {#}" by (simp add: held_def)
  with items inv show ?thesis by (simp add: own_inv_def)
qed

lemma no_orphans:
  assumes "own_inv s" and "crashes s = 0"
  shows "orphans (que s) = {#}"
proof -
  have "Some a \<in> set (stealers (que s))" if "a < next_addr (que s)" for a
    using assms that by (auto simp: own_inv_def all_seated_def num_workers_def in_set_conv_nth)
  then have none: "{a. a < next_addr (que s) \<and> Some a \<notin> set (stealers (que s))} = {}" by blast
  show ?thesis by (simp add: orphans_def none)
qed

section \<open>Properties\<close>

text \<open>
  C11. Queued work has a taker: in every reachable state, for every non-empty injector, some
  worker is bound to inspect it before it sleeps, or a push is still on its way to signalling
  a worker, or every worker has left after shutdown. This is the lost-wakeup argument of the
  module documentation, with the \<open>notified\<close> shortcut of \<open>push\<close>, spurious re-arming,
  contended scans, respawns and shutdown included.
\<close>
theorem queued_work_has_a_taker:
  assumes "reachable s" and "j < length (injectors (que s))" and "injectors (que s) ! j \<noteq> []"
  shows "(\<exists>i < num_workers s. will_look (waiters (que s)) i (wpcs s i) j)
    \<or> (\<exists>t h. at_hand s t h \<and> pending h)
    \<or> shutdown_flag (que s) \<and> (\<forall>i < num_workers s. gone (wpcs s i))"
proof -
  note inv = full_invD [OF assms(1)]
  have "quitting pc" if "gone pc" for pc :: "'a wpc" using that by (cases pc) auto
  moreover have "1 \<le> num_workers s" using inv(1) by (simp add: acct_inv_def pool_size_ok_def)
  ultimately have "all_gone s \<Longrightarrow> shutdown_flag (que s)"
    using inv(3) unfolding all_gone_def closing_inv_def by (metis less_le_trans zero_less_one)
  with inv(4) assms(2,3) show ?thesis
    by (auto simp: wake_inv_def covered_def someone_looks_def push_pending_def all_gone_def)
qed

theorem queued_work_has_a_taker_witness:
  "\<exists>t h. at_hand (lone lone_notified WWait HNotify CIdle {#7#}) t h \<and> pending h"
proof -
  have "length (injectors lone_notified) = 1" "injectors lone_notified ! 0 = [7]"
    "waiters lone_notified = {0}" "num_workers (lone lone_notified WWait HNotify CIdle {#7#}) = 1"
    "\<not> shutdown_flag lone_notified"
    by (simp_all add: lone_notified_def lone_asleep_def lone_started_def lone_queue_def lone_def
        num_workers_def)
  then show ?thesis
    using queued_work_has_a_taker [OF lone_notified_reachable, of 0] by (simp add: lone_def)
qed

text \<open>
  C1. No lost wake-up: when no push is in its handshake and every worker is asleep without a
  signal, there is nothing to do: every injector is empty and so is the deque behind every
  stealer slot. Everything that was pushed has been run, but for what a worker that unwound
  left in its old deque; if none ever did, everything.
\<close>
theorem no_lost_wakeup:
  assumes "reachable s" and "\<forall>p. ppcs s p = HDone"
    and "\<forall>i < num_workers s. wpcs s i = WWait \<and> i \<in> waiters (que s)"
  shows "(\<forall>j < length (injectors (que s)). injectors (que s) ! j = [])
    \<and> (\<forall>v < num_workers s. \<forall>a. stealers (que s) ! v = Some a \<longrightarrow> deques (que s) a = [])
    \<and> pushed s = ran s + orphans (que s) \<and> (crashes s = 0 \<longrightarrow> ran s = pushed s)"
proof -
  note inv = full_invD [OF assms(1)]
  have one: "1 \<le> num_workers s" using inv(1) by (simp add: acct_inv_def pool_size_ok_def)
  have "\<not> at_hand s t h" if "pending h" for t h
    using assms(2,3) that by (cases t) auto
  then have "\<not> push_pending s" by (auto simp: push_pending_def)
  moreover have "\<not> someone_looks s j" for j using assms(3) by (auto simp: someone_looks_def)
  moreover have "\<not> all_gone s" using assms(3) one by (fastforce simp: all_gone_def)
  ultimately have inj: "injectors (que s) ! j = []" if "j < length (injectors (que s))" for j
    using inv(4) that by (auto simp: wake_inv_def covered_def)
  have rest: "at_rest (wpcs s i)" if "i < num_workers s" for i using assms(3) that by simp
  show ?thesis
    using inj resting_slots_empty [OF inv(2) rest] resting_accounts [OF inv(2) rest inj]
      no_orphans [OF inv(2)] by auto
qed

theorem no_lost_wakeup_witness:
  "ran (lone lone_asleep WWait HDone CIdle {#}) = pushed (lone lone_asleep WWait HDone CIdle {#})
    \<and> parked lone_asleep = 1"
proof -
  let ?s = "lone lone_asleep WWait HDone CIdle {#}"
  have "crashes ?s = 0 \<longrightarrow> ran ?s = pushed ?s"
    using no_lost_wakeup [OF lone_run_reachable [OF lone_asleep_run]]
    by (simp add: lone_def num_workers_def lone_asleep_def lone_started_def lone_queue_def)
  then show ?thesis by (simp add: lone_def lone_asleep_def)
qed

end
