(* ===== verification/Drain.thy ===== *)
theory Drain
  imports Wakeup
begin

text \<open>
  What \<open>Drop for Threadpool\<close> relies on: between \<open>shutdown\<close> and the last \<open>join\<close> the
  workers finish all queued work, as long as nobody outside the pool still pushes.
\<close>

section \<open>Work left after shutdown keeps a worker\<close>

definition drain_inv :: "'r sys \<Rightarrow> bool" where
  "drain_inv s \<longleftrightarrow>
     (\<forall>j < length (injectors (que s)). injectors (que s) ! j \<noteq> [] \<longrightarrow> someone_looks s j)"

lemma quiet_no_foreign:
  assumes "quiet_step s s'" and "\<forall>p. ppcs s p = HDone"
  shows "ppcs s' = ppcs s"
  using assms by (auto simp: quiet_step_def)

lemma drain_start:
  assumes "reachable s" and "cpc s = CIdle" and "\<forall>p. ppcs s p = HDone"
  shows "drain_inv s"
proof -
  note inv = full_invD [OF assms(1)]
  have "quitting pc" if "gone pc" for pc :: "'a wpc" using that by (cases pc) auto
  moreover have one: "1 \<le> num_workers s" using inv(1) by (simp add: acct_inv_def pool_size_ok_def)
  ultimately have gone: "\<not> all_gone s"
    using inv(3) assms(2) unfolding all_gone_def closing_inv_def
    by (metis less_le_trans zero_less_one)
  have "someone_looks s j" if "push_pending s" for j
  proof -
    from that obtain t h where t: "at_hand s t h" "pending h" by (auto simp: push_pending_def)
    with assms(3) obtain i where "t = Wrk i" by (cases t) auto
    with t show ?thesis by (auto simp: someone_looks_def intro!: exI [of _ i])
  qed
  with gone inv(4) show ?thesis by (auto simp: drain_inv_def wake_inv_def covered_def)
qed

lemma looks_always:
  "i < num_workers s \<Longrightarrow> (\<And>W j. will_look W i (wpcs s i) j) \<Longrightarrow> drain_inv s"
  by (auto simp: drain_inv_def someone_looks_def)

lemma drain_step:
  assumes inv: "queue_inv s" and drain: "drain_inv s" and quiet: "\<forall>p. ppcs s p = HDone"
    and qstep: "quiet_step s s'"
  shows "drain_inv s'"
proof -
  have step: "sys_step s s'" and quiet': "\<And>p. ppcs s' p = HDone"
    using qstep by (simp_all add: quiet_step_def)
  have own: "own_inv s" using inv by (simp add: queue_inv_def)
  note n = sys_step_workers [OF step]
  note looking = looks_always [of _ s', unfolded n]
  show ?thesis
    using step
  proof cases
    case (worker_pop i q' c' pc')
    note inj = pop_step_injectors [OF own worker_pop(2,3)]
    show ?thesis
      unfolding drain_inv_def
    proof (intro allI impI)
      fix j assume j: "j < length (injectors (que s'))" "injectors (que s') ! j \<noteq> []"
      with inj worker_pop(1) have j': "j < length (injectors (que s))" "injectors (que s) ! j \<noteq> []"
        "injectors q' ! j \<noteq> []" by auto
      with drain have "someone_looks s j" by (simp add: drain_inv_def)
      with looks_pop [OF own worker_pop(2,3) n _ _ j'(1,3)] worker_pop(1)
      show "someone_looks s' j" by simp
    qed
  next
    case (worker_finish i r)
    then show ?thesis by (intro looking [of i]) simp_all
  next
    case (worker_unwind i r)
    then show ?thesis by (intro looking [of i]) simp_all
  next
    case (self_push i r hash cell d cell' x)
    then show ?thesis by (intro looking [of i]) simp_all
  next
    case (self_hand i r h q' h')
    then show ?thesis by (intro looking [of i]) simp_all
  next
    case (self_return i r)
    then show ?thesis by (intro looking [of i]) simp_all
  next
    case (foreign_push p handle d cell' x)
    with quiet' [of p] show ?thesis by simp
  next
    case (push_elsewhere p msk target cell')
    then show ?thesis using drain n by (simp add: drain_inv_def someone_looks_def)
  next
    case (foreign_hand p q' h')
    with quiet have "hand_step (Prod p) (que s, HDone) (q', h')" by simp
    then show ?thesis by (auto simp: no_step_at)
  next
    case (closing q' k')
    note frame = shutdown_step_frame [OF closing(2)]
    have "someone_looks s' j" if "someone_looks s j" for j
      by (rule looks_fewer_waiters [OF that n]) (use closing(1) frame in simp_all)
    with drain show ?thesis using closing(1) frame by (simp add: drain_inv_def)
  qed
qed

lemma drain_run:
  assumes "quiet_step\<^sup>*\<^sup>* s s'" and "reachable s" and "drain_inv s" and "\<forall>p. ppcs s p = HDone"
  shows "reachable s' \<and> drain_inv s' \<and> (\<forall>p. ppcs s' p = HDone)"
  using assms(1)
proof (induction rule: rtranclp_induct)
  case base
  with assms(2-4) show ?case by simp
next
  case (step y z)
  then have "queue_inv y" using full_invD(5) by blast
  with step drain_step [of y z] show ?case
    by (auto simp: quiet_step_def intro: reach_step)
qed

lemma drained_when_gone:
  assumes "reachable s" and "drain_inv s" and "\<forall>i < num_workers s. wpcs s i = WExit"
  shows "(\<forall>j < length (injectors (que s)). injectors (que s) ! j = [])
    \<and> (\<forall>v < num_workers s. \<forall>a. stealers (que s) ! v = Some a \<longrightarrow> deques (que s) a = [])
    \<and> pushed s = ran s + orphans (que s) \<and> (crashes s = 0 \<longrightarrow> ran s = pushed s)"
proof -
  note inv = full_invD [OF assms(1)]
  have "\<not> someone_looks s j" for j using assms(3) by (auto simp: someone_looks_def)
  with assms(2) have inj: "injectors (que s) ! j = []" if "j < length (injectors (que s))" for j
    using that by (auto simp: drain_inv_def)
  have rest: "at_rest (wpcs s i)" if "i < num_workers s" for i using assms(3) that by simp
  show ?thesis
    using inj resting_slots_empty [OF inv(2) rest] resting_accounts [OF inv(2) rest inj]
      no_orphans [OF inv(2)] by auto
qed

section \<open>Property\<close>

text \<open>
  Dropping the pool drains it: start from any reachable state in which shutdown has not
  begun and no producer is in a push, and let the pool run on with nobody outside pushing any
  more, jobs spawning further jobs included. When all workers have left, every injector and
  the deque behind every slot is empty; every runnable ever pushed has been run, but for those
  a worker that unwound left in its old deque; if none did, all.
\<close>
theorem shutdown_drains_all_work:
  assumes "reachable s" and "cpc s = CIdle" and "\<forall>p. ppcs s p = HDone"
    and "quiet_step\<^sup>*\<^sup>* s s'" and "\<forall>i < num_workers s'. wpcs s' i = WExit"
  shows "(\<forall>j < length (injectors (que s')). injectors (que s') ! j = [])
    \<and> (\<forall>v < num_workers s'. \<forall>a. stealers (que s') ! v = Some a \<longrightarrow> deques (que s') a = [])
    \<and> pushed s' = ran s' + orphans (que s') \<and> (crashes s' = 0 \<longrightarrow> ran s' = pushed s')"
proof -
  have "reachable s'" "drain_inv s'"
    using drain_run [OF assms(4,1) drain_start [OF assms(1-3)] assms(3)] by simp_all
  then show ?thesis using assms(5) by (rule drained_when_gone)
qed

theorem shutdown_drains_all_work_witness:
  "injectors (que (lone lone_closed WExit HDone CDone {#})) ! 0 = []
    \<and> ran (lone lone_closed WExit HDone CDone {#}) = pushed (lone lone_closed WExit HDone CDone {#})"
proof -
  let ?s = "lone lone_queue WStart HDone CIdle {#}"
  let ?s' = "lone lone_closed WExit HDone CDone {#}"
  have "reachable ?s" by (rule reach_init) (rule lone_init)
  moreover have "num_workers ?s' = 1" "length (injectors (que ?s')) = 1" "crashes ?s' = 0"
    by (simp_all add: lone_def num_workers_def lone_closed_def lone_started_def lone_queue_def)
  ultimately show ?thesis
    using shutdown_drains_all_work [OF _ _ _ lone_exited_run] by (simp add: lone_def)
qed

end
