(* ===== verification/Progress.thy ===== *)
theory Progress
  imports Drain
begin

text \<open>
  Termination and liveness of the queue. Left alone, every worker of the pool comes to rest:
  a rank falls with every step that is not a new push, an unwinding worker, the call of
  \<open>shutdown\<close> or fresh contention, and as long as a thread is not at rest some thread can
  move. So the mutex and the condition variable of \<open>src/queue.rs\<close> cannot deadlock, and the
  safety properties of an idle or closed pool become statements about what will happen.
\<close>

section \<open>Undisturbed steps\<close>

fun in_contention :: "'r wpc \<Rightarrow> bool" where
  "in_contention (WScan k pc) \<longleftrightarrow> contended pc"
| "in_contention (WRescan pc) \<longleftrightarrow> contended pc"
| "in_contention _ \<longleftrightarrow> False"

text \<open>
  A step that changes the state, and neither pushes a runnable (into this or, as far as the
  route cells show, another pool), nor unwinds a worker, nor begins the shutdown, nor loses a
  steal to a competitor in a pass that had met no contention.
\<close>

definition calm_step :: "'r sys \<Rightarrow> 'r sys \<Rightarrow> bool" where
  "calm_step s s' \<longleftrightarrow> sys_step s s' \<and> s' \<noteq> s \<and> pushed s' = pushed s \<and> routes s' = routes s
     \<and> crashes s' = crashes s \<and> (cpc s' = CIdle \<longleftrightarrow> cpc s = CIdle)
     \<and> (\<forall>i. in_contention (wpcs s' i) \<longrightarrow> in_contention (wpcs s i))"

lemma calm_step_cases:
  assumes "calm_step s s'"
  obtains (pop) i q' c' pc' where "i < num_workers s"
      "pop_step i (que s, ctxs s i, wpcs s i) (q', c', pc')"
      "s' = s\<lparr>que := q', ctxs := (ctxs s)(i := c'), wpcs := (wpcs s)(i := pc')\<rparr>"
      "in_contention pc' \<longrightarrow> in_contention (wpcs s i)"
  | (finish) i r where "i < num_workers s" "wpcs s i = WRun r"
      "s' = s\<lparr>wpcs := (wpcs s)(i := WScan 0 SOwn), ran := add_mset r (ran s)\<rparr>"
  | (self_hand) i r h q' h' where "i < num_workers s" "wpcs s i = WPush r h"
      "hand_step (Wrk i) (que s, h) (q', h')"
      "s' = s\<lparr>que := q', wpcs := (wpcs s)(i := WPush r h')\<rparr>"
  | (self_return) i r where "i < num_workers s" "wpcs s i = WPush r HDone"
      "s' = s\<lparr>wpcs := (wpcs s)(i := WRun r)\<rparr>"
  | (hand) p q' h' where "hand_step (Prod p) (que s, ppcs s p) (q', h')"
      "s' = s\<lparr>que := q', ppcs := (ppcs s)(p := h')\<rparr>"
  | (closing) q' k' where "shutdown_step (que s, cpc s) (q', k')" "cpc s \<noteq> CIdle"
      "s' = s\<lparr>que := q', cpc := k'\<rparr>"
proof -
  have step: "sys_step s s'" and moved: "s' \<noteq> s" and pushed: "pushed s' = pushed s"
    and routes: "routes s' = routes s" and crashes: "crashes s' = crashes s"
    and idle: "cpc s' = CIdle \<longleftrightarrow> cpc s = CIdle"
    and cont: "\<And>i. in_contention (wpcs s' i) \<Longrightarrow> in_contention (wpcs s i)"
    using assms by (auto simp: calm_step_def)
  show ?thesis
    using step
  proof cases
    case (worker_pop i q' c' pc')
    with cont [of i] that(1) show ?thesis by simp
  next
    case (push_elsewhere p msk target cell')
    with routes have "s' = s" by simp
    with moved show ?thesis by simp
  next
    case (closing q' k')
    with idle have "cpc s \<noteq> CIdle" by (auto elim: shutdown_stepE)
    with closing that(6) show ?thesis by blast
  qed (use that pushed crashes in auto)
qed

section \<open>The rank\<close>

text \<open>Steps left in the handshakes and in the shutdown, which may still signal a worker.\<close>

fun hand_left :: "hand_pc \<Rightarrow> nat" where
  "hand_left HLoadParked = 6"
| "hand_left (HLoadNotified p) = 5"
| "hand_left HLock = 4"
| "hand_left HRecheck = 3"
| "hand_left HNotify = 2"
| "hand_left HUnlock = 1"
| "hand_left HDone = 0"

fun push_left :: "'r wpc \<Rightarrow> nat" where
  "push_left (WPush r h) = hand_left h"
| "push_left _ = 0"

fun closer_left :: "closer_pc \<Rightarrow> nat" where
  "closer_left CLock = 3"
| "closer_left CNotify = 2"
| "closer_left CUnlock = 1"
| "closer_left _ = 0"

definition in_push :: "'r sys \<Rightarrow> nat set" where
  "in_push s = {p. ppcs s p \<noteq> HDone}"

definition signals_left :: "'r sys \<Rightarrow> nat" where
  "signals_left s = (\<Sum>p\<in>in_push s. hand_left (ppcs s p))
     + (\<Sum>i<num_workers s. push_left (wpcs s i)) + closer_left (cpc s)"

text \<open>Steps a worker has left, at most, before it runs a runnable, sleeps or leaves.\<close>

definition scan_left :: "'r queue \<Rightarrow> nat \<Rightarrow> 'r scan_pc \<Rightarrow> nat" where
  "scan_left q k pc =
     (SPIN_ROUNDS - k) * Suc (pass_length q) + steps_left q pc + pass_length q + 8"

fun worker_left :: "'r queue \<Rightarrow> nat \<Rightarrow> 'r wpc \<Rightarrow> nat" where
  "worker_left q i WStart = scan_left q 0 SOwn + 1"
| "worker_left q i (WScan k pc) = scan_left q k pc"
| "worker_left q i WLock = pass_length q + 7"
| "worker_left q i WArm = pass_length q + 6"
| "worker_left q i (WRescan pc) = steps_left q pc + 5"
| "worker_left q i WCheck = 4"
| "worker_left q i WSleep = 1"
| "worker_left q i WWait = (if i \<in> waiters q then 0 else scan_left q 0 SOwn + 4)"
| "worker_left q i (WAdjust a) = (if a = Again then scan_left q 0 SOwn else 0) + 3"
| "worker_left q i (WDisarm a) = (if a = Again then scan_left q 0 SOwn else 0) + 2"
| "worker_left q i (WUnlock a) = (if a = Again then scan_left q 0 SOwn else 0) + 1"
| "worker_left q i (WRun r) = 0"
| "worker_left q i (WPush r h) = 1"
| "worker_left q i WExit = 0"

text \<open>
  Runnables not yet run come first, then signals that may still be sent, then the workers'
  own steps: running a runnable and waking a worker give a worker new steps to do.
\<close>

definition rank :: "'r sys \<Rightarrow> nat \<times> nat \<times> nat" where
  "rank s = (size (pushed s) - size (ran s), signals_left s,
     \<Sum>i<num_workers s. worker_left (que s) i (wpcs s i))"

definition below :: "((nat \<times> nat \<times> nat) \<times> (nat \<times> nat \<times> nat)) set" where
  "below = less_than <*lex*> less_than <*lex*> less_than"

lemma wf_below: "wf below"
  by (simp add: below_def wf_lex_prod)

lemma rank_lessI:
  assumes "size (ran s') = size (ran s)" and "pushed s' = pushed s"
    and "signals_left s' < signals_left s
       \<or> signals_left s' = signals_left s
         \<and> (\<Sum>i<num_workers s'. worker_left (que s') i (wpcs s' i))
            < (\<Sum>i<num_workers s. worker_left (que s) i (wpcs s i))"
  shows "(rank s', rank s) \<in> below"
  using assms by (auto simp: rank_def below_def)

section \<open>What a worker's step costs\<close>

fun wpc_fits :: "'r queue \<Rightarrow> 'r wpc \<Rightarrow> bool" where
  "wpc_fits q (WScan k pc) \<longleftrightarrow> pc_fits q pc"
| "wpc_fits q (WRescan pc) \<longleftrightarrow> pc_fits q pc"
| "wpc_fits q _ \<longleftrightarrow> True"

definition same_tables :: "'r queue \<Rightarrow> 'r queue \<Rightarrow> bool" where
  "same_tables q q' \<longleftrightarrow> length (injectors q') = length (injectors q)
     \<and> length (stealers q') = length (stealers q)"

lemma same_tables_left:
  assumes "same_tables q q'"
  shows "pass_length q' = pass_length q" "steps_left q' pc = steps_left q pc"
    "pc_fits q' pc = pc_fits q pc" "scan_left q' k pc = scan_left q k pc"
    "wpc_fits q' wpc = wpc_fits q wpc"
proof -
  show len: "pass_length q' = pass_length q" using assms by (simp add: same_tables_def pass_length_def)
  show steps: "steps_left q' pc = steps_left q pc" for pc
    using assms len by (cases pc) (simp_all add: same_tables_def)
  show fits: "pc_fits q' pc = pc_fits q pc" for pc
    using assms by (cases pc) (simp_all add: same_tables_def)
  show "scan_left q' k pc = scan_left q k pc" by (simp add: scan_left_def len steps)
  show "wpc_fits q' wpc = wpc_fits q wpc" by (cases wpc) (simp_all add: fits)
qed

lemma worker_left_cong:
  assumes "same_tables q q'" and "i \<in> waiters q' \<longleftrightarrow> i \<in> waiters q"
  shows "worker_left q' i pc = worker_left q i pc"
  using assms by (cases pc) (simp_all add: same_tables_left)

lemma same_shape_tables: "same_shape q q' \<Longrightarrow> same_tables q q'"
  by (simp add: same_shape_def same_tables_def)

lemma pop_step_tables:
  "pop_step i (q, c, pc) (q', c', pc') \<Longrightarrow> same_tables q q'"
  by (erule pop_stepE)
    (auto simp: same_tables_def register_frame dest: scan_frame(6,9) split: if_splits)

lemma after_unlock_fits [simp]: "wpc_fits q (after_unlock a)"
  by (cases a) auto

lemma after_unlock_left:
  "worker_left q i (after_unlock a) = (if a = Again then scan_left q 0 SOwn else 0)"
  by (cases a) auto

text \<open>One step of a worker inside \<open>pop_blocking\<close>.\<close>

definition pop_costs ::
  "nat \<Rightarrow> 'r queue \<times> 'r wpc \<Rightarrow> 'r queue \<times> 'r wpc \<Rightarrow> bool" where
  "pop_costs i x y \<longleftrightarrow> wpc_fits (fst y) (snd y)
     \<and> ((in_contention (snd y) \<longrightarrow> in_contention (snd x)) \<longrightarrow>
          worker_left (fst y) i (snd y) < worker_left (fst x) i (snd x))"

lemma scan_step_costs:
  assumes "wf_queue q" and "registered q c" and "pc_fits q pc"
    and "scan_finished (q, c, pc) = None" and step: "scan_step stl p q c pc = (q', c', pc')"
  shows "pc_fits q' pc'" and "(contended pc' \<longrightarrow> contended pc) \<Longrightarrow> steps_left q' pc' < steps_left q pc"
  using scan_step_fits [OF assms(1-4), of stl p]
    same_tables_left [OF same_shape_tables [OF scan_step_shape(1) [OF step]]]
  by (auto simp: step step_fits_def)

lemma pop_step_costs:
  assumes wf: "wf_queue q" and reg: "registered q c \<or> pc = WStart" and fits: "wpc_fits q pc"
    and step: "pop_step i (q, c, pc) (q', c', pc')"
  shows "pop_costs i (q, pc) (q', pc')"
proof -
  note same = same_tables_left [OF pop_step_tables [OF step]]
  show ?thesis
    using step
  proof cases
    case (cheap_scan stl pc1 pc2 k)
    then have "registered q c" "pc_fits q pc1" using reg fits by auto
    from scan_step_costs [OF wf this cheap_scan(4,5)] cheap_scan(1,2) same(1) show ?thesis
      by (simp add: pop_costs_def scan_left_def)
  next
    case (strict_scan stl pc1 pc2)
    then have "registered q c" "pc_fits q pc1" using reg fits by auto
    from scan_step_costs [OF wf this strict_scan(4,5)] strict_scan(1,2) show ?thesis
      by (simp add: pop_costs_def)
  next
    case (cheap_spin k)
    then have "SPIN_ROUNDS - k = Suc (SPIN_ROUNDS - Suc k)" by simp
    with cheap_spin show ?thesis by (simp add: pop_costs_def scan_left_def)
  next
    case start
    then show ?thesis using same by (simp add: pop_costs_def)
  next
    case (wake)
    then show ?thesis using same by (simp add: pop_costs_def)
  next
    case (adjust a)
    then show ?thesis using same by (simp add: pop_costs_def)
  next
    case (disarm a)
    then show ?thesis using same by (simp add: pop_costs_def)
  next
    case (pop_unlock a)
    then show ?thesis using same by (simp add: pop_costs_def after_unlock_left)
  qed (use same in \<open>auto simp: pop_costs_def scan_left_def\<close>)
qed

section \<open>The invariant\<close>

definition scans_fit :: "'r sys \<Rightarrow> bool" where
  "scans_fit s \<longleftrightarrow> (\<forall>i < num_workers s. wpc_fits (que s) (wpcs s i))"

definition prog_inv :: "'r sys \<Rightarrow> bool" where
  "prog_inv s \<longleftrightarrow> full_inv s \<and> finite (in_push s) \<and> scans_fit s"

lemma full_inv_worker:
  assumes "full_inv s" and "i < num_workers s"
  shows "wf_queue (que s)" "registered (que s) (ctxs s i) \<or> wpcs s i = WStart"
proof -
  have own: "own_inv s" using assms(1) by (simp add: full_inv_def queue_inv_def)
  then show "wf_queue (que s)" by (simp add: own_inv_def)
  have "worker_ok (que s) i (ctxs s i) (wpcs s i)" "slots_ok (que s)"
    using own assms(2) by (simp_all add: own_inv_def)
  then show "registered (que s) (ctxs s i) \<or> wpcs s i = WStart"
    using seated_registered assms(2) by (auto simp: worker_ok_def num_workers_def)
qed

lemma prog_pop:
  assumes "prog_inv s" and "i < num_workers s"
    and "pop_step i (que s, ctxs s i, wpcs s i) (q', c', pc')"
  shows "pop_costs i (que s, wpcs s i) (q', pc')"
  using assms full_inv_worker [of s i]
  by (intro pop_step_costs [OF _ _ _ assms(3)]) (auto simp: prog_inv_def scans_fit_def)

lemma scans_fit_worker:
  assumes "scans_fit s" and "num_workers s' = num_workers s" and "same_tables (que s) (que s')"
    and "wpcs s' = (wpcs s)(i := pc')" and "wpc_fits (que s') pc'"
  shows "scans_fit s'"
  using assms same_tables_left(5) [OF assms(3)] by (simp add: scans_fit_def)

lemma scans_fit_other:
  assumes "scans_fit s" and "num_workers s' = num_workers s" and "same_tables (que s) (que s')"
    and "wpcs s' = wpcs s"
  shows "scans_fit s'"
  using assms same_tables_left(5) [OF assms(3)] by (simp add: scans_fit_def)

lemma same_tables_simps [simp]:
  "same_tables q q" "same_tables q (enqueue d x q)"
  by (simp_all add: same_tables_def)

lemma hand_step_tables: "hand_step t (q, h) (q', h') \<Longrightarrow> same_tables q q'"
  by (simp add: same_tables_def hand_step_frame)

lemma shutdown_step_tables: "shutdown_step (q, k) (q', k') \<Longrightarrow> same_tables q q'"
  by (simp add: same_tables_def shutdown_step_frame)

lemma scans_fit_step:
  assumes inv: "prog_inv s" and step: "sys_step s s'"
  shows "scans_fit s'"
proof -
  note n = sys_step_workers [OF step]
  have fit: "scans_fit s" using inv by (simp add: prog_inv_def)
  note worker = scans_fit_worker [OF fit n] and other = scans_fit_other [OF fit n]
  show ?thesis
    using step
  proof cases
    case (worker_pop i q' c' pc')
    with prog_pop [OF inv worker_pop(2,3)] show ?thesis
      by (intro worker [of i pc'])
        (auto simp: pop_costs_def intro: pop_step_tables)
  next
    case (worker_finish i r)
    then show ?thesis by (intro worker [of i "WScan 0 SOwn"]) simp_all
  next
    case (worker_unwind i r)
    then show ?thesis by (intro worker [of i WStart]) simp_all
  next
    case (self_push i r hash cell d cell' x)
    then show ?thesis by (intro worker [of i "WPush r HLoadParked"]) simp_all
  next
    case (self_hand i r h q' h')
    then show ?thesis by (intro worker [of i "WPush r h'"]) (simp_all add: hand_step_tables)
  next
    case (self_return i r)
    then show ?thesis by (intro worker [of i "WRun r"]) simp_all
  next
    case (foreign_push p handle d cell' x)
    then show ?thesis by (intro other) simp_all
  next
    case (push_elsewhere p msk target cell')
    then show ?thesis by (intro other) simp_all
  next
    case (foreign_hand p q' h')
    then show ?thesis by (intro other) (simp_all add: hand_step_tables)
  next
    case (closing q' k')
    then show ?thesis by (intro other) (simp_all add: shutdown_step_tables)
  qed
qed

lemma in_push_step:
  assumes "sys_step s s'" and "finite (in_push s)"
  shows "finite (in_push s')"
proof -
  have "\<exists>p. ppcs s' = (ppcs s)(p := ppcs s' p)"
    using assms(1) by cases auto
  then obtain p where "ppcs s' = (ppcs s)(p := ppcs s' p)" ..
  then have "ppcs s' x = ppcs s x" if "x \<noteq> p" for x using that by (metis fun_upd_other)
  then have "in_push s' \<subseteq> insert p (in_push s)" by (auto simp: in_push_def)
  with assms(2) show ?thesis by (meson finite_insert finite_subset)
qed

lemma prog_inv_init: "sys_init s \<Longrightarrow> prog_inv s"
  using full_inv_init [of s]
  by (auto simp: prog_inv_def in_push_def scans_fit_def sys_init_def)

lemma prog_inv_step: "prog_inv s \<Longrightarrow> sys_step s s' \<Longrightarrow> prog_inv s'"
  using scans_fit_step [of s s'] full_inv_step [of s s'] in_push_step [of s s']
  by (simp add: prog_inv_def)

section \<open>Every calm step lowers the rank\<close>

lemma sum_drop:
  fixes f g :: "nat \<Rightarrow> nat"
  assumes "finite A" and "i \<in> A" and "g i < f i" and "\<And>j. j \<in> A \<Longrightarrow> j \<noteq> i \<Longrightarrow> g j = f j"
  shows "sum g A < sum f A"
  by (rule sum_strict_mono_ex1 [OF assms(1)]) (use assms in \<open>auto simp: order_le_less\<close>)

lemma hand_step_left: "hand_step t (q, h) (q', h') \<Longrightarrow> hand_left h' < hand_left h"
  by (erule hand_stepE) auto

lemma shutdown_step_left:
  "shutdown_step (q, k) (q', k') \<Longrightarrow> k \<noteq> CIdle \<Longrightarrow> closer_left k' < closer_left k"
  by (erule shutdown_stepE) auto

lemma pop_step_push_left:
  "pop_step i (q, c, pc) (q', c', pc') \<Longrightarrow> push_left pc = 0 \<and> push_left pc' = 0"
  using pop_step_no_push [of i q c pc q' c' pc'] by (cases pc; cases pc') auto

text \<open>A step of worker \<open>i\<close> that leaves the waiters of the other workers alone.\<close>

lemma rank_worker:
  assumes "i < num_workers s" and "num_workers s' = num_workers s"
    and "wpcs s' = (wpcs s)(i := pc')" and "ppcs s' = ppcs s" "cpc s' = cpc s"
    and "push_left pc' = push_left (wpcs s i)"
    and "pushed s' = pushed s" "ran s' = ran s"
    and "same_tables (que s) (que s')"
    and "\<And>j. j \<noteq> i \<Longrightarrow> j \<in> waiters (que s') \<longleftrightarrow> j \<in> waiters (que s)"
    and "worker_left (que s') i pc' < worker_left (que s) i (wpcs s i)"
  shows "(rank s', rank s) \<in> below"
proof (rule rank_lessI)
  have "(\<Sum>j<num_workers s. push_left (wpcs s' j)) = (\<Sum>j<num_workers s. push_left (wpcs s j))"
    by (rule sum.cong) (use assms(3,6) in auto)
  then have "signals_left s' = signals_left s"
    using assms(2,4,5) by (simp add: signals_left_def in_push_def)
  moreover have "(\<Sum>j<num_workers s. worker_left (que s') j (wpcs s' j))
      < (\<Sum>j<num_workers s. worker_left (que s) j (wpcs s j))"
    by (rule sum_drop [of _ i])
      (use assms(1,3,11) worker_left_cong [OF assms(9) assms(10)] in auto)
  ultimately show "signals_left s' < signals_left s \<or> signals_left s' = signals_left s
         \<and> (\<Sum>i<num_workers s'. worker_left (que s') i (wpcs s' i))
            < (\<Sum>i<num_workers s. worker_left (que s) i (wpcs s i))"
    using assms(2) by simp
qed (use assms in simp_all)

lemma rank_self_hand:
  assumes "i < num_workers s" and "num_workers s' = num_workers s"
    and "wpcs s' = (wpcs s)(i := pc')" and "ppcs s' = ppcs s" "cpc s' = cpc s"
    and "push_left pc' < push_left (wpcs s i)"
    and "pushed s' = pushed s" "ran s' = ran s"
  shows "(rank s', rank s) \<in> below"
proof (rule rank_lessI)
  have "(\<Sum>j<num_workers s. push_left (wpcs s' j)) < (\<Sum>j<num_workers s. push_left (wpcs s j))"
    by (rule sum_drop [of _ i]) (use assms(1,3,6) in auto)
  then have "signals_left s' < signals_left s"
    using assms(2,4,5) by (simp add: signals_left_def in_push_def)
  then show "signals_left s' < signals_left s \<or> signals_left s' = signals_left s
         \<and> (\<Sum>i<num_workers s'. worker_left (que s') i (wpcs s' i))
            < (\<Sum>i<num_workers s. worker_left (que s) i (wpcs s i))" ..
qed (use assms in simp_all)

lemma producers_drop:
  assumes "finite (in_push s)" and "ppcs s' = (ppcs s)(p := h')"
    and "hand_left h' < hand_left (ppcs s p)"
  shows "(\<Sum>x\<in>in_push s'. hand_left (ppcs s' x)) < (\<Sum>x\<in>in_push s. hand_left (ppcs s x))"
proof -
  have p: "p \<in> in_push s" using assms(3) by (auto simp: in_push_def)
  then have "in_push s' \<subseteq> in_push s" using assms(2) by (auto simp: in_push_def split: if_splits)
  then have "(\<Sum>x\<in>in_push s'. hand_left (ppcs s' x)) = (\<Sum>x\<in>in_push s. hand_left (ppcs s' x))"
    by (rule sum.mono_neutral_left [OF assms(1)]) (auto simp: in_push_def)
  also have "\<dots> < (\<Sum>x\<in>in_push s. hand_left (ppcs s x))"
    by (rule sum_drop [OF assms(1) p]) (use assms(2,3) in auto)
  finally show ?thesis .
qed

lemma ran_le_pushed:
  assumes "prog_inv s"
  shows "size (ran s) \<le> size (pushed s)"
proof -
  have "pushed s = queue_items (que s) + held s + ran s"
    using assms by (simp add: prog_inv_def full_inv_def queue_inv_def own_inv_def)
  then show ?thesis by simp
qed

lemma calm_lowers_rank:
  assumes inv: "prog_inv s" and calm: "calm_step s s'"
  shows "(rank s', rank s) \<in> below"
proof -
  have step: "sys_step s s'" using calm by (simp add: calm_step_def)
  note n = sys_step_workers [OF step] and inv' = prog_inv_step [OF inv step]
  show ?thesis
    using calm
  proof (cases rule: calm_step_cases)
    case (pop i q' c' pc')
    have "worker_left q' i pc' < worker_left (que s) i (wpcs s i)"
      using prog_pop [OF inv pop(1,2)] pop(4) by (simp add: pop_costs_def)
    moreover have "j \<in> waiters q' \<longleftrightarrow> j \<in> waiters (que s)" if "j \<noteq> i" for j
      using pop_step_others [OF pop(2) that, of WWait] by (simp add: woken_def)
    ultimately show ?thesis
      using pop pop_step_push_left [OF pop(2)] pop_step_tables [OF pop(2)] n
      by (intro rank_worker [of i s s' pc']) auto
  next
    case (finish i r)
    then have "size (pushed s') = size (pushed s)" "size (ran s') = Suc (size (ran s))" by simp_all
    with ran_le_pushed [OF inv']
    have "size (pushed s') - size (ran s') < size (pushed s) - size (ran s)" by linarith
    then show ?thesis by (simp add: rank_def below_def)
  next
    case (self_hand i r h q' h')
    then show ?thesis
      using n hand_step_left [OF self_hand(3)] by (intro rank_self_hand [of i s s']) auto
  next
    case (self_return i r)
    then show ?thesis using n by (intro rank_worker [of i s s' "WRun r"]) auto
  next
    case (hand p q' h')
    have "signals_left s' < signals_left s"
      using producers_drop [of s s' p h'] hand hand_step_left [OF hand(1)] inv n
      by (simp add: signals_left_def prog_inv_def)
    with hand show ?thesis by (intro rank_lessI) simp_all
  next
    case (closing q' k')
    then have "signals_left s' < signals_left s"
      using shutdown_step_left [OF closing(1,2)] n by (simp add: signals_left_def in_push_def)
    with closing show ?thesis by (intro rank_lessI) simp_all
  qed
qed

end
