(* ===== verification/Liveness.thy ===== *)
theory Liveness
  imports Progress
begin

text \<open>
  No deadlock, and what the pool comes to: whenever some thread is not at rest, some thread
  can take a calm step, so by the rank of \<open>Progress\<close> every run that is left alone settles.
  A settled open pool has run everything; a settled closed one has let all its workers go.
\<close>

section \<open>Threads that can move\<close>

definition asleep :: "'r sys \<Rightarrow> nat \<Rightarrow> bool" where
  "asleep s i \<longleftrightarrow> wpcs s i = WWait \<and> i \<in> waiters (que s)"

definition settled :: "'r sys \<Rightarrow> bool" where
  "settled s \<longleftrightarrow> (\<forall>p. ppcs s p = HDone) \<and> (cpc s = CIdle \<or> cpc s = CDone)
     \<and> (\<forall>i < num_workers s. wpcs s i = WExit \<or> asleep s i)"

text \<open>Only the mutex can hold up a thread that is in a call of the queue, and a thread inside
  its critical section is never held up.\<close>

lemma hand_can_step:
  assumes "h \<noteq> HDone" and "hand_holds h \<or> park q = None"
  shows "\<exists>q' h'. hand_step t (q, h) (q', h') \<and> h' \<noteq> h"
proof (cases h)
  case (HLoadNotified p)
  then show ?thesis by (cases "notified q < p") (blast intro: hand_step.intros)+
next
  case HRecheck
  then show ?thesis by (cases "notified q < parked q") (blast intro: hand_step.intros)+
next
  case HNotify
  then show ?thesis by (cases "waiters q = {}") (blast intro: hand_step.intros)+
qed (use assms in \<open>auto intro: hand_step.intros\<close>)

lemma shutdown_can_step:
  assumes "k \<noteq> CIdle" and "k \<noteq> CDone" and "closer_holds k \<or> park q = None"
  shows "\<exists>q' k'. shutdown_step (q, k) (q', k') \<and> k' \<noteq> k \<and> k' \<noteq> CIdle"
  using assms by (cases k) (auto intro: shutdown_step.intros)

lemma steal_one_never_retries: "never_retries steal_one"
  unfolding never_retries_def
proof (intro allI)
  fix v own :: "'r list"
  show "fst (steal_one v own) \<noteq> Retry" by (cases v) auto
qed

text \<open>A scan can go on without contention, whatever it has met before.\<close>

lemma scan_can_step:
  assumes "wf_queue q" and "registered q c" and "pc_fits q pc"
    and going: "scan_finished (q, c, pc) = None"
  obtains q' c' pc' where "scan_step steal_one p q c pc = (q', c', pc')" "pc' \<noteq> pc"
    "contended pc' \<longrightarrow> contended pc"
proof -
  obtain q' c' pc' where step: "scan_step steal_one p q c pc = (q', c', pc')"
    by (cases "scan_step steal_one p q c pc")
  with scan_step_fits [OF assms, of steal_one p] steal_one_never_retries that [OF step]
  show ?thesis by (auto simp: step_fits_def)
qed

definition pop_moves :: "nat \<Rightarrow> 'r queue \<Rightarrow> worker_context \<Rightarrow> 'r wpc \<Rightarrow> bool" where
  "pop_moves i q c pc \<longleftrightarrow> (\<exists>q' c' pc'. pop_step i (q, c, pc) (q', c', pc') \<and> pc' \<noteq> pc
     \<and> (in_contention pc' \<longrightarrow> in_contention pc))"

lemma pop_movesI:
  "pop_step i (q, c, pc) (q', c', pc') \<Longrightarrow> pc' \<noteq> pc \<Longrightarrow> \<not> in_contention pc' \<Longrightarrow> pop_moves i q c pc"
  by (auto simp: pop_moves_def)

lemma scans_move:
  assumes "wf_queue q" and "registered q c" and "pc_fits q pc"
    and "scan_finished (q, c, pc) = None"
  shows "pop_moves i q c (WScan k pc)" and "pop_moves i q c (WRescan pc)"
proof -
  obtain q' c' pc' where "scan_step steal_one Cheap q c pc = (q', c', pc')" "pc' \<noteq> pc"
    "contended pc' \<longrightarrow> contended pc"
    using scan_can_step [OF assms] .
  with cheap_scan [OF steal_one_laws assms(4)] show "pop_moves i q c (WScan k pc)"
    unfolding pop_moves_def by (intro exI conjI) auto
  obtain q' c' pc' where "scan_step steal_one Strict q c pc = (q', c', pc')" "pc' \<noteq> pc"
    "contended pc' \<longrightarrow> contended pc"
    using scan_can_step [OF assms] .
  with strict_scan [OF steal_one_laws assms(4)] show "pop_moves i q c (WRescan pc)"
    unfolding pop_moves_def by (intro exI conjI) auto
qed

lemma after_unlock_moves [simp]: "after_unlock a \<noteq> WUnlock b" "\<not> in_contention (after_unlock a)"
  by (cases a; simp)+

lemma pop_can_step:
  assumes wf: "wf_queue q" and reg: "registered q c \<or> pc = WStart" and fits: "wpc_fits q pc"
    and i: "i < length (stealers q)" and free: "w_holds pc \<or> park q = None"
    and inside: "\<And>r. pc \<noteq> WRun r" "\<And>r h. pc \<noteq> WPush r h" "pc \<noteq> WExit" "pc = WWait \<Longrightarrow> i \<notin> waiters q"
  shows "pop_moves i q c pc"
proof (cases pc)
  case WStart
  obtain q' c' where "register_worker i q = Some (q', c')"
    using i by (auto simp: register_worker_def Let_def)
  with WStart show ?thesis by (auto intro: pop_movesI pop_step.start)
next
  case (WScan k pc1)
  show ?thesis
  proof (cases pc1)
    case (SDone res)
    consider r where "res = Some r" | "res = None" "k < SPIN_ROUNDS" | "res = None" "\<not> k < SPIN_ROUNDS"
      by (cases res) auto
    then show ?thesis
      by cases (use WScan SDone in \<open>auto intro: pop_movesI [OF cheap_found]
        pop_movesI [OF cheap_spin] pop_movesI [OF cheap_give_up]\<close>)
  qed (use WScan reg fits scans_move(1) [OF wf, of c pc1] in auto)
next
  case (WRescan pc1)
  show ?thesis
  proof (cases pc1)
    case (SDone res)
    with WRescan show ?thesis
      by (cases res) (auto intro: pop_movesI [OF strict_found] pop_movesI [OF strict_nothing])
  qed (use WRescan reg fits scans_move(2) [OF wf, of c pc1] in auto)
next
  case WCheck
  then show ?thesis
    by (cases "shutdown_flag q")
      (auto intro: pop_movesI [OF check_shutdown] pop_movesI [OF check_running])
next
  case (WAdjust a)
  then show ?thesis by (auto intro: pop_movesI [OF adjust])
next
  case (WDisarm a)
  then show ?thesis by (auto intro: pop_movesI [OF disarm])
next
  case (WUnlock a)
  then show ?thesis by (auto intro: pop_movesI [OF pop_unlock])
qed (use inside free in \<open>auto intro: pop_movesI [OF pop_lock] pop_movesI [OF arm] pop_movesI [OF wait]
      pop_movesI [OF wake]\<close>)

section \<open>The system is never stuck\<close>

lemma calm_worker:
  assumes "sys_step s s'" and "wpcs s' = (wpcs s)(i := pc')" and "pc' \<noteq> wpcs s i"
    and "in_contention pc' \<longrightarrow> in_contention (wpcs s i)"
    and "pushed s' = pushed s" "routes s' = routes s" "crashes s' = crashes s" "cpc s' = cpc s"
  shows "calm_step s s'"
proof -
  have "wpcs s' i \<noteq> wpcs s i" using assms(2,3) by simp
  then have "s' \<noteq> s" by auto
  then show ?thesis using assms by (simp add: calm_step_def)
qed

lemma worker_moves:
  assumes inv: "prog_inv s" and i: "i < num_workers s"
    and restless: "\<not> (wpcs s i = WExit \<or> asleep s i)"
    and free: "w_holds (wpcs s i) \<or> park (que s) = None"
  shows "\<exists>s'. calm_step s s' \<and> (\<forall>j. j \<noteq> i \<longrightarrow> wpcs s' j = wpcs s j)"
proof (cases "\<exists>r. wpcs s i = WRun r")
  case True
  then obtain r where pc: "wpcs s i = WRun r" ..
  have "calm_step s (s\<lparr>wpcs := (wpcs s)(i := WScan 0 SOwn), ran := add_mset r (ran s)\<rparr>)"
    by (rule calm_worker [OF worker_finish [OF i pc], of i "WScan 0 SOwn"]) (simp_all add: pc)
  then show ?thesis by (intro exI conjI) auto
next
  case not_run: False
  show ?thesis
  proof (cases "\<exists>r h. wpcs s i = WPush r h")
    case True
    then obtain r h where pc: "wpcs s i = WPush r h" by blast
    show ?thesis
    proof (cases "h = HDone")
      case True
      with pc have "wpcs s i = WPush r HDone" by simp
      from calm_worker [OF self_return [OF i this], of i "WRun r"] this show ?thesis by auto
    next
      case False
      moreover have "hand_holds h \<or> park (que s) = None" using free pc by simp
      ultimately obtain q' h' where hand: "hand_step (Wrk i) (que s, h) (q', h')" "h' \<noteq> h"
        using hand_can_step by blast
      from calm_worker [OF self_hand [OF i pc hand(1)], of i "WPush r h'"] pc hand(2)
      show ?thesis by auto
    qed
  next
    case False
    have "prog_inv s" "i < length (stealers (que s))" using inv i by (simp_all add: num_workers_def)
    then have "pop_moves i (que s) (ctxs s i) (wpcs s i)"
      using full_inv_worker [of s i] i free not_run False restless
      by (intro pop_can_step) (auto simp: prog_inv_def scans_fit_def asleep_def)
    then obtain q' c' pc' where pop: "pop_step i (que s, ctxs s i, wpcs s i) (q', c', pc')"
      "pc' \<noteq> wpcs s i" "in_contention pc' \<longrightarrow> in_contention (wpcs s i)"
      by (auto simp: pop_moves_def)
    from calm_worker [OF worker_pop [OF i pop(1)], of i pc'] pop(2,3) show ?thesis by auto
  qed
qed

lemma producer_moves:
  assumes "ppcs s p \<noteq> HDone" and "hand_holds (ppcs s p) \<or> park (que s) = None"
  shows "\<exists>s'. calm_step s s' \<and> wpcs s' = wpcs s"
proof -
  obtain q' h' where step: "hand_step (Prod p) (que s, ppcs s p) (q', h')" "h' \<noteq> ppcs s p"
    using hand_can_step [OF assms] by blast
  let ?s' = "s\<lparr>que := q', ppcs := (ppcs s)(p := h')\<rparr>"
  have "ppcs ?s' p \<noteq> ppcs s p" using step(2) by simp
  then have "?s' \<noteq> s" by metis
  with foreign_hand [OF step(1)] have "calm_step s ?s'" by (simp add: calm_step_def)
  then show ?thesis by (intro exI [of _ ?s']) simp
qed

lemma closer_moves:
  assumes "cpc s \<noteq> CIdle" and "cpc s \<noteq> CDone" and "closer_holds (cpc s) \<or> park (que s) = None"
  shows "\<exists>s'. calm_step s s' \<and> wpcs s' = wpcs s"
proof -
  obtain q' k' where step: "shutdown_step (que s, cpc s) (q', k')" "k' \<noteq> cpc s" "k' \<noteq> CIdle"
    using shutdown_can_step [OF assms] by blast
  let ?s' = "s\<lparr>que := q', cpc := k'\<rparr>"
  have "cpc ?s' \<noteq> cpc s" using step(2) by simp
  then have "?s' \<noteq> s" by metis
  with closing [OF step(1)] step(3) assms(1) have "calm_step s ?s'" by (simp add: calm_step_def)
  then show ?thesis by (intro exI [of _ ?s']) simp
qed

lemma holder_moves:
  assumes "prog_inv s" and "in_critical s t"
  shows "\<exists>s'. calm_step s s' \<and> (\<forall>j. Wrk j \<noteq> t \<longrightarrow> wpcs s' j = wpcs s j)"
proof (cases t)
  case (Wrk i)
  with assms(2) have "i < num_workers s" "w_holds (wpcs s i)" by simp_all
  moreover from this have "\<not> (wpcs s i = WExit \<or> asleep s i)" by (auto simp: asleep_def)
  ultimately show ?thesis using worker_moves [OF assms(1)] Wrk by simp
next
  case (Prod p)
  with assms(2) have "hand_holds (ppcs s p)" "ppcs s p \<noteq> HDone" by auto
  with producer_moves [of s p] show ?thesis by auto
next
  case Closer
  with assms(2) have "closer_holds (cpc s)" "cpc s \<noteq> CIdle" "cpc s \<noteq> CDone" by auto
  with closer_moves [of s] show ?thesis by auto
qed

text \<open>
  The workers in \<open>V\<close> are held up outside the mutex; the others can move on unless all of
  them rest.
\<close>

definition settled_but :: "nat set \<Rightarrow> 'r sys \<Rightarrow> bool" where
  "settled_but V s \<longleftrightarrow> (\<forall>p. ppcs s p = HDone) \<and> (cpc s = CIdle \<or> cpc s = CDone)
     \<and> (\<forall>i < num_workers s. i \<notin> V \<longrightarrow> wpcs s i = WExit \<or> asleep s i)"

lemma others_move:
  assumes inv: "prog_inv s" and "\<not> settled_but V s" and "\<forall>v \<in> V. \<not> w_holds (wpcs s v)"
  shows "\<exists>s'. calm_step s s' \<and> (\<forall>v \<in> V. wpcs s' v = wpcs s v)"
proof (cases "park (que s)")
  case None
  from assms(2) consider p where "ppcs s p \<noteq> HDone" | "cpc s \<noteq> CIdle" "cpc s \<noteq> CDone"
    | i where "i < num_workers s" "i \<notin> V" "\<not> (wpcs s i = WExit \<or> asleep s i)"
    by (auto simp: settled_but_def)
  then show ?thesis
  proof cases
    case (1 p)
    with None producer_moves [of s p] show ?thesis by auto
  next
    case 2
    with None closer_moves [of s] show ?thesis by auto
  next
    case (3 i)
    from worker_moves [OF inv 3(1,3)] None obtain s' where
      "calm_step s s'" "\<forall>j. j \<noteq> i \<longrightarrow> wpcs s' j = wpcs s j" by blast
    with 3(2) show ?thesis by (intro exI [of _ s']) auto
  qed
next
  case (Some t)
  then have crit: "in_critical s t"
    using inv unfolding prog_inv_def full_inv_def queue_inv_def acct_inv_def park_lock.exact_def
    by blast
  then have "Wrk v \<noteq> t" if "v \<in> V" for v using assms(3) that by auto
  with holder_moves [OF inv crit] show ?thesis by blast
qed

lemma unsettled_moves: "prog_inv s \<Longrightarrow> \<not> settled s \<Longrightarrow> \<exists>s'. calm_step s s'"
  using others_move [of s "{}"] by (auto simp: settled_def settled_but_def)

interpretation progress: progress_system sys_init sys_step prog_inv calm_step settled rank below
proof unfold_locales
  show "prog_inv s" if "sys_init s" for s :: "'a sys" using that by (rule prog_inv_init)
  show "prog_inv t" if "prog_inv s" "sys_step s t" for s t :: "'a sys"
    using that by (rule prog_inv_step)
  show "sys_step s t" if "calm_step s t" for s t :: "'a sys" using that by (simp add: calm_step_def)
  show "(rank t, rank s) \<in> below" if "prog_inv s" "calm_step s t" for s t :: "'a sys"
    using that by (rule calm_lowers_rank)
  show "\<exists>t. calm_step s t" if "prog_inv s" "\<not> settled s" for s :: "'a sys"
    using that by (rule unsettled_moves)
qed (rule wf_below)

section \<open>What a settled pool looks like\<close>

lemma settled_open:
  assumes "reachable s" and "settled s" and "cpc s = CIdle"
  shows "(\<forall>i < num_workers s. asleep s i)
    \<and> (\<forall>j < length (injectors (que s)). injectors (que s) ! j = [])
    \<and> (\<forall>v < num_workers s. \<forall>a. stealers (que s) ! v = Some a \<longrightarrow> deques (que s) a = [])
    \<and> pushed s = ran s + orphans (que s) \<and> (crashes s = 0 \<longrightarrow> ran s = pushed s)"
proof -
  note inv = full_invD [OF assms(1)]
  have one: "1 \<le> num_workers s" using inv(1) by (simp add: acct_inv_def pool_size_ok_def)
  have asleep: "asleep s i" if "i < num_workers s" for i
  proof -
    have "wpcs s i \<noteq> WExit" using inv(3) assms(3) that by (auto simp: closing_inv_def)
    with assms(2) that show ?thesis unfolding settled_def by blast
  qed
  have "\<not> at_hand s t h" if "pending h" for t h
    using assms(2) asleep that by (cases t) (auto simp: settled_def asleep_def)
  then have "\<not> push_pending s" by (auto simp: push_pending_def)
  moreover have "\<not> someone_looks s j" for j
    using asleep by (auto simp: someone_looks_def asleep_def)
  moreover have "\<not> all_gone s" using asleep one by (fastforce simp: all_gone_def asleep_def)
  ultimately have inj: "injectors (que s) ! j = []" if "j < length (injectors (que s))" for j
    using inv(4) that by (auto simp: wake_inv_def covered_def)
  have rest: "at_rest (wpcs s i)" if "i < num_workers s" for i
    using asleep [OF that] by (simp add: asleep_def)
  show ?thesis
    using asleep inj resting_slots_empty [OF inv(2) rest] resting_accounts [OF inv(2) rest inj]
      no_orphans [OF inv(2)] by auto
qed

lemma settled_closed:
  assumes "reachable s" and "settled s" and "cpc s \<noteq> CIdle"
  shows "cpc s = CDone \<and> (\<forall>i < num_workers s. wpcs s i = WExit)"
proof -
  have "cpc s = CDone" using assms(2,3) by (auto simp: settled_def)
  moreover from this have "waiters (que s) = {}"
    using full_invD(3) [OF assms(1)] by (simp add: closing_inv_def)
  then have "\<not> asleep s i" for i by (simp add: asleep_def)
  ultimately show ?thesis using assms(2) by (auto simp: settled_def)
qed

section \<open>Properties\<close>

lemma calm_step_reachable: "reachable s \<Longrightarrow> calm_step s s' \<Longrightarrow> reachable s'"
  by (simp add: calm_step_def reach_step)

lemma calm_step_keeps:
  assumes "calm_step s s'"
  shows "pushed s' = pushed s" "crashes s' = crashes s" "cpc s' = CIdle \<longleftrightarrow> cpc s = CIdle"
  using assms by (simp_all add: calm_step_def)

lemma calm_step_quiet:
  assumes "calm_step s s'" and "\<forall>p. ppcs s p = HDone"
  shows "quiet_step s s'"
proof -
  have "ppcs s' = ppcs s"
    using assms(1) by (cases rule: calm_step_cases) (use assms(2) in \<open>auto simp: no_step_at\<close>)
  with assms show ?thesis by (simp add: quiet_step_def calm_step_def)
qed

text \<open>
  C17. No deadlock: in every reachable state in which some thread is not at rest (a push or
  \<open>shutdown\<close> is under way, or a worker is neither asleep without a signal nor gone), some
  thread can take a step of its own that does not need anybody else: the mutex, the
  condition variable and the scans never leave the threads waiting for each other.
\<close>
theorem queue_never_deadlocks:
  assumes "reachable s"
    and "\<not> ((\<forall>p. ppcs s p = HDone) \<and> (cpc s = CIdle \<or> cpc s = CDone)
      \<and> (\<forall>i < num_workers s. wpcs s i = WExit \<or> wpcs s i = WWait \<and> i \<in> waiters (que s)))"
  shows "\<exists>s'. calm_step s s'"
  using progress.not_stuck [OF progress.reachable_inv [OF assms(1)]] assms(2)
  by (simp add: settled_def asleep_def)

theorem queue_never_deadlocks_witness:
  "\<exists>s'. calm_step (lone lone_notified WWait HNotify CIdle {#7#}) s'"
  by (rule queue_never_deadlocks [OF lone_notified_reachable]) (simp add: lone_def)

text \<open>
  C18. Undisturbed runs end: no infinite run from a reachable state consists, from some point
  on, of calm steps only. A pool that keeps its threads busy for ever is being pushed to,
  shut down, unwound or contended again and again; it does not spin on its own.
\<close>
theorem undisturbed_runs_end:
  "wf {(s', s :: 'r sys). reachable s \<and> calm_step s s'}"
  by (rule progress.calm_runs_end)



text \<open>
  \<open>Drop for Threadpool\<close> does not hang in \<open>join\<close>: once \<open>shutdown\<close> has been
  called, every run without further disturbance ends with \<open>shutdown\<close> returned, every push
  returned and every worker gone, whatever it was doing when the shutdown began.
\<close>
theorem shutdown_ends_every_worker:
  assumes "reachable s" and "cpc s \<noteq> CIdle"
  shows "inevitable calm_step (\<lambda>s'. cpc s' = CDone \<and> (\<forall>p. ppcs s' p = HDone)
      \<and> (\<forall>i < num_workers s'. wpcs s' i = WExit)) s"
proof (rule inevitable_conseq [OF progress.inevitable_goal [OF assms(1)],
      where I = "\<lambda>s'. reachable s' \<and> cpc s' \<noteq> CIdle"])
  fix s' assume "reachable s' \<and> cpc s' \<noteq> CIdle" and "settled s'"
  with settled_closed [of s'] show "cpc s' = CDone \<and> (\<forall>p. ppcs s' p = HDone)
      \<and> (\<forall>i < num_workers s'. wpcs s' i = WExit)"
    by (simp add: settled_def)
next
  fix s' t assume "reachable s' \<and> cpc s' \<noteq> CIdle" and "calm_step s' t"
  with calm_step_keeps [of s' t] calm_step_reachable [of s' t]
  show "reachable t \<and> cpc t \<noteq> CIdle" by simp
qed (use assms in simp)

theorem shutdown_ends_every_worker_witness:
  "inevitable calm_step (\<lambda>s'. cpc s' = CDone) (lone lone_closed WExit HDone CDone {#})"
  by (rule inevitable_conseq [OF shutdown_ends_every_worker
          [OF lone_run_reachable [OF lone_exited_run]], where I = "\<lambda>_. True"])
    (simp_all add: lone_def)

text \<open>
  And it leaves nothing undone: if nobody outside pushes from the moment \<open>shutdown\<close> is
  called (jobs may go on spawning jobs until the disturbances cease), then when the workers
  have gone, as they must, no runnable is left where a worker could reach it, and all have been
  run but for those an unwound worker left in its old deque; if none unwound, all.
\<close>
theorem drop_completes_all_work:
  assumes "reachable s0" and "cpc s0 = CIdle" and "\<forall>p. ppcs s0 p = HDone"
    and "quiet_step\<^sup>*\<^sup>* s0 s" and "cpc s \<noteq> CIdle"
  shows "inevitable calm_step (\<lambda>s'. (\<forall>i < num_workers s'. wpcs s' i = WExit)
      \<and> (\<forall>j < length (injectors (que s')). injectors (que s') ! j = [])
      \<and> (\<forall>v < num_workers s'. \<forall>a. stealers (que s') ! v = Some a \<longrightarrow> deques (que s') a = [])
      \<and> pushed s = ran s' + orphans (que s') \<and> (crashes s = 0 \<longrightarrow> ran s' = pushed s)) s"
proof -
  let ?I = "\<lambda>s'. quiet_step\<^sup>*\<^sup>* s0 s' \<and> cpc s' \<noteq> CIdle \<and> pushed s' = pushed s \<and> crashes s' = crashes s"
  have run: "reachable s' \<and> drain_inv s' \<and> (\<forall>p. ppcs s' p = HDone)" if "quiet_step\<^sup>*\<^sup>* s0 s'" for s'
    using drain_run [OF that assms(1) drain_start [OF assms(1-3)] assms(3)] .
  show ?thesis
  proof (rule inevitable_conseq [OF progress.inevitable_goal, where I = ?I])
    fix s' t assume "?I s'" and "calm_step s' t"
    with run [of s'] have "quiet_step s' t" using calm_step_quiet [of s' t] by blast
    with \<open>?I s'\<close> calm_step_keeps [OF \<open>calm_step s' t\<close>] show "?I t"
      by (auto intro: rtranclp.rtrancl_into_rtrancl)
  next
    fix s' assume I: "?I s'" and "settled s'"
    with run [of s'] settled_closed [of s'] have gone: "\<forall>i < num_workers s'. wpcs s' i = WExit"
      by blast
    from I have eq: "pushed s = pushed s'" "crashes s = crashes s'" by simp_all
    have "reachable s'" "drain_inv s'" using run [of s'] I by simp_all
    from gone drained_when_gone [OF this gone] show "(\<forall>i < num_workers s'. wpcs s' i = WExit)
      \<and> (\<forall>j < length (injectors (que s')). injectors (que s') ! j = [])
      \<and> (\<forall>v < num_workers s'. \<forall>a. stealers (que s') ! v = Some a \<longrightarrow> deques (que s') a = [])
      \<and> pushed s = ran s' + orphans (que s') \<and> (crashes s = 0 \<longrightarrow> ran s' = pushed s)"
      unfolding eq by blast
  qed (use run assms(4,5) in auto)
qed

theorem drop_completes_all_work_witness:
  "inevitable calm_step (\<lambda>s'. ran s' = {#}) (lone lone_closed WExit HDone CDone {#})"
proof -
  let ?s = "lone lone_queue WStart HDone CIdle {#}"
  have "reachable ?s" by (rule reach_init) (rule lone_init)
  from drop_completes_all_work [OF this _ _ lone_exited_run] show ?thesis
    by (rule inevitable_conseq [where I = "\<lambda>_. True"]) (simp_all add: lone_def)
qed

end
