(* ===== verification/Replay.thy ===== *)
theory Replay
  imports Liveness
begin

text \<open>
  The step relation of \<open>Handshake\<close> as an executable scheduler: a schedule names the thread
  that moves next and resolves what the rules leave open (the outcome of a steal, the waiter
  that \<open>notify_one\<close> wakes). Every run of the scheduler is a run of the system, so that
  behaviours of pools with several workers can be computed.
\<close>

section \<open>The scheduler\<close>

datatype grab = Half | One | Beaten

fun steal_by :: "grab \<Rightarrow> 'r steal_fn" where
  "steal_by Half = steal_half"
| "steal_by One = steal_one"
| "steal_by Beaten = steal_beaten"

lemma steal_by_laws: "steal_laws (steal_by g)"
  by (cases g) (simp_all add: steal_half_laws steal_one_laws steal_beaten_laws)

fun pop_next ::
  "grab \<Rightarrow> nat \<Rightarrow> 'r queue \<times> worker_context \<times> 'r wpc \<Rightarrow>
     ('r queue \<times> worker_context \<times> 'r wpc) option" where
  "pop_next g i (q, c, WStart) =
     (case register_worker i q of
        Some (q', c') \<Rightarrow> Some (q', c', WScan 0 SOwn)
      | None \<Rightarrow> None)"
| "pop_next g i (q, c, WScan k (SDone (Some r))) = Some (q, c, WRun r)"
| "pop_next g i (q, c, WScan k (SDone None)) =
     Some (q, c, if k < SPIN_ROUNDS then WScan (Suc k) SOwn else WLock)"
| "pop_next g i (q, c, WScan k pc) =
     (case scan_step (steal_by g) Cheap q c pc of (q', c', pc') \<Rightarrow> Some (q', c', WScan k pc'))"
| "pop_next g i (q, c, WLock) =
     (if park q = None then Some (q\<lparr>park := Some (Wrk i)\<rparr>, c, WArm) else None)"
| "pop_next g i (q, c, WArm) = Some (q\<lparr>parked := parked q + 1\<rparr>, c, WRescan SOwn)"
| "pop_next g i (q, c, WRescan (SDone (Some r))) = Some (q, c, WAdjust (Got r))"
| "pop_next g i (q, c, WRescan (SDone None)) = Some (q, c, WCheck)"
| "pop_next g i (q, c, WRescan pc) =
     (case scan_step (steal_by g) Strict q c pc of (q', c', pc') \<Rightarrow> Some (q', c', WRescan pc'))"
| "pop_next g i (q, c, WCheck) = Some (q, c, if shutdown_flag q then WAdjust Quit else WSleep)"
| "pop_next g i (q, c, WSleep) =
     Some (q\<lparr>park := None, waiters := insert i (waiters q)\<rparr>, c, WWait)"
| "pop_next g i (q, c, WWait) =
     (if i \<notin> waiters q \<and> park q = None then Some (q\<lparr>park := Some (Wrk i)\<rparr>, c, WAdjust Again)
      else None)"
| "pop_next g i (q, c, WAdjust a) =
     Some (if 0 < notified q then q\<lparr>notified := notified q - 1\<rparr> else q, c, WDisarm a)"
| "pop_next g i (q, c, WDisarm a) = Some (q\<lparr>parked := parked q - 1\<rparr>, c, WUnlock a)"
| "pop_next g i (q, c, WUnlock a) = Some (q\<lparr>park := None\<rparr>, c, after_unlock a)"
| "pop_next g i (q, c, pc) = None"

fun hand_next :: "nat \<Rightarrow> tid \<Rightarrow> 'r queue \<times> hand_pc \<Rightarrow> ('r queue \<times> hand_pc) option" where
  "hand_next w t (q, HLoadParked) = Some (q, HLoadNotified (parked q))"
| "hand_next w t (q, HLoadNotified p) = Some (q, if notified q < p then HLock else HDone)"
| "hand_next w t (q, HLock) =
     (if park q = None then Some (q\<lparr>park := Some t\<rparr>, HRecheck) else None)"
| "hand_next w t (q, HRecheck) =
     Some (if notified q < parked q then (q\<lparr>notified := notified q + 1\<rparr>, HNotify) else (q, HUnlock))"
| "hand_next w t (q, HNotify) =
     (if w \<in> waiters q then Some (q\<lparr>waiters := waiters q - {w}\<rparr>, HUnlock)
      else if waiters q = {} then Some (q, HUnlock) else None)"
| "hand_next w t (q, HUnlock) = Some (q\<lparr>park := None\<rparr>, HDone)"
| "hand_next w t (q, HDone) = None"

lemma adjust_cases:
  "0 < notified q \<Longrightarrow> pop_step i (q, c, WAdjust a) (q\<lparr>notified := notified q - 1\<rparr>, c, WDisarm a)"
  "\<not> 0 < notified q \<Longrightarrow> pop_step i (q, c, WAdjust a) (q, c, WDisarm a)"
  using adjust [of i q c a] by simp_all

lemma pop_next_sound: "pop_next g i x = Some y \<Longrightarrow> pop_step i x y"
  by (induction g i x rule: pop_next.induct)
    (auto simp del: scan_step.simps intro: pop_step.intros(1,3-7,9-14,16-) adjust_cases
      cheap_scan [OF steal_by_laws] strict_scan [OF steal_by_laws]
      split: option.splits prod.splits if_splits)

lemma hand_next_sound: "hand_next w t x = Some y \<Longrightarrow> hand_step t x y"
  by (induction w t x rule: hand_next.induct)
    (auto intro: hand_step.intros split: if_splits)

text \<open>
  One move of one thread: a step of a worker inside \<open>pop_blocking\<close>; the end of a run; a push
  by a job, the handshake it enters, and the return to the job; a push by a producer that
  belongs to no pool, and its handshake. The number in a handshake move is the waiter to wake.
\<close>

datatype 'r move =
    Pop nat grab
  | Finish nat
  | Self_Push nat 'r
  | Self_Hand nat nat
  | Self_Return nat
  | Push nat 'r
  | Hand nat nat

fun sys_next :: "'r move \<Rightarrow> 'r sys \<Rightarrow> 'r sys option" where
  "sys_next (Pop i g) s =
     (if i < num_workers s then
        (case pop_next g i (que s, ctxs s i, wpcs s i) of
           Some (q', c', pc') \<Rightarrow>
             Some (s\<lparr>que := q', ctxs := (ctxs s)(i := c'), wpcs := (wpcs s)(i := pc')\<rparr>)
         | None \<Rightarrow> None)
      else None)"
| "sys_next (Finish i) s =
     (if i < num_workers s then
        (case wpcs s i of
           WRun r \<Rightarrow> Some (s\<lparr>wpcs := (wpcs s)(i := WScan 0 SOwn), ran := add_mset r (ran s)\<rparr>)
         | _ \<Rightarrow> None)
      else None)"
| "sys_next (Self_Push i x) s =
     (if i < num_workers s then
        (case wpcs s i of
           WRun r \<Rightarrow>
             (case push_dest QID (enter_worker_scope QID (ctxs s i)) (shard_mask (que s)) 0 None of
                (d, cell') \<Rightarrow> Some (s\<lparr>que := enqueue d x (que s),
                  wpcs := (wpcs s)(i := WPush r HLoadParked), pushed := add_mset x (pushed s)\<rparr>))
         | _ \<Rightarrow> None)
      else None)"
| "sys_next (Self_Hand i w) s =
     (if i < num_workers s then
        (case wpcs s i of
           WPush r h \<Rightarrow>
             (case hand_next w (Wrk i) (que s, h) of
                Some (q', h') \<Rightarrow> Some (s\<lparr>que := q', wpcs := (wpcs s)(i := WPush r h')\<rparr>)
              | None \<Rightarrow> None)
         | _ \<Rightarrow> None)
      else None)"
| "sys_next (Self_Return i) s =
     (if i < num_workers s then
        (case wpcs s i of
           WPush r h \<Rightarrow> if h = HDone then Some (s\<lparr>wpcs := (wpcs s)(i := WRun r)\<rparr>) else None
         | _ \<Rightarrow> None)
      else None)"
| "sys_next (Push p x) s =
     (if ppcs s p = HDone then
        (case push_dest QID None (shard_mask (que s)) (hashes s p) (routes s p) of
           (d, cell') \<Rightarrow> Some (s\<lparr>que := enqueue d x (que s), ppcs := (ppcs s)(p := HLoadParked),
             routes := (routes s)(p := cell'), pushed := add_mset x (pushed s)\<rparr>))
      else None)"
| "sys_next (Hand p w) s =
     (case hand_next w (Prod p) (que s, ppcs s p) of
        Some (q', h') \<Rightarrow> Some (s\<lparr>que := q', ppcs := (ppcs s)(p := h')\<rparr>)
      | None \<Rightarrow> None)"

primrec replay :: "'r move list \<Rightarrow> 'r sys \<Rightarrow> 'r sys option" where
  "replay [] s = Some s"
| "replay (m # ms) s = Option.bind (sys_next m s) (replay ms)"

lemma sys_next_sound:
  assumes "sys_next m s = Some s'"
  shows "sys_step s s'"
proof (cases m)
  case (Pop i g)
  with assms show ?thesis
    by (auto intro: worker_pop pop_next_sound split: option.splits if_splits)
next
  case (Finish i)
  with assms show ?thesis by (auto intro: worker_finish split: wpc.splits if_splits)
next
  case (Self_Push i x)
  with assms show ?thesis by (auto intro: self_push split: wpc.splits if_splits prod.splits)
next
  case (Self_Hand i w)
  with assms show ?thesis
    by (auto intro: self_hand hand_next_sound split: wpc.splits option.splits if_splits)
next
  case (Self_Return i)
  with assms show ?thesis by (auto intro: self_return split: wpc.splits if_splits)
next
  case (Push p x)
  with assms show ?thesis
    by (auto intro: foreign_push [where handle = None] split: if_splits prod.splits)
next
  case (Hand p w)
  with assms show ?thesis by (auto intro: foreign_hand hand_next_sound split: option.splits)
qed

lemma replay_run: "replay ms s = Some s' \<Longrightarrow> sys_step\<^sup>*\<^sup>* s s'"
proof (induction ms arbitrary: s)
  case (Cons m ms)
  from Cons.prems obtain s1 where "sys_next m s = Some s1" "replay ms s1 = Some s'"
    by (auto simp: bind_eq_Some_conv)
  with Cons.IH [of s1] show ?case by (blast intro: sys_next_sound converse_rtranclp_into_rtranclp)
qed simp

lemma replay_reachable:
  assumes "replay ms s = Some s'" and "reachable s"
  shows "reachable s'"
  using replay_run [OF assms(1)] by induction (use assms(2) in \<open>auto intro: reach_step\<close>)

end
