(* ===== verification/Stranding.thy ===== *)
theory Stranding
  imports Replay
begin

text \<open>
  The limit of the wake-up argument. It covers the injectors (\<open>queued_work_has_a_taker\<close>);
  it does not cover runnables that a batch steal moves between worker deques. Here a pool of
  three is driven, by a schedule the scheduler of \<open>Replay\<close> executes, into a state in which
  one worker sleeps while a runnable waits behind another worker's job.
\<close>

section \<open>Scanning an idle pool\<close>

lemma scan_run_pops:
  assumes "\<And>n. steal_laws (stl n)"
  shows "scan_run stl Cheap fuel t (q, c, pc) = Some (res, q', c') \<Longrightarrow>
    (pop_step i)\<^sup>*\<^sup>* (q, c, WScan k pc) (q', c', WScan k (SDone res))"
proof (induction fuel arbitrary: t q c pc)
  case 0
  then show ?case by (simp add: scan_finished_iff)
next
  case (Suc fuel)
  show ?case
  proof (cases "scan_finished (q, c, pc)")
    case (Some out)
    with Suc.prems show ?thesis by (simp add: scan_finished_iff)
  next
    case None
    obtain q1 c1 pc1 where step: "scan_step (stl t) Cheap q c pc = (q1, c1, pc1)"
      by (cases "scan_step (stl t) Cheap q c pc")
    with Suc.prems None have "scan_run stl Cheap fuel (Suc t) (q1, c1, pc1) = Some (res, q', c')"
      by simp
    from Suc.IH [OF this] cheap_scan [OF assms None step] show ?thesis
      by (rule converse_rtranclp_into_rtranclp [rotated])
  qed
qed

lemma pops_reachable:
  assumes "(pop_step i)\<^sup>*\<^sup>* (que s, ctxs s i, wpcs s i) x" and "reachable s" and "i < num_workers s"
  shows "x = (q', c', pc') \<Longrightarrow>
    reachable (s\<lparr>que := q', ctxs := (ctxs s)(i := c'), wpcs := (wpcs s)(i := pc')\<rparr>)
    \<and> length (stealers q') = num_workers s"
  using assms(1)
proof (induction arbitrary: q' c' pc' rule: rtranclp_induct)
  case base
  then have "s\<lparr>que := q', ctxs := (ctxs s)(i := c'), wpcs := (wpcs s)(i := pc')\<rparr> = s" by auto
  with assms(2) base show ?case by (simp only: prod.inject num_workers_def simp_thms)
next
  case (step y z)
  obtain q c pc where y: "y = (q, c, pc)" by (cases y)
  let ?s = "s\<lparr>que := q, ctxs := (ctxs s)(i := c), wpcs := (wpcs s)(i := pc)\<rparr>"
  have pop: "pop_step i (q, c, pc) (q', c', pc')" using step.hyps(2) by (simp only: y step.prems)
  note IH = step.IH [OF y]
  have "num_workers ?s = length (stealers q)" by (simp add: num_workers_def)
  then have i: "i < num_workers ?s" by (simp only: conjunct2 [OF IH] assms(3))
  have here: "pop_step i (que ?s, ctxs ?s i, wpcs ?s i) (q', c', pc')" using pop by simp
  have "reachable (?s\<lparr>que := q', ctxs := (ctxs ?s)(i := c'), wpcs := (wpcs ?s)(i := pc')\<rparr>)"
    by (rule reach_step [OF conjunct1 [OF IH]]) (rule worker_pop [OF i here])
  moreover have "?s\<lparr>que := q', ctxs := (ctxs ?s)(i := c'), wpcs := (wpcs ?s)(i := pc')\<rparr>
      = s\<lparr>que := q', ctxs := (ctxs s)(i := c'), wpcs := (wpcs s)(i := pc')\<rparr>" by simp
  ultimately show ?case using pop_step_slots [OF pop] conjunct2 [OF IH] by (simp only: simp_thms)
qed

definition idle :: "'r queue \<Rightarrow> bool" where
  "idle q \<longleftrightarrow> (\<forall>j < length (injectors q). injectors q ! j = [])
     \<and> (\<forall>v < length (stealers q). \<forall>a. stealers q ! v = Some a \<longrightarrow> deques q a = [])"

lemma idle_step:
  assumes "idle q" and "wf_queue q" and reg: "registered q c" and laws: "steal_laws stl"
    and ok: "pc_ok q c pc" and going: "scan_finished (q, c, pc) = None"
    and step: "scan_step stl p q c pc = (q', c', pc')"
  shows "q' = q \<and> (\<forall>r. pc' \<noteq> SDone (Some r))"
proof -
  have own: "deques q (ctx_deque c) = []"
    using assms(1) reg unfolding idle_def registered_def by blast
  have inj: "injectors q ! j = []" if "j < length (injectors q)" for j
    using assms(1) that by (simp add: idle_def)
  have "my_shard q c < length (injectors q)"
    using wf_queue_mask_less [OF assms(2)] by (simp add: my_shard_def)
  have steal: "q1 = q \<and> (\<forall>r. res \<noteq> Success r)"
    if "j < length (injectors q)" "steal_injector stl p j c q = (res, q1)" for j res q1
    using laws own that by (cases rule: steal_injector_outcome) (use inj that in auto)
  have peer: "q1 = q \<and> (\<forall>r. res \<noteq> Success r)"
    if "v < length (stealers q)" "v \<noteq> ctx_idx c" "steal_peer stl p v c q = (res, q1)" for v res q1
  proof -
    have "stealers q ! v \<noteq> Some (ctx_deque c)" using reg that by (simp add: registered_def)
    from laws own this that(3) show ?thesis
      by (cases rule: steal_peer_outcome) (use assms(1) that in \<open>auto simp: idle_def\<close>)
  qed
  show ?thesis
  proof (cases pc)
    case SOwn
    with step own show ?thesis by auto
  next
    case SPref
    obtain res q1 where "steal_injector stl p (my_shard q c) c q = (res, q1)"
      by (cases "steal_injector stl p (my_shard q c) c q")
    with SPref step steal [OF \<open>my_shard q c < _\<close> this] show ?thesis
      by (cases res) (auto simp: enter_shards_def Let_def split: prod.splits if_splits)
  next
    case (SShards b js)
    show ?thesis
    proof (cases js)
      case Nil
      with SShards step show ?thesis
        by (auto simp: enter_peers_def Let_def split: prod.splits if_splits)
    next
      case (Cons j ks)
      obtain res q1 where "steal_injector stl p j c q = (res, q1)"
        by (cases "steal_injector stl p j c q")
      with SShards Cons step ok steal [OF _ this] show ?thesis by (cases res) auto
    qed
  next
    case (SPeers b vs)
    show ?thesis
    proof (cases vs)
      case Nil
      with SPeers step show ?thesis by (cases b) auto
    next
      case (Cons v ws)
      obtain res q1 where "steal_peer stl p v c q = (res, q1)"
        by (cases "steal_peer stl p v c q")
      with SPeers Cons step ok peer [OF _ _ this] show ?thesis by (cases res) auto
    qed
  next
    case (SDone res)
    with going show ?thesis by simp
  qed
qed

lemma idle_scan_run:
  assumes "idle q" and "wf_queue q" and laws: "\<And>n. steal_laws (stl n)"
  shows "registered q c \<Longrightarrow> pc_ok q c pc \<Longrightarrow> (\<And>r. pc \<noteq> SDone (Some r)) \<Longrightarrow>
    scan_run stl p fuel t (q, c, pc) = Some (res, q', c') \<Longrightarrow>
    res = None \<and> q' = q \<and> ctx_idx c' = ctx_idx c \<and> ctx_deque c' = ctx_deque c"
proof (induction fuel arbitrary: t c pc)
  case 0
  then show ?case by (cases res) (auto simp: scan_finished_iff)
next
  case (Suc fuel)
  show ?case
  proof (cases "scan_finished (q, c, pc)")
    case (Some out)
    with Suc.prems show ?thesis by (cases res) (auto simp: scan_finished_iff)
  next
    case None
    obtain q1 c1 pc1 where step: "scan_step (stl t) p q c pc = (q1, c1, pc1)"
      by (cases "scan_step (stl t) p q c pc")
    note same = idle_step [OF assms(1,2) Suc.prems(1) laws Suc.prems(2) None step]
      and shape = scan_step_shape [OF step]
    have "pc_ok q c1 pc1"
      using scan_step_sound [OF assms(2) Suc.prems(1) laws Suc.prems(2), of t p] same
      by (simp add: step step_sound_def)
    moreover have "registered q c1"
      using same_shape_registered [OF shape Suc.prems(1)] same by simp
    ultimately show ?thesis
      using Suc.IH [of c1 pc1 "Suc t"] same shape(2,3) Suc.prems(4) None by (simp add: step)
  qed
qed

section \<open>A worker of an idle pool goes to the mutex\<close>

text \<open>The context after a cheap scan that found nothing.\<close>

definition scanned :: "'r queue \<Rightarrow> worker_context \<Rightarrow> worker_context" where
  "scanned q c = (case scan (\<lambda>_. steal_half) (2 * pass_length q) q c Cheap of
     Some (res, q', c') \<Rightarrow> c' | None \<Rightarrow> c)"

lemma idle_cheap:
  assumes "idle q" and "wf_queue q" and "registered q c"
  shows "(pop_step i)\<^sup>*\<^sup>* (q, c, WScan k SOwn) (q, scanned q c, WScan k (SDone None))"
    and "registered q (scanned q c)"
proof -
  obtain res q' c' where run: "scan_run (\<lambda>_. steal_half) Cheap (2 * pass_length q) 0 (q, c, SOwn)
      = Some (res, q', c')"
    using scan_run_returns [OF assms(2,3), of SOwn 0 "\<lambda>_. steal_half" 0 "2 * pass_length q" Cheap]
    by (auto simp: steal_half_never_retries)
  from idle_scan_run [OF assms(1,2) steal_half_laws assms(3) _ _ run]
  have same: "res = None" "q' = q" "ctx_idx c' = ctx_idx c" "ctx_deque c' = ctx_deque c" by simp_all
  have c': "scanned q c = c'" using run by (simp add: scanned_def scan_def)
  show "(pop_step i)\<^sup>*\<^sup>* (q, c, WScan k SOwn) (q, scanned q c, WScan k (SDone None))"
    using scan_run_pops [OF steal_half_laws run] by (simp add: same c')
  show "registered q (scanned q c)"
    using assms(3) same by (simp add: c' registered_def)
qed

lemma idle_spins:
  assumes "idle q" and "wf_queue q" and "registered q c"
  shows "k \<le> SPIN_ROUNDS \<Longrightarrow>
    (pop_step i)\<^sup>*\<^sup>* (q, c, WScan 0 SOwn) (q, (scanned q ^^ Suc k) c, WScan k (SDone None))
    \<and> registered q ((scanned q ^^ Suc k) c)"
proof (induction k)
  case 0
  show ?case using idle_cheap [OF assms] by simp
next
  case (Suc k)
  then have "(pop_step i)\<^sup>*\<^sup>* (q, c, WScan 0 SOwn) (q, (scanned q ^^ Suc k) c, WScan k (SDone None))"
    and reg: "registered q ((scanned q ^^ Suc k) c)" and "k < SPIN_ROUNDS"
    by simp_all
  from this(1) cheap_spin [OF this(3)]
  have "(pop_step i)\<^sup>*\<^sup>* (q, c, WScan 0 SOwn) (q, (scanned q ^^ Suc k) c, WScan (Suc k) SOwn)"
    by (rule rtranclp.rtrancl_into_rtrancl)
  from rtranclp_trans [OF this idle_cheap(1) [OF assms(1,2) reg]] idle_cheap(2) [OF assms(1,2) reg]
  show ?case by simp
qed

lemma idle_to_lock:
  assumes "idle q" and "wf_queue q" and "registered q c"
  shows "(pop_step i)\<^sup>*\<^sup>* (q, c, WScan 0 SOwn) (q, (scanned q ^^ 7) c, WLock)"
proof -
  have "(scanned q ^^ 7) c = (scanned q ^^ Suc SPIN_ROUNDS) c" by (simp add: eval_nat_numeral SPIN_ROUNDS_def)
  moreover have "pop_step i (q, x, WScan SPIN_ROUNDS (SDone None)) (q, x, WLock)" for x
    by (rule cheap_give_up) simp
  ultimately show ?thesis
    using idle_spins [OF assms, of SPIN_ROUNDS i] by (metis order_refl rtranclp.rtrancl_into_rtrancl)
qed

section \<open>Three workers\<close>

definition trio_queue :: "nat option list \<Rightarrow> nat \<Rightarrow> nat queue" where
  "trio_queue slots n = \<lparr>injectors = [[], [], [], []], stealers = slots, shard_mask = 3, park = None,
     waiters = {}, parked = 0, notified = 0, shutdown_flag = False, deques = (\<lambda>_. []), next_addr = n\<rparr>"

definition trio :: "nat queue \<Rightarrow> worker_context \<Rightarrow> nat wpc \<Rightarrow> nat sys" where
  "trio q c pc = \<lparr>que = q, ctxs = (\<lambda>_. lone_context)(0 := c), wpcs = (\<lambda>_. WStart)(0 := pc),
     ppcs = (\<lambda>_. HDone), routes = (\<lambda>_. None), hashes = (\<lambda>_. 0), cpc = CIdle, pushed = {#},
     ran = {#}, crashes = 0\<rparr>"

definition trio_locking :: "nat sys" where
  "trio_locking = trio (trio_queue [Some 0, None, None] 1)
     ((scanned (trio_queue [Some 0, None, None] 1) ^^ 7) lone_context) WLock"

lemma trio_init: "sys_init (trio (trio_queue [None, None, None] 0) lone_context WStart)"
proof -
  have "num_shards 3 None = Some 4"
    by (simp add: num_shards_def next_power_of_two_def power_from.simps clamp_def MAX_SHARDS_def)
  then have "queue_new 3 None = Some (trio_queue [None, None, None] 0)"
    by (simp add: queue_new_def trio_queue_def numeral_eq_Suc)
  then show ?thesis unfolding sys_init_def by (auto simp: trio_def intro!: exI [of _ 3])
qed

lemma trio_locking_reachable: "reachable trio_locking"
proof -
  let ?q = "trio_queue [Some 0, None, None] 1"
  let ?s = "trio (trio_queue [None, None, None] 0) lone_context WStart"
  have "register_worker 0 (trio_queue [None, None, None] 0) = Some (?q, lone_context)"
    by (simp add: register_worker_def trio_queue_def lone_context_def fun_upd_idem)
  from start [OF this]
  have first: "pop_step 0 (que ?s, ctxs ?s 0, wpcs ?s 0) (?q, lone_context, WScan 0 SOwn)"
    by (simp add: trio_def)
  have "wf_queue ?q" unfolding wf_queue_def by (intro conjI exI [of _ "2::nat"]) (simp_all add: trio_queue_def)
  moreover have "registered ?q lone_context"
    by (simp add: registered_def trio_queue_def lone_context_def less_Suc_eq numeral_eq_Suc all_conj_distrib)
  moreover have "idle ?q" by (simp add: idle_def trio_queue_def less_Suc_eq numeral_eq_Suc all_conj_distrib)
  ultimately have "(pop_step 0)\<^sup>*\<^sup>* (que ?s, ctxs ?s 0, wpcs ?s 0)
      (?q, (scanned ?q ^^ 7) lone_context, WLock)"
    using converse_rtranclp_into_rtranclp [of "pop_step 0", OF first idle_to_lock] by blast
  moreover have "reachable ?s" by (rule reach_init) (rule trio_init)
  ultimately have "reachable (?s\<lparr>que := ?q, ctxs := (ctxs ?s)(0 := (scanned ?q ^^ 7) lone_context),
      wpcs := (wpcs ?s)(0 := WLock)\<rparr>)"
    using pops_reachable [OF _ _ _ refl, of 0 ?s ?q _ WLock]
    by (simp add: trio_def num_workers_def trio_queue_def)
  then show ?thesis
    by (simp add: trio_locking_def trio_def num_workers_def trio_queue_def)
qed

lemma trio_context:
  "(scanned (trio_queue [Some 0, None, None] 1) ^^ 7) lone_context
     = \<lparr>ctx_idx = 0, ctx_deque = 0, ctx_rng = 82049198\<rparr>"
proof -
  let ?sc = "scanned (trio_queue [Some 0, None, None] 1)"
  let ?c = "\<lambda>r. \<lparr>ctx_idx = 0, ctx_deque = 0, ctx_rng = r\<rparr>"
  have "lone_context = ?c 1" by code_simp
  moreover have "?sc (?c 1) = ?c 67634689" by code_simp
  moreover have "?sc (?c 67634689) = ?c 307599695" by code_simp
  moreover have "?sc (?c 307599695) = ?c 745495504" by code_simp
  moreover have "?sc (?c 745495504) = ?c 435756210" by code_simp
  moreover have "?sc (?c 435756210) = ?c 2916098932" by code_simp
  moreover have "?sc (?c 2916098932) = ?c 1495045943" by code_simp
  moreover have "?sc (?c 1495045943) = ?c 82049198" by code_simp
  ultimately show ?thesis by (simp add: eval_nat_numeral)
qed

text \<open>
  Worker 2 scans up to its peers and pauses; worker 1 takes a job, which pushes three
  runnables; worker 0 arms, finds the injectors and worker 2's deque empty, and pauses;
  worker 2 steals a batch of two from worker 1 and runs the first; worker 1 finishes its job
  and takes its last runnable; worker 0 goes on to worker 1's deque, finds it empty, and sleeps.
\<close>

definition stranding_schedule :: "nat move list" where
  "stranding_schedule = replicate 7 (Pop 2 Half) @ [Push 0 0, Hand 0 0, Hand 0 0]
     @ replicate 7 (Pop 1 Half)
     @ concat (map (\<lambda>x. [Self_Push 1 x, Self_Hand 1 0, Self_Hand 1 0, Self_Return 1]) [1, 2, 3])
     @ replicate 9 (Pop 0 Half) @ [Pop 2 Half, Pop 2 Half, Finish 1, Pop 1 Half, Pop 1 Half]
     @ replicate 5 (Pop 0 Half)"

definition stranding_view ::
  "nat sys \<Rightarrow> nat wpc list \<times> bool \<times> hand_pc \<times> nat option list \<times> nat list \<times> closer_pc \<times> nat" where
  "stranding_view s = (map (wpcs s) [0, 1, 2], 0 \<in> waiters (que s), ppcs s 0, stealers (que s),
     deques (que s) 1, cpc s, crashes s)"

lemma trio_locking_eq:
  "trio_locking = trio (trio_queue [Some 0, None, None] 1)
     \<lparr>ctx_idx = 0, ctx_deque = 0, ctx_rng = 82049198\<rparr> WLock"
  by (simp only: trio_locking_def trio_context)

lemma stranding_run:
  "map_option stranding_view (replay stranding_schedule (trio (trio_queue [Some 0, None, None] 1)
     \<lparr>ctx_idx = 0, ctx_deque = 0, ctx_rng = 82049198\<rparr> WLock))
   = Some ([WWait, WRun 3, WRun 1], True, HDone, [Some 0, Some 2, Some 1], [2], CIdle, 0)"
  by code_simp

fun producer_of :: "'r move \<Rightarrow> nat option" where
  "producer_of (Push p x) = Some p"
| "producer_of (Hand p w) = Some p"
| "producer_of _ = None"

lemma replay_producers:
  "replay ms s = Some s' \<Longrightarrow> Some p \<notin> producer_of ` set ms \<Longrightarrow> ppcs s' p = ppcs s p"
proof (induction ms arbitrary: s)
  case (Cons m ms)
  from Cons.prems(1) obtain s1 where s1: "sys_next m s = Some s1" "replay ms s1 = Some s'"
    by (auto simp: bind_eq_Some_conv)
  have "ppcs s1 p = ppcs s p"
    using s1(1) Cons.prems(2)
    by (cases m) (auto split: if_splits option.splits wpc.splits prod.splits)
  with Cons.IH [OF s1(2)] Cons.prems(2) show ?case by simp
qed simp

section \<open>Property\<close>

text \<open>
  C23. A worker can sleep beside queued work: in a pool of three there is a reachable state, no
  push in its handshake, no shutdown, no worker ever unwound, in which worker 0 sleeps without
  a signal and the other two are inside jobs, while runnable 2 waits in worker 2's deque, where
  a batch steal put it after the armed scan of worker 0 had passed. Nothing wakes worker 0 for
  it: if the two jobs block, runnable 2 is not run.
\<close>
theorem sleeper_beside_queued_work:
  "\<exists>s :: nat sys. reachable s \<and> (\<forall>p. ppcs s p = HDone) \<and> cpc s = CIdle \<and> crashes s = 0
    \<and> num_workers s = 3 \<and> wpcs s 0 = WWait \<and> 0 \<in> waiters (que s)
    \<and> wpcs s 1 = WRun 3 \<and> wpcs s 2 = WRun 1
    \<and> stealers (que s) ! 2 = Some 1 \<and> deques (que s) 1 = [2]"
proof -
  obtain s where run: "replay stranding_schedule trio_locking = Some s"
    and "stranding_view s
      = ([WWait, WRun 3, WRun 1], True, HDone, [Some 0, Some 2, Some 1], [2], CIdle, 0)"
    using stranding_run by (auto simp: trio_locking_eq)
  then have view: "wpcs s 0 = WWait" "wpcs s 1 = WRun 3" "wpcs s 2 = WRun 1" "0 \<in> waiters (que s)"
    "ppcs s 0 = HDone" "stealers (que s) = [Some 0, Some 2, Some 1]" "deques (que s) 1 = [2]"
    "cpc s = CIdle" "crashes s = 0"
    by (simp_all add: stranding_view_def)
  have "Some p \<notin> producer_of ` set stranding_schedule" if "p \<noteq> 0" for p
    using that by (auto simp: stranding_schedule_def)
  then have "ppcs s p = HDone" for p
    using replay_producers [OF run, of p] view(5)
    by (cases "p = 0") (simp_all add: trio_locking_def trio_def)
  with replay_reachable [OF run trio_locking_reachable] view show ?thesis
    by (intro exI [of _ s]) (simp add: num_workers_def)
qed

end
