(* ===== verification/Two_Workers.thy ===== *)
theory Two_Workers
  imports Liveness
begin

text \<open>
  The limit \<open>Stranding\<close> shows for three workers does not exist for two. In a pool of two a
  worker that sleeps unsignalled leaves nothing queued that its peer, busy with a job, would
  have to come back for. The invariant counts: whatever is queued out of the sleeper's sight
  is matched by the peer being on its way to take one runnable and by pushes that still owe a
  signal.
\<close>

section \<open>What is out of sight\<close>

definition slot_items :: "'r queue \<Rightarrow> nat \<Rightarrow> nat" where
  "slot_items q v = (case stealers q ! v of None \<Rightarrow> 0 | Some a \<Rightarrow> length (deques q a))"

text \<open>
  The number of runnables a scan at \<open>pc\<close> has passed or will not come to: in the injectors,
  and in the deque of the peer \<open>v\<close>.
\<close>

definition unseen :: "'r queue \<Rightarrow> 'r scan_pc \<Rightarrow> nat \<Rightarrow> nat" where
  "unseen q pc v =
     (\<Sum>j<length (injectors q). if looks_at pc j then 0 else length (injectors q ! j))
     + (if looks_at_peer pc v then 0 else slot_items q v)"

text \<open>All of them: nothing is looked at any more.\<close>

abbreviation queued :: "'r queue \<Rightarrow> nat \<Rightarrow> nat" where
  "queued q v \<equiv> unseen q (SDone None) v"

lemma unseen_mono:
  assumes "length (injectors q') = length (injectors q)"
    and "\<And>j. j < length (injectors q) \<Longrightarrow> \<not> looks_at pc' j \<Longrightarrow>
      length (injectors q' ! j) \<le> (if looks_at pc j then 0 else length (injectors q ! j))"
    and "\<not> looks_at_peer pc' v \<Longrightarrow>
      slot_items q' v \<le> (if looks_at_peer pc v then 0 else slot_items q v)"
  shows "unseen q' pc' v \<le> unseen q pc v"
  unfolding unseen_def assms(1)
proof (intro add_mono sum_mono)
  fix j assume "j \<in> {..<length (injectors q)}"
  with assms(2) [of j] show "(if looks_at pc' j then 0 else length (injectors q' ! j))
      \<le> (if looks_at pc j then 0 else length (injectors q ! j))" by auto
qed (use assms(3) in auto)

lemma unseen_cong:
  assumes "injectors q' = injectors q" and "slot_items q' v = slot_items q v"
  shows "unseen q' pc v = unseen q pc v"
  unfolding unseen_def assms ..

lemma slot_items_cong: "stealers q' = stealers q \<Longrightarrow> deques q' = deques q \<Longrightarrow> slot_items q' v = slot_items q v"
  by (simp add: slot_items_def split: option.split)

lemma looks_at_own_last: "\<not> looks_at_peer pc v \<Longrightarrow> \<not> looks_at pc j"
  by (cases pc) auto

lemma sum_upd_le:
  fixes f g :: "nat \<Rightarrow> nat"
  assumes "\<And>j. j < n \<Longrightarrow> j \<noteq> k \<Longrightarrow> g j \<le> f j" and "k < n \<Longrightarrow> g k + a \<le> f k + b"
    and "k < n \<or> a \<le> b"
  shows "(\<Sum>j<n. g j) + a \<le> (\<Sum>j<n. f j) + b"
proof (cases "k < n")
  case True
  have "(\<Sum>j\<in>{..<n} - {k}. g j) \<le> (\<Sum>j\<in>{..<n} - {k}. f j)"
    by (rule sum_mono) (use assms(1) in auto)
  with True assms(2) show ?thesis by (simp add: sum.remove [of "{..<n}" k])
next
  case False
  then have "(\<Sum>j<n. g j) \<le> (\<Sum>j<n. f j)" by (intro sum_mono) (use assms(1) in auto)
  with False assms(3) show ?thesis by simp
qed

lemma unseen_enqueue: "unseen (enqueue d x q) pc v \<le> Suc (unseen q pc v)"
proof (cases d)
  case (Own a)
  then have inj: "injectors (enqueue d x q) = injectors q"
    and "slot_items (enqueue d x q) v \<le> Suc (slot_items q v)"
    by (simp_all add: slot_items_def enqueue_def split: option.split)
  then show ?thesis unfolding unseen_def inj by auto
next
  case (Shard i)
  let ?g = "\<lambda>j. if looks_at pc j then 0 else length (injectors (enqueue d x q) ! j)"
  let ?f = "\<lambda>j. if looks_at pc j then 0 else length (injectors q ! j)"
  have "(\<Sum>j<length (injectors q). ?g j) + 0 \<le> (\<Sum>j<length (injectors q). ?f j) + 1"
    by (rule sum_upd_le [of _ i]) (auto simp: Shard enqueue_def)
  moreover have "slot_items (enqueue d x q) v = slot_items q v"
    by (simp add: Shard slot_items_def enqueue_def split: option.split)
  ultimately show ?thesis by (simp add: unseen_def)
qed

text \<open>A worker's own step of a strict scan passes only what is empty.\<close>

lemma strict_step_unseen:
  assumes wf: "wf_queue q" and reg: "registered q c" and laws: "steal_laws stl" and ok: "pc_ok q c pc"
    and step: "scan_step stl Strict q c pc = (q', c', pc')"
    and v: "v < length (stealers q)" "v \<noteq> ctx_idx c"
    and quiet: "found pc' = {#} \<Longrightarrow> q' = q"
  shows "unseen q' pc' v \<le> unseen q pc v"
proof (cases "found pc' = {#}")
  case False
  then obtain r where "pc' = SDone (Some r)" by (cases pc' rule: found.cases) auto
  then show ?thesis by (simp add: unseen_def)
next
  case True
  with quiet have q': "q' = q" by simp
  show ?thesis
  proof (rule unseen_mono)
    fix j assume "j < length (injectors q)" "\<not> looks_at pc' j"
    with scan_step_looks_at [OF wf reg laws ok exhaustive_Strict _ step] q'
    show "length (injectors q' ! j) \<le> (if looks_at pc j then 0 else length (injectors q ! j))"
      by auto
  next
    assume "\<not> looks_at_peer pc' v"
    with scan_step_looks_at_peer [OF wf reg laws ok exhaustive_Strict v _ step] q'
    show "slot_items q' v \<le> (if looks_at_peer pc v then 0 else slot_items q v)"
      by (auto simp: slot_items_def split: option.split)
  qed (simp add: q')
qed

section \<open>What the peer takes away\<close>

text \<open>
  A step of a scan leaves the containers alone, or takes a runnable \<open>r\<close> out of the own deque,
  an injector or a peer's deque, in the last two cases moving a batch into the own deque.
\<close>

inductive takes :: "'r queue \<Rightarrow> worker_context \<Rightarrow> 'r queue \<Rightarrow> bool" for q c where
  take_own:
    "deques q (ctx_deque c) = r # rs \<Longrightarrow> takes q c (q\<lparr>deques := (deques q)(ctx_deque c := rs)\<rparr>)"
| take_injector:
    "j < length (injectors q) \<Longrightarrow> deques q (ctx_deque c) = [] \<Longrightarrow> injectors q ! j = r # own @ w \<Longrightarrow>
     takes q c (q\<lparr>injectors := (injectors q)[j := w], deques := (deques q)(ctx_deque c := own)\<rparr>)"
| take_peer:
    "v < length (stealers q) \<Longrightarrow> v \<noteq> ctx_idx c \<Longrightarrow> stealers q ! v = Some a \<Longrightarrow>
     deques q (ctx_deque c) = [] \<Longrightarrow> deques q a = r # own @ w \<Longrightarrow>
     takes q c (q\<lparr>deques := (deques q)(a := w, ctx_deque c := own)\<rparr>)"

lemma steal_injector_takes:
  assumes "steal_laws stl" and "deques q (ctx_deque c) = []" and "i < length (injectors q)"
    and "steal_injector stl p i c q = (res, q')"
  shows "case res of Success r \<Rightarrow> takes q c q' | _ \<Rightarrow> q' = q"
  using assms(1,2,3,4) by (cases rule: steal_injector_outcome) (use assms(2,3) in \<open>auto intro: take_injector\<close>)

lemma steal_peer_takes:
  assumes "steal_laws stl" and "registered q c" and "deques q (ctx_deque c) = []"
    and "v < length (stealers q)" and "v \<noteq> ctx_idx c" and "steal_peer stl p v c q = (res, q')"
  shows "case res of Success r \<Rightarrow> takes q c q' | _ \<Rightarrow> q' = q"
  using assms(1,3) registered_peer(1) [OF assms(2,4,5)] assms(6)
proof (cases rule: steal_peer_outcome)
  case (success r own x a)
  with take_peer [OF assms(4,5) success(2) assms(3) success(3)] show ?thesis by simp
qed auto

lemma scan_step_takes:
  assumes wf: "wf_queue q" and reg: "registered q c" and laws: "steal_laws stl" and ok: "pc_ok q c pc"
    and going: "scan_finished (q, c, pc) = None" and step: "scan_step stl p q c pc = (q', c', pc')"
  shows "if found pc' = {#} then q' = q else takes q c q'"
proof (cases pc)
  case SOwn
  with step show ?thesis by (auto intro: take_own split: list.splits)
next
  case SPref
  have my: "my_shard q c < length (injectors q)"
    using wf_queue_mask_less [OF wf] by (simp add: my_shard_def)
  obtain res q1 where st: "steal_injector stl p (my_shard q c) c q = (res, q1)"
    by (cases "steal_injector stl p (my_shard q c) c q")
  have own: "deques q (ctx_deque c) = []" using SPref ok by simp
  have "found (snd (enter_shards p q1 c b)) = {#}" for b
    by (simp add: enter_shards_def Let_def case_prod_beta)
  then have "found pc1 = {#}" if "enter_shards p q1 c b = (c1, pc1)" for b c1 pc1
    using that by (metis snd_conv)
  with SPref step st steal_injector_takes [OF laws own my st] show ?thesis by (cases res) auto
next
  case (SShards b js)
  show ?thesis
  proof (cases js)
    case Nil
    have "found (snd (enter_peers p q c b)) = {#}"
      by (simp add: enter_peers_def Let_def case_prod_beta)
    with SShards Nil step show ?thesis by (auto dest: arg_cong [of _ _ snd])
  next
    case (Cons j ks)
    obtain res q1 where st: "steal_injector stl p j c q = (res, q1)"
      by (cases "steal_injector stl p j c q")
    have "deques q (ctx_deque c) = []" "j < length (injectors q)" using SShards Cons ok by auto
    with SShards Cons step st steal_injector_takes [OF laws _ _ st] show ?thesis by (cases res) auto
  qed
next
  case (SPeers b vs)
  show ?thesis
  proof (cases vs)
    case Nil
    with SPeers step show ?thesis by (auto split: if_splits)
  next
    case (Cons v ws)
    obtain res q1 where st: "steal_peer stl p v c q = (res, q1)"
      by (cases "steal_peer stl p v c q")
    have "deques q (ctx_deque c) = []" "v < length (stealers q)" "v \<noteq> ctx_idx c"
      using SPeers Cons ok by auto
    with SPeers Cons step st steal_peer_takes [OF laws reg _ _ _ st] show ?thesis
      by (cases res) auto
  qed
next
  case (SDone res)
  with going show ?thesis by simp
qed

text \<open>
  Seen from a worker whose own deque is empty, what its peer takes lowers the number of
  runnables out of sight by one, if the scan is past the peer's deque, and never raises it.
\<close>

lemma peer_takes_unseen:
  assumes "takes q c q'" and seat: "seated q v c"
    and alone: "\<And>u a. u < length (stealers q) \<Longrightarrow> u \<noteq> v \<Longrightarrow> stealers q ! u = Some a \<Longrightarrow> deques q a = []"
  shows "unseen q' pc v + of_bool (\<not> looks_at_peer pc v) \<le> unseen q pc v"
proof -
  let ?a = "ctx_deque c"
  have slot: "stealers q ! v = Some ?a" and idx: "ctx_idx c = v" using seat by (simp_all add: seated_def)
  from assms(1) alone consider
      (own) r rs where "deques q ?a = r # rs" "q' = q\<lparr>deques := (deques q)(?a := rs)\<rparr>"
    | (inj) j r own w where "j < length (injectors q)" "deques q ?a = []"
        "injectors q ! j = r # own @ w"
        "q' = q\<lparr>injectors := (injectors q)[j := w], deques := (deques q)(?a := own)\<rparr>"
    by cases (use idx in auto)
  then show ?thesis
  proof cases
    case own
    then have "slot_items q v = Suc (slot_items q' v)" "injectors q' = injectors q"
      by (simp_all add: slot_items_def slot)
    then show ?thesis unfolding unseen_def \<open>injectors q' = injectors q\<close> by simp
  next
    case inj
    let ?g = "\<lambda>j. if looks_at pc j then 0 else length (injectors q' ! j)"
    let ?f = "\<lambda>j. if looks_at pc j then 0 else length (injectors q ! j)"
    have items: "slot_items q v = 0" "slot_items q' v = length own"
      using inj by (simp_all add: slot_items_def slot)
    have len: "length (injectors q') = length (injectors q)" using inj by simp
    show ?thesis
    proof (cases "looks_at_peer pc v")
      case True
      have "(\<Sum>j<length (injectors q). ?g j) + 0 \<le> (\<Sum>j<length (injectors q). ?f j) + 0"
        by (rule sum_upd_le [of _ j]) (use inj in auto)
      with True show ?thesis by (simp add: unseen_def len)
    next
      case False
      then have "\<not> looks_at pc j" for j by (rule looks_at_own_last)
      then have "(\<Sum>j<length (injectors q). ?g j) + Suc (length own)
          \<le> (\<Sum>j<length (injectors q). ?f j) + 0"
        by (intro sum_upd_le [of _ j]) (use inj in auto)
      with False items show ?thesis by (simp add: unseen_def len)
    qed
  qed
qed

section \<open>Debts and promises\<close>

text \<open>
  A push at \<open>h\<close> will still signal a worker, if \<open>m\<close> workers are parked by the time it
  compares: a load of \<open>parked\<close> from before some of them armed does not count.
\<close>

fun owes :: "nat \<Rightarrow> hand_pc \<Rightarrow> bool" where
  "owes m HLoadParked \<longleftrightarrow> True"
| "owes m (HLoadNotified p) \<longleftrightarrow> m \<le> unat p"
| "owes m HLock \<longleftrightarrow> True"
| "owes m HRecheck \<longleftrightarrow> True"
| "owes m HNotify \<longleftrightarrow> True"
| "owes m HUnlock \<longleftrightarrow> False"
| "owes m HDone \<longleftrightarrow> False"

definition debtors :: "nat \<Rightarrow> 'r sys \<Rightarrow> tid set" where
  "debtors m s = {t. \<exists>h. at_hand s t h \<and> owes m h}"

text \<open>The peer \<open>o\<close> is bound to take one runnable or to look everywhere before it rests.\<close>

fun promise :: "nat set \<Rightarrow> nat \<Rightarrow> 'r wpc \<Rightarrow> nat" where
  "promise W i WStart = 1"
| "promise W i (WScan k pc) = of_bool (found pc = {#})"
| "promise W i WLock = 1"
| "promise W i WArm = 1"
| "promise W i (WRescan pc) = of_bool (found pc = {#})"
| "promise W i WCheck = 0"
| "promise W i WSleep = 0"
| "promise W i WWait = of_bool (i \<notin> W)"
| "promise W i (WAdjust a) = of_bool (a = Again)"
| "promise W i (WDisarm a) = of_bool (a = Again)"
| "promise W i (WUnlock a) = of_bool (a = Again)"
| "promise W i (WRun r) = 0"
| "promise W i (WPush r h) = 0"
| "promise W i WExit = 0"

text \<open>Between an armed scan that found nothing and the release of the mutex after a signal.\<close>

fun dozing :: "'r wpc \<Rightarrow> bool" where
  "dozing WCheck \<longleftrightarrow> True"
| "dozing WSleep \<longleftrightarrow> True"
| "dozing WWait \<longleftrightarrow> True"
| "dozing (WAdjust a) \<longleftrightarrow> a = Again"
| "dozing (WDisarm a) \<longleftrightarrow> a = Again"
| "dozing _ \<longleftrightarrow> False"

definition threshold :: "'r sys \<Rightarrow> nat \<Rightarrow> nat" where
  "threshold s v = (if dozing (wpcs s v) then 2 else 1)"

definition blind :: "'r sys \<Rightarrow> nat \<Rightarrow> bool" where
  "blind s i \<longleftrightarrow> wpcs s i = WCheck \<or> wpcs s i = WSleep \<or> asleep s i"

text \<open>Somebody is at \<open>notify_one\<close>, and only \<open>i\<close> is there to be woken.\<close>

definition chosen :: "'r sys \<Rightarrow> nat \<Rightarrow> bool" where
  "chosen s i \<longleftrightarrow> notifying s \<and> waiters (que s) \<subseteq> {i}"

text \<open>
  The invariant for worker \<open>i\<close> and its peer \<open>v\<close>: when \<open>i\<close> no longer looks, what is queued
  is matched by the peer's promise and the debts; while it scans, what it has passed is matched
  by debts alone.
\<close>

definition watched :: "'r sys \<Rightarrow> nat \<Rightarrow> nat \<Rightarrow> bool" where
  "watched s i v \<longleftrightarrow>
     (blind s i \<and> \<not> chosen s i \<longrightarrow>
        queued (que s) v \<le> promise (waiters (que s)) v (wpcs s v) + card (debtors (threshold s v) s))
     \<and> (\<forall>pc. wpcs s i = WRescan pc \<longrightarrow>
        unseen (que s) pc v \<le> card (debtors (unat (parked (que s))) s))"

definition pair :: "'r sys \<Rightarrow> nat \<Rightarrow> nat \<Rightarrow> bool" where
  "pair s i v \<longleftrightarrow> prog_inv s \<and> num_workers s = 2 \<and> i < 2 \<and> v < 2 \<and> i \<noteq> v \<and> cpc s = CIdle"

section \<open>Facts about a pair\<close>

lemma pair_invs:
  assumes "pair s i v"
  shows "acct_inv s" "own_inv s" "closing_inv s" "finite (in_push s)" "park_lock.exact s"
    "wf_queue (que s)" "slots_ok (que s)" "i < num_workers s" "v < num_workers s"
    "length (stealers (que s)) = 2" "worker_ok (que s) i (ctxs s i) (wpcs s i)"
    "worker_ok (que s) v (ctxs s v) (wpcs s v)" "\<not> shutdown_flag (que s)"
  using assms
  by (auto simp: pair_def prog_inv_def full_inv_def queue_inv_def acct_inv_def own_inv_def
      closing_inv_def num_workers_def)

lemma pair_sym: "pair s i v \<Longrightarrow> pair s v i"
  by (auto simp: pair_def)

lemma count_pair:
  assumes "i < 2" and "v < 2" and "i \<noteq> v"
  shows "count_upto 2 P = of_bool (P i) + of_bool (P v)"
proof -
  have "{..<2} = {i, v}" using assms by auto
  with assms(3) show ?thesis by (simp add: count_upto_def)
qed

lemma pair_counts:
  assumes "pair s i v"
  shows "unat (parked (que s)) = of_bool (armed (wpcs s i)) + of_bool (armed (wpcs s v))"
    and "unat (notified (que s)) \<le> of_bool (woken (que s) i (wpcs s i))
      + of_bool (woken (que s) v (wpcs s v)) + of_bool (notifying s)"
proof -
  have pair: "num_workers s = 2" "i < 2" "v < 2" "i \<noteq> v" using assms by (simp_all add: pair_def)
  note acct = pair_invs(1) [OF assms]
  note count = count_pair [OF pair(2-4)]
  show "unat (parked (que s)) = of_bool (armed (wpcs s i)) + of_bool (armed (wpcs s v))"
    using acct by (simp add: acct_inv_def parked_exact_def pair(1) count)
  show "unat (notified (que s)) \<le> of_bool (woken (que s) i (wpcs s i))
      + of_bool (woken (que s) v (wpcs s v)) + of_bool (notifying s)"
    using acct by (simp add: acct_inv_def notified_bounded_def pair(1) count)
qed

lemma blind_facts:
  assumes "pair s i v" and "blind s i"
  shows "armed (wpcs s i)" "\<not> woken (que s) i (wpcs s i)" "wpcs s i \<noteq> WStart"
    "deques (que s) (ctx_deque (ctxs s i)) = []" "seated (que s) i (ctxs s i)"
    "wpcs s i = WWait \<longrightarrow> i \<in> waiters (que s)" "wpcs s i = WWait \<or> w_holds (wpcs s i)"
  using assms(2) pair_invs(11) [OF assms(1)]
  by (auto simp: blind_def asleep_def woken_def worker_ok_def)

lemma holder_alone:
  assumes "pair s i v" and "w_holds (wpcs s i)" and "\<And>r h. wpcs s i \<noteq> WPush r h"
  shows "\<not> notifying s" "\<not> w_holds (wpcs s v)" "park (que s) = Some (Wrk i)"
    "at_hand s t h \<Longrightarrow> t \<noteq> Wrk i \<Longrightarrow> \<not> hand_holds h"
proof -
  have crit: "in_critical s (Wrk i)" using assms pair_invs(8) [OF assms(1)] by simp
  note alone = lock_elsewhere [OF pair_invs(5) [OF assms(1)] crit]
  have ne: "v \<noteq> i" using assms(1) by (simp add: pair_def)
  show hand: "\<not> hand_holds h" if "at_hand s t h" "t \<noteq> Wrk i" for t h
    using alone(1) [OF that(2)] at_hand_critical [OF that(1)] by blast
  show "\<not> w_holds (wpcs s v)"
    using alone(1) [of "Wrk v"] ne pair_invs(9) [OF assms(1)] by simp
  show "park (que s) = Some (Wrk i)" using alone(2) [of "Wrk v"] ne by simp
  show "\<not> notifying s"
  proof
    assume "notifying s"
    then obtain t where t: "at_hand s t HNotify" by (auto simp: notifying_def)
    then have "t \<noteq> Wrk i" using assms(3) by auto
    with hand [OF t] show False by simp
  qed
qed

lemma finite_debtors: "finite (in_push s) \<Longrightarrow> finite (debtors m s)"
proof -
  assume fin: "finite (in_push s)"
  have "debtors m s \<subseteq> Prod ` in_push s \<union> Wrk ` {..<num_workers s}"
  proof
    fix t assume "t \<in> debtors m s"
    then obtain h where "at_hand s t h" "owes m h" by (auto simp: debtors_def)
    then show "t \<in> Prod ` in_push s \<union> Wrk ` {..<num_workers s}"
      by (cases t) (auto simp: in_push_def)
  qed
  with fin show ?thesis by (auto intro: finite_subset)
qed

lemma owes_less: "owes m h \<Longrightarrow> m' \<le> m \<Longrightarrow> owes m' h"
  by (cases h) auto

lemma debtors_mono:
  assumes "finite (in_push s')" and "m' \<le> m" and "\<And>t h. at_hand s t h \<Longrightarrow> owes m h \<Longrightarrow>
    \<exists>h'. at_hand s' t h' \<and> owes m h'"
  shows "card (debtors m s) \<le> card (debtors m' s')"
proof (rule card_mono [OF finite_debtors [OF assms(1)]])
  show "debtors m s \<subseteq> debtors m' s'"
    using assms(3) owes_less [OF _ assms(2)] unfolding debtors_def by blast
qed

section \<open>Steps inside \<open>pop_blocking\<close>\<close>

lemma watched_trivial:
  "\<not> blind s i \<Longrightarrow> (\<And>pc. wpcs s i \<noteq> WRescan pc) \<Longrightarrow> watched s i v"
  by (simp add: watched_def)

lemma pop_hands:
  assumes "pop_step i (que s, ctxs s i, wpcs s i) (q', c', pc')"
    and "num_workers s' = num_workers s" "wpcs s' = (wpcs s)(i := pc')" "ppcs s' = ppcs s"
  shows "at_hand s' t h = at_hand s t h" "notifying s' = notifying s" "debtors m s' = debtors m s"
proof -
  show hand: "at_hand s' t h = at_hand s t h" for t h
    using pop_step_no_push [OF assms(1)] assms(2-4) by (cases t) auto
  then show "notifying s' = notifying s" "debtors m s' = debtors m s"
    by (simp_all add: notifying_def debtors_def)
qed

lemma dozing_unlocked: "\<not> w_holds pc \<Longrightarrow> dozing pc = armed pc"
  by (cases pc) auto

lemma watched_self_pop:
  assumes pair: "pair s i v" and watched: "watched s i v"
    and step: "pop_step i (que s, ctxs s i, wpcs s i) (q', c', pc')"
    and s': "s' = s\<lparr>que := q', ctxs := (ctxs s)(i := c'), wpcs := (wpcs s)(i := pc')\<rparr>"
  shows "watched s' i v"
proof -
  have ne: "v \<noteq> i" using pair by (simp add: pair_def)
  have n: "num_workers s' = num_workers s"
    using pop_step_slots [OF step] by (simp add: s' num_workers_def)
  have pcs: "wpcs s' i = pc'" "wpcs s' v = wpcs s v" "que s' = q'" using ne by (simp_all add: s')
  have hands: "notifying s' = notifying s" "debtors m s' = debtors m s" for m
    using pop_hands [OF step n] by (simp_all add: s')
  have thr: "threshold s' v = threshold s v" by (simp add: threshold_def pcs)
  have len: "v < length (stealers (que s))" using pair_invs(9) [OF pair] by (simp add: num_workers_def)
  show ?thesis
    using step
  proof cases
    case (arm)
    then show ?thesis by (simp add: watched_def blind_def asleep_def pcs unseen_def)
  next
    case (strict_scan stl pc1 pc2)
    have ok: "registered (que s) (ctxs s i)" "pc_ok (que s) (ctxs s i) pc1" "ctx_idx (ctxs s i) = i"
      using pair_invs(7,8,11) [OF pair] strict_scan(1) seated_registered
      by (auto simp: worker_ok_def num_workers_def seated_def)
    have "unseen q' pc2 v \<le> unseen (que s) pc1 v"
      using strict_step_unseen [OF pair_invs(6) [OF pair] ok(1) strict_scan(3) ok(2) strict_scan(5) len]
        scan_step_takes [OF pair_invs(6) [OF pair] ok(1) strict_scan(3) ok(2) strict_scan(4,5)] ne ok(3)
      by simp
    moreover have "unseen (que s) pc1 v \<le> card (debtors (unat (parked (que s))) s)"
      using watched strict_scan(1) by (simp add: watched_def)
    ultimately show ?thesis
      using scan_frame(3) [OF strict_scan(5)] strict_scan(2)
      by (simp add: watched_def blind_def asleep_def pcs hands)
  next
    case (strict_nothing)
    have holds: "w_holds (wpcs s i)" "\<And>r h. wpcs s i \<noteq> WPush r h" using strict_nothing by simp_all
    have "unat (parked (que s)) = threshold s v"
      using pair_counts(1) [OF pair] strict_nothing dozing_unlocked [OF holder_alone(2) [OF pair holds]]
      by (simp add: threshold_def)
    moreover have "queued (que s) v \<le> card (debtors (unat (parked (que s))) s)"
      using watched strict_nothing by (simp add: watched_def)
    ultimately show ?thesis
      using strict_nothing by (simp add: watched_def pcs thr hands)
  next
    case (check_running)
    then have "blind s i" "chosen s i = chosen s' i" "pc' = WSleep" "q' = que s"
      by (simp_all add: blind_def chosen_def hands pcs)
    with watched show ?thesis by (simp add: watched_def pcs thr hands)
  next
    case (wait)
    have holds: "w_holds (wpcs s i)" "\<And>r h. wpcs s i \<noteq> WPush r h" using wait by simp_all
    have "blind s i" "\<not> chosen s i"
      using wait holder_alone(1) [OF pair holds] by (simp_all add: blind_def chosen_def)
    moreover have "promise (insert i W) v (wpcs s v) = promise W v (wpcs s v)" for W
      using ne by (cases "wpcs s v") simp_all
    moreover have "queued q' v = queued (que s) v"
      using wait by (intro unseen_cong slot_items_cong) simp_all
    ultimately show ?thesis using watched wait by (simp add: watched_def pcs thr hands)
  qed (auto intro!: watched_trivial simp: blind_def asleep_def pcs dest: arg_cong [of _ _ armed])
qed

lemma after_unlock_dozing [simp]: "\<not> dozing (after_unlock a)"
  by (cases a) auto

lemma after_unlock_promise [simp]: "promise W i (after_unlock a) = of_bool (a = Again)"
  by (cases a) auto

text \<open>
  A step of the peer \<open>v\<close>, seen by a worker with an empty deque: nothing new comes out of sight,
  and the promise is spent only on a runnable taken, or on an armed scan that found nothing.
\<close>

definition peer_fair ::
  "nat \<Rightarrow> 'r queue \<Rightarrow> 'r wpc \<Rightarrow> 'r queue \<Rightarrow> 'r wpc \<Rightarrow> bool" where
  "peer_fair v q pc q' pc' \<longleftrightarrow> (\<forall>spc. unseen q' spc v \<le> unseen q spc v)
     \<and> (pc \<noteq> WRescan (SDone None) \<longrightarrow> (dozing pc' \<longrightarrow> dozing pc)
          \<and> queued q' v + promise (waiters q) v pc \<le> queued q v + promise (waiters q') v pc')"

lemma peer_fair_same:
  assumes "injectors q' = injectors q" and "stealers q' = stealers q" and "deques q' = deques q"
    and "pc \<noteq> WRescan (SDone None) \<Longrightarrow> (dozing pc' \<longrightarrow> dozing pc)
      \<and> promise (waiters q) v pc \<le> promise (waiters q') v pc'"
  shows "peer_fair v q pc q' pc'"
proof -
  have "unseen q' spc v = unseen q spc v" for spc :: "'a scan_pc"
    by (intro unseen_cong slot_items_cong assms(1-3))
  with assms(4) show ?thesis by (simp add: peer_fair_def)
qed

lemma peer_fair_scan:
  assumes "wf_queue q" and "registered q c" and "seated q v c" and laws: "steal_laws stl"
    and ok: "pc_ok q c pc" and going: "scan_finished (q, c, pc) = None"
    and step: "scan_step stl p q c pc = (q', c', pc')"
    and alone: "\<And>u a. u < length (stealers q) \<Longrightarrow> u \<noteq> v \<Longrightarrow> stealers q ! u = Some a \<Longrightarrow> deques q a = []"
    and tok: "\<And>W. promise W v wpc = of_bool (found pc = {#})" "\<And>W. promise W v wpc' = of_bool (found pc' = {#})"
    and "\<not> dozing wpc'"
  shows "peer_fair v q wpc q' wpc'"
proof -
  note taken = scan_step_takes [OF assms(1,2) laws ok going step]
  show ?thesis
  proof (cases "found pc' = {#}")
    case True
    with taken assms(11) show ?thesis by (intro peer_fair_same) (simp_all add: tok)
  next
    case False
    with taken have takes: "takes q c q'" by simp
    have less: "unseen q' spc v + of_bool (\<not> looks_at_peer spc v) \<le> unseen q spc v" for spc :: "'a scan_pc"
      by (rule peer_takes_unseen [OF takes assms(3)]) (rule alone)
    have "unseen q' spc v \<le> unseen q spc v" for spc :: "'a scan_pc" using less [of spc] by simp
    with less [of "SDone None"] False assms(11) show ?thesis by (simp add: peer_fair_def tok)
  qed
qed

lemma peer_fair_pop:
  assumes pair: "pair s v i"
    and empty: "deques (que s) (ctx_deque (ctxs s i)) = []" "seated (que s) i (ctxs s i)"
    and step: "pop_step v (que s, ctxs s v, wpcs s v) (q', c', pc')"
  shows "peer_fair v (que s) (wpcs s v) q' pc'"
proof -
  have alone: "deques (que s) a = []"
    if "u < length (stealers (que s))" "u \<noteq> v" "stealers (que s) ! u = Some a" for u a
  proof -
    have "u = i" using that(1,2) pair pair_invs(10) [OF pair] by (auto simp: pair_def)
    with that(3) empty show ?thesis by (simp add: seated_def)
  qed
  have v: "v < length (stealers (que s))" using pair_invs(8) [OF pair] by (simp add: num_workers_def)
  have wok: "worker_ok (que s) v (ctxs s v) (wpcs s v)" using pair_invs(11) [OF pair] .
  have reg: "seated (que s) v (ctxs s v)" "registered (que s) (ctxs s v)" if "wpcs s v \<noteq> WStart"
    using wok that seated_registered [OF pair_invs(7) [OF pair] _ v] by (simp_all add: worker_ok_def)
  show ?thesis
    using step
  proof cases
    case start
    then have "injectors q' = injectors (que s)" "slot_items q' v = 0"
      using v by (auto simp: register_worker_def Let_def slot_items_def)
    then have "unseen q' spc v \<le> unseen (que s) spc v" for spc :: "'a scan_pc"
      by (intro unseen_mono) simp_all
    with start show ?thesis by (simp add: peer_fair_def)
  next
    case (cheap_scan stl pc1 pc2 k)
    then have "wpcs s v \<noteq> WStart" "pc_ok (que s) (ctxs s v) pc1" using wok by (auto simp: worker_ok_def)
    with cheap_scan alone reg pair_invs(6) [OF pair] show ?thesis
      by (intro peer_fair_scan [OF _ _ _ cheap_scan(3) _ cheap_scan(4,5)]) simp_all
  next
    case (strict_scan stl pc1 pc2)
    then have "wpcs s v \<noteq> WStart" "pc_ok (que s) (ctxs s v) pc1" using wok by (auto simp: worker_ok_def)
    with strict_scan alone reg pair_invs(6) [OF pair] show ?thesis
      by (intro peer_fair_scan [OF _ _ _ strict_scan(3) _ strict_scan(4,5)]) simp_all
  qed (auto intro!: peer_fair_same)
qed

lemma scanning_facts:
  assumes "pair s i v" and "wpcs s i = WRescan pc" and "unseen q pc v \<noteq> 0"
  shows "deques (que s) (ctx_deque (ctxs s i)) = []" "seated (que s) i (ctxs s i)"
  using pair_invs(11) [OF assms(1)] assms(2,3)
  by (cases pc; auto simp: worker_ok_def unseen_def)+

lemma rescan_peer_pop:
  assumes pair: "pair s i v" and watched: "watched s i v" and pc: "wpcs s i = WRescan pc"
    and step: "pop_step v (que s, ctxs s v, wpcs s v) (q', c', pc')"
  shows "unseen q' pc v \<le> card (debtors (unat (parked q')) s)"
proof -
  have holds: "w_holds (wpcs s i)" "\<And>r h. wpcs s i \<noteq> WPush r h" using pc by simp_all
  have "parked q' = parked (que s)"
    using pop_step_unlocked [OF step] pop_step_parked [OF step] holder_alone(2,3) [OF pair holds]
    by simp
  moreover have "unseen q' pc v \<le> unseen (que s) pc v"
    using peer_fair_pop [OF pair_sym [OF pair] _ _ step] scanning_facts [OF pair pc, of q']
    unfolding peer_fair_def by (cases "unseen q' pc v = 0") auto
  moreover have "unseen (que s) pc v \<le> card (debtors (unat (parked (que s))) s)"
    using watched pc by (simp add: watched_def)
  ultimately show ?thesis by simp
qed

lemma rescan_done_peer:
  assumes pair: "pair s i v" and watched: "watched s v i" and b: "blind s i"
    and pc: "wpcs s v = WRescan (SDone None)"
  shows "queued (que s) v \<le> card (debtors 2 s)"
proof -
  note facts = blind_facts [OF pair b]
  have "deques (que s) (ctx_deque (ctxs s v)) = []" "seated (que s) v (ctxs s v)"
    using pair_invs(12) [OF pair] pc by (simp_all add: worker_ok_def)
  then have "slot_items (que s) v = 0" "slot_items (que s) i = 0"
    using facts(4,5) by (simp_all add: slot_items_def seated_def)
  then have "queued (que s) v = queued (que s) i" by (simp add: unseen_def)
  moreover have "unat (parked (que s)) = 2" using pair_counts(1) [OF pair] facts(1) pc by simp
  moreover have "queued (que s) i \<le> card (debtors (unat (parked (que s))) s)"
    using watched pc by (simp add: watched_def)
  ultimately show ?thesis by simp
qed

lemma watched_peer_pop:
  assumes pair: "pair s i v" and watched: "watched s i v" "watched s v i"
    and step: "pop_step v (que s, ctxs s v, wpcs s v) (q', c', pc')"
    and s': "s' = s\<lparr>que := q', ctxs := (ctxs s)(v := c'), wpcs := (wpcs s)(v := pc')\<rparr>"
  shows "watched s' i v"
proof -
  have ne: "i \<noteq> v" using pair by (simp add: pair_def)
  have n: "num_workers s' = num_workers s"
    using pop_step_slots [OF step] by (simp add: s' num_workers_def)
  have pcs: "wpcs s' v = pc'" "wpcs s' i = wpcs s i" "que s' = q'" using ne by (simp_all add: s')
  have hands: "notifying s' = notifying s" "\<And>m. debtors m s' = debtors m s"
    and hand: "\<And>t h. at_hand s' t h = at_hand s t h"
    using pop_hands [OF step n] by (simp_all add: s')
  have fin: "finite (in_push s')" using pair_invs(4) [OF pair] by (simp add: in_push_def s')
  have waits: "i \<in> waiters q' \<longleftrightarrow> i \<in> waiters (que s)"
    using pop_step_others [OF step ne, of WWait] by (simp add: woken_def)
  have blind: "blind s' i = blind s i" by (simp add: blind_def asleep_def pcs waits)
  note fair = peer_fair_pop [OF pair_sym [OF pair] _ _ step]
  have "unseen q' pc v \<le> card (debtors (unat (parked q')) s')" if "wpcs s i = WRescan pc" for pc
    using rescan_peer_pop [OF pair watched(1) that step] by (simp add: hands)
  moreover have "queued q' v \<le> promise (waiters q') v pc' + card (debtors (threshold s' v) s')"
    if b: "blind s i" and c: "\<not> chosen s' i"
  proof -
    note facts = blind_facts [OF pair b]
    show ?thesis
    proof (cases "wpcs s v = WRescan (SDone None)")
      case True
      then have q': "q' = que s" and pc': "pc' = WCheck" using step by (auto elim: pop_stepE)
      with rescan_done_peer [OF pair watched(2) b True] show ?thesis
        by (simp add: q' hands threshold_def pcs)
    next
      case False
      have "waiters q' = waiters (que s) \<or> w_holds (wpcs s v) \<and> (\<forall>r h. wpcs s v \<noteq> WPush r h)"
        using pop_step_no_new_waiter [OF step] by (cases "wpcs s v = WSleep") auto
      then have "\<not> chosen s i"
        using c holder_alone(1) [OF pair_sym [OF pair]] by (auto simp: chosen_def hands pcs)
      with watched(1) b have old: "queued (que s) v
          \<le> promise (waiters (que s)) v (wpcs s v) + card (debtors (threshold s v) s)"
        by (simp add: watched_def)
      have "dozing pc' \<longrightarrow> dozing (wpcs s v)" and
        spent: "queued q' v + promise (waiters (que s)) v (wpcs s v)
          \<le> queued (que s) v + promise (waiters q') v pc'"
        using fair [OF facts(4,5)] False by (simp_all add: peer_fair_def)
      then have "threshold s' v \<le> threshold s v" by (simp add: threshold_def pcs)
      then have "card (debtors (threshold s v) s) \<le> card (debtors (threshold s' v) s')"
        by (rule debtors_mono [OF fin]) (auto simp: hand)
      with old spent show ?thesis by simp
    qed
  qed
  ultimately show ?thesis by (auto simp: watched_def blind pcs)
qed

section \<open>Handshake steps\<close>

text \<open>Thread \<open>t\<close> takes one step of its handshake, from \<open>h\<close> to \<open>h'\<close>.\<close>

definition hand_move :: "'r sys \<Rightarrow> tid \<Rightarrow> hand_pc \<Rightarrow> hand_pc \<Rightarrow> 'r sys \<Rightarrow> bool" where
  "hand_move s t h h' s' \<longleftrightarrow> hand_step t (que s, h) (que s', h')
     \<and> at_hand s t h \<and> at_hand s' t h' \<and> (\<forall>k. at_hand s t k \<longrightarrow> k = h)
     \<and> (\<forall>u k. u \<noteq> t \<longrightarrow> at_hand s' u k = at_hand s u k)
     \<and> (\<forall>i. wpcs s' i = wpcs s i \<or> (\<exists>r. wpcs s i = WPush r h \<and> wpcs s' i = WPush r h'))
     \<and> finite (in_push s')"

lemma hand_move_pcs:
  assumes "hand_move s t h h' s'"
  shows "promise W v (wpcs s' v) = promise W v (wpcs s v)" "dozing (wpcs s' v) = dozing (wpcs s v)"
    "wpcs s' i = WRescan pc \<longleftrightarrow> wpcs s i = WRescan pc" "wpcs s' i = WWait \<longleftrightarrow> wpcs s i = WWait"
    "wpcs s' i = WCheck \<longleftrightarrow> wpcs s i = WCheck" "wpcs s' i = WSleep \<longleftrightarrow> wpcs s i = WSleep"
    "threshold s' v = threshold s v"
proof -
  have pcs: "wpcs s' i = wpcs s i \<or> (\<exists>r. wpcs s i = WPush r h \<and> wpcs s' i = WPush r h')" for i
    using assms by (simp add: hand_move_def)
  show "wpcs s' i = WRescan pc \<longleftrightarrow> wpcs s i = WRescan pc" "wpcs s' i = WWait \<longleftrightarrow> wpcs s i = WWait"
    "wpcs s' i = WCheck \<longleftrightarrow> wpcs s i = WCheck" "wpcs s' i = WSleep \<longleftrightarrow> wpcs s i = WSleep"
    using pcs [of i] by auto
  show "promise W v (wpcs s' v) = promise W v (wpcs s v)" using pcs [of v] by auto
  show "dozing (wpcs s' v) = dozing (wpcs s v)" using pcs [of v] by auto
  then show "threshold s' v = threshold s v" by (simp add: threshold_def)
qed

lemma hand_move_debts:
  assumes "hand_move s t h h' s'"
  shows "card (debtors m s) \<le> Suc (card (debtors m s'))"
    and "(owes m h \<Longrightarrow> owes m h') \<Longrightarrow> card (debtors m s) \<le> card (debtors m s')"
proof -
  note fin = finite_debtors [of s' m]
  have others: "u \<in> debtors m s \<Longrightarrow> u \<noteq> t \<Longrightarrow> u \<in> debtors m s'" for u
    using assms by (auto simp: hand_move_def debtors_def)
  then have "debtors m s \<subseteq> insert t (debtors m s')" by blast
  then have "card (debtors m s) \<le> card (insert t (debtors m s'))"
    using assms fin by (intro card_mono) (simp_all add: hand_move_def)
  also have "\<dots> \<le> Suc (card (debtors m s'))" by (rule card_insert_le_m1) simp_all
  finally show "card (debtors m s) \<le> Suc (card (debtors m s'))" .
  assume owe: "owes m h \<Longrightarrow> owes m h'"
  have "t \<in> debtors m s'" if "t \<in> debtors m s"
    using that owe assms by (auto simp: hand_move_def debtors_def)
  with others have "debtors m s \<subseteq> debtors m s'" by blast
  then show "card (debtors m s) \<le> card (debtors m s')"
    using assms fin by (intro card_mono) (simp_all add: hand_move_def)
qed

lemma hand_move_queue:
  assumes "hand_move s t h h' s'"
  shows "unseen (que s') pc v = unseen (que s) pc v" "parked (que s') = parked (que s)"
    "waiters (que s') \<subseteq> waiters (que s)"
proof -
  have step: "hand_step t (que s, h) (que s', h')" using assms by (simp add: hand_move_def)
  note frame = hand_step_frame [OF step]
  show "unseen (que s') pc v = unseen (que s) pc v"
    by (intro unseen_cong slot_items_cong frame)
  show "parked (que s') = parked (que s)" "waiters (que s') \<subseteq> waiters (que s)" by (rule frame)+
qed

lemma watched_hand_scanning:
  assumes pair: "pair s i v" and watched: "watched s i v" and move: "hand_move s t h h' s'"
    and pc: "wpcs s i = WRescan pc"
  shows "unseen (que s') pc v \<le> card (debtors (unat (parked (que s'))) s')"
proof -
  have holds: "w_holds (wpcs s i)" "\<And>r h. wpcs s i \<noteq> WPush r h" using pc by simp_all
  have at: "at_hand s t h" and step: "hand_step t (que s, h) (que s', h')"
    using move by (simp_all add: hand_move_def)
  have "t \<noteq> Wrk i" using at pc by auto
  with at have idle: "\<not> hand_holds h" by (rule holder_alone(4) [OF pair holds])
  note alone = holder_alone(1,3) [OF pair holds]
  let ?m = "unat (parked (que s))"
  have "owes ?m h'" if owe: "owes ?m h"
    using step
  proof cases
    case (load_notified_skip p)
    then have "?m \<le> unat (notified (que s))" using owe by (simp add: word_less_nat_alt)
    moreover have "unat (notified (que s)) \<le> of_bool (woken (que s) v (wpcs s v))"
      using pair_counts(2) [OF pair] alone(1) pc by (simp add: woken_def)
    moreover have "?m = 1 + of_bool (armed (wpcs s v))" using pair_counts(1) [OF pair] pc by simp
    moreover have "woken (que s) v (wpcs s v) \<Longrightarrow> armed (wpcs s v)" by (auto simp: woken_def)
    ultimately show ?thesis
      by (cases "woken (que s) v (wpcs s v)"; cases "armed (wpcs s v)") simp_all
  qed (use idle alone(2) in auto)
  from hand_move_debts(2) [OF move this] watched pc show ?thesis
    by (simp add: watched_def hand_move_queue [OF move])
qed

lemma skip_chosen:
  assumes pair: "pair s i v" and "blind s i" and "threshold s v \<le> unat (notified (que s))"
  shows "chosen s i"
proof -
  note facts = blind_facts [OF pair assms(2)]
  have le: "unat (notified (que s)) \<le> of_bool (woken (que s) v (wpcs s v)) + of_bool (notifying s)"
    using pair_counts(2) [OF pair] facts(2) by simp
  have waits: "waiters (que s) \<subseteq> {j. j < 2 \<and> wpcs s j = WWait}"
    using pair_invs(1) [OF pair] pair by (simp add: acct_inv_def waiters_wait_def pair_def)
  have "dozing (wpcs s v)" if "woken (que s) v (wpcs s v)" using that by (auto simp: woken_def)
  then have "notifying s" using le assms(3)
    by (cases "woken (que s) v (wpcs s v)"; cases "notifying s") (simp_all add: threshold_def split: if_splits)
  moreover have "v \<notin> waiters (que s)"
  proof
    assume v: "v \<in> waiters (que s)"
    with waits have "wpcs s v = WWait" by blast
    with v le assms(3) show False
      by (cases "notifying s") (simp_all add: threshold_def woken_def)
  qed
  ultimately show ?thesis using waits pair by (auto simp: chosen_def pair_def less_2_cases_iff)
qed

text \<open>What holds before a step of the handshake after which \<open>i\<close> no longer looks.\<close>

lemma hand_blind_before:
  assumes "hand_move s t h h' s'" and "blind s' i"
  shows "blind s i"
  using assms(2) hand_move_queue(3) [OF assms(1)]
  by (auto simp: blind_def asleep_def hand_move_pcs [OF assms(1)])

lemma blind_parked:
  assumes "pair s i v" and "blind s i"
  shows "unat (parked (que s)) = 1 + of_bool (armed (wpcs s v))"
  using pair_counts(1) [OF assms(1)] blind_facts(1) [OF assms] by simp

text \<open>A step that wakes nobody, and after which the push still owes what it owed.\<close>

lemma hand_blind_easy:
  assumes watched: "watched s i v" and move: "hand_move s t h h' s'"
    and b: "blind s i" and c': "\<not> chosen s' i"
    and same: "waiters (que s') = waiters (que s)" "h \<noteq> HNotify"
    and owe: "owes (threshold s v) h \<Longrightarrow> owes (threshold s v) h'"
  shows "queued (que s') v \<le> promise (waiters (que s')) v (wpcs s' v) + card (debtors (threshold s' v) s')"
proof -
  have "notifying s'" if "notifying s"
    using that move same(2) unfolding notifying_def hand_move_def by metis
  then have "\<not> chosen s i" using c' same(1) by (auto simp: chosen_def)
  with watched b have
    "queued (que s) v \<le> promise (waiters (que s)) v (wpcs s v) + card (debtors (threshold s v) s)"
    by (simp add: watched_def)
  with hand_move_debts(2) [OF move owe] same(1) show ?thesis
    by (simp add: hand_move_pcs [OF move] hand_move_queue [OF move])
qed

text \<open>With the mutex held by a push, a worker that no longer looks counts as unsignalled.\<close>

lemma recheck_counts:
  assumes pair: "pair s i v" and b: "blind s i" and at: "at_hand s t HRecheck"
    and only: "\<And>k. at_hand s t k \<Longrightarrow> k = HRecheck"
  shows "notified (que s) < parked (que s)"
proof -
  have "\<not> notifying s"
  proof
    assume "notifying s"
    then obtain u where u: "at_hand s u HNotify" by (auto simp: notifying_def)
    then have "u \<noteq> t" using only by auto
    with lock_elsewhere(1) [OF pair_invs(5) [OF pair] at_hand_critical [OF at]]
      at_hand_critical [OF u] show False by simp
  qed
  moreover have "woken (que s) v (wpcs s v) \<Longrightarrow> armed (wpcs s v)" by (auto simp: woken_def)
  ultimately have "unat (notified (que s)) < unat (parked (que s))"
    using pair_counts(2) [OF pair] blind_facts(2) [OF pair b] blind_parked [OF pair b]
    by (cases "woken (que s) v (wpcs s v)"; cases "armed (wpcs s v)") simp_all
  then show ?thesis by (simp add: word_less_nat_alt)
qed

text \<open>A load of \<open>notified\<close> that makes the push return met a push about to signal.\<close>

lemma skip_keeps_chosen:
  assumes pair: "pair s i v" and b: "blind s i" and move: "hand_move s t (HLoadNotified p) h' s'"
    and same: "waiters (que s') = waiters (que s)"
    and skip: "\<not> notified (que s) < p" and owe: "owes (threshold s v) (HLoadNotified p)"
  shows "chosen s' i"
proof -
  have "threshold s v \<le> unat (notified (que s))" using owe skip by (simp add: word_less_nat_alt)
  with pair b have "chosen s i" by (rule skip_chosen)
  then obtain u where u: "at_hand s u HNotify" "waiters (que s) \<subseteq> {i}"
    by (auto simp: chosen_def notifying_def)
  have "\<And>k. at_hand s t k \<Longrightarrow> k = HLoadNotified p"
    and others: "\<And>x k. x \<noteq> t \<Longrightarrow> at_hand s' x k = at_hand s x k"
    using move by (simp_all add: hand_move_def)
  from this(1) [of HNotify] u(1) have "u \<noteq> t" by auto
  with others u(1) have "at_hand s' u HNotify" by simp
  with u(2) same show ?thesis unfolding chosen_def notifying_def by auto
qed

text \<open>A signal that does not wake \<open>i\<close> wakes its peer, and becomes the peer's promise.\<close>

lemma hand_wakes_peer:
  assumes pair: "pair s i v" and watched: "watched s i v" and move: "hand_move s t h h' s'"
    and b: "blind s i" and b': "blind s' i"
    and w: "w \<in> waiters (que s)" "que s' = (que s)\<lparr>waiters := waiters (que s) - {w}\<rparr>"
  shows "queued (que s') v \<le> promise (waiters (que s')) v (wpcs s' v) + card (debtors (threshold s' v) s')"
proof -
  have "waiters (que s) \<subseteq> {j. j < 2 \<and> wpcs s j = WWait}"
    using pair_invs(1) [OF pair] pair by (simp add: acct_inv_def waiters_wait_def pair_def)
  with w(1) have at: "w < 2" "wpcs s w = WWait" by auto
  have "w \<noteq> i" using b' w(2) at(2) by (auto simp: blind_def asleep_def hand_move_pcs [OF move])
  with at pair have "w = v" by (auto simp: pair_def)
  with w at have "promise (waiters (que s)) v (wpcs s v) = 0"
    "promise (waiters (que s')) v (wpcs s v) = 1" "v \<in> waiters (que s)" by simp_all
  moreover from this have "\<not> chosen s i" using pair by (auto simp: chosen_def pair_def)
  with watched b have
    "queued (que s) v \<le> promise (waiters (que s)) v (wpcs s v) + card (debtors (threshold s v) s)"
    by (simp add: watched_def)
  ultimately show ?thesis
    using hand_move_debts(1) [OF move, of "threshold s v"]
    by (simp add: hand_move_pcs [OF move] hand_move_queue [OF move])
qed

lemma notify_finds_somebody:
  assumes pair: "pair s i v" and b: "blind s i" and at: "at_hand s t HNotify"
  shows "waiters (que s) \<noteq> {}"
proof (cases "wpcs s i = WWait")
  case True
  with blind_facts(6) [OF pair b] show ?thesis by auto
next
  case False
  with blind_facts(7) [OF pair b] b have holds: "w_holds (wpcs s i)" "\<And>r h. wpcs s i \<noteq> WPush r h"
    by (auto simp: blind_def asleep_def)
  moreover have "t \<noteq> Wrk i" using at holds(2) by auto
  ultimately show ?thesis using holder_alone(4) [OF pair holds at] by simp
qed

lemma watched_hand_blind:
  assumes pair: "pair s i v" and watched: "watched s i v" and move: "hand_move s t h h' s'"
    and b': "blind s' i" and c': "\<not> chosen s' i"
  shows "queued (que s') v \<le> promise (waiters (que s')) v (wpcs s' v) + card (debtors (threshold s' v) s')"
proof -
  have at: "at_hand s t h" "\<And>k. at_hand s t k \<Longrightarrow> k = h" and step: "hand_step t (que s, h) (que s', h')"
    using move by (simp_all add: hand_move_def)
  have b: "blind s i" by (rule hand_blind_before [OF move b'])
  note easy = hand_blind_easy [OF watched move b c']
  show ?thesis
    using step
  proof cases
    case load_parked
    have "armed (wpcs s v)" if "dozing (wpcs s v)" using that by (cases "wpcs s v") auto
    with blind_parked [OF pair b] have "owes (threshold s v) h'"
      using load_parked by (auto simp: threshold_def)
    with load_parked show ?thesis by (intro easy) simp_all
  next
    case (load_notified_skip p)
    with skip_keeps_chosen [OF pair b, of t p h' s'] move c' show ?thesis by (intro easy) auto
  next
    case recheck_skip
    with recheck_counts [OF pair b, of t] at show ?thesis by simp
  next
    case (notify_waiter w)
    with hand_wakes_peer [OF pair watched move b b'] show ?thesis by simp
  next
    case notify_nobody
    with notify_finds_somebody [OF pair b, of t] at(1) show ?thesis by simp
  qed (intro easy; simp)+
qed

lemma watched_hand:
  assumes "pair s i v" and "watched s i v" and "hand_move s t h h' s'"
  shows "watched s' i v"
  unfolding watched_def hand_move_pcs(3) [OF assms(3)]
  using watched_hand_scanning [OF assms] watched_hand_blind [OF assms] by blast

section \<open>All steps\<close>

lemma watched_frame:
  assumes watched: "watched s i v" and "wpcs s' i = wpcs s i"
    and same: "waiters (que s') = waiters (que s)" "parked (que s') = parked (que s)"
      "notifying s \<Longrightarrow> notifying s'"
    and tok: "promise (waiters (que s)) v (wpcs s v) \<le> promise (waiters (que s)) v (wpcs s' v)"
      "dozing (wpcs s' v) \<Longrightarrow> dozing (wpcs s v)"
    and fin: "finite (in_push s')"
    and debts: "\<And>m pc. unseen (que s') pc v + card (debtors m s) \<le> unseen (que s) pc v + card (debtors m s')"
  shows "watched s' i v"
proof -
  have blind: "blind s' i = blind s i" and chosen: "chosen s i \<Longrightarrow> chosen s' i"
    using assms(2) same by (auto simp: blind_def asleep_def chosen_def)
  have "threshold s' v \<le> threshold s v" using tok(2) by (auto simp: threshold_def)
  then have less: "card (debtors (threshold s v) s') \<le> card (debtors (threshold s' v) s')"
    by (rule debtors_mono [OF fin]) auto
  have "queued (que s') v \<le> promise (waiters (que s')) v (wpcs s' v) + card (debtors (threshold s' v) s')"
    if "blind s i" "\<not> chosen s' i"
  proof -
    have "queued (que s) v \<le> promise (waiters (que s)) v (wpcs s v) + card (debtors (threshold s v) s)"
      using watched that chosen unfolding watched_def by blast
    with debts [of "SDone None" "threshold s v"] less tok(1) show ?thesis by (simp add: same)
  qed
  moreover have "unseen (que s') pc v \<le> card (debtors (unat (parked (que s'))) s')"
    if "wpcs s i = WRescan pc" for pc
    using watched that debts [of pc "unat (parked (que s))"] by (force simp: watched_def same)
  ultimately show ?thesis by (simp add: watched_def blind assms(2))
qed

lemma debtors_same: "(\<And>t h. at_hand s' t h = at_hand s t h) \<Longrightarrow> debtors m s' = debtors m s"
  by (simp add: debtors_def)

text \<open>A step of the peer outside the queue: no push begins or moves on.\<close>

lemma watched_peer_outside:
  assumes "watched s i v" and "i \<noteq> v" and n: "num_workers s' = num_workers s"
    and wpcs: "wpcs s' = (wpcs s)(v := pc')" and same: "ppcs s' = ppcs s" "que s' = que s"
    and quiet: "\<And>r h m. wpcs s v = WPush r h \<or> pc' = WPush r h \<Longrightarrow> h = HDone"
    and tok: "promise (waiters (que s)) v (wpcs s v) \<le> promise (waiters (que s)) v pc'" "\<not> dozing pc'"
    and "finite (in_push s)"
  shows "watched s' i v"
proof (rule watched_frame [OF assms(1)])
  have at: "at_hand s' t h = at_hand s t h" if "h \<noteq> HDone" for t h
    using quiet that by (cases t) (auto simp: n wpcs same)
  then show "notifying s'" if "notifying s" using that by (auto simp: notifying_def)
  have "debtors m s' = debtors m s" for m
  proof -
    have "at_hand s' t h \<and> owes m h \<longleftrightarrow> at_hand s t h \<and> owes m h" for t h
      using at [of h t] by (cases "h = HDone") auto
    then show ?thesis by (simp add: debtors_def)
  qed
  then show "unseen (que s') pc v + card (debtors m s) \<le> unseen (que s) pc v + card (debtors m s')" for m pc
    by (simp add: same)
qed (use assms in \<open>auto simp: in_push_def\<close>)

text \<open>A push by \<open>t\<close> puts one runnable into the queue, and owes one signal.\<close>

lemma watched_push:
  assumes "watched s i v" and "wpcs s' i = wpcs s i"
    and que: "que s' = enqueue d x (que s)" and fin: "finite (in_push s')"
    and at: "at_hand s' t HLoadParked" "\<And>h. at_hand s t h \<Longrightarrow> h = HDone"
      "\<And>u h. u \<noteq> t \<Longrightarrow> at_hand s' u h = at_hand s u h"
    and tok: "promise (waiters (que s)) v (wpcs s v) \<le> promise (waiters (que s)) v (wpcs s' v)"
      "dozing (wpcs s' v) \<Longrightarrow> dozing (wpcs s v)"
  shows "watched s' i v"
proof (rule watched_frame [OF assms(1,2)])
  show "notifying s'" if on: "notifying s"
  proof -
    obtain u where u: "at_hand s u HNotify" using on by (auto simp: notifying_def)
    then have "u \<noteq> t" using at(2) by fastforce
    with u at(3) show ?thesis by (auto simp: notifying_def)
  qed
  fix m pc
  have new: "t \<notin> debtors m s" using at(2) by (fastforce simp: debtors_def)
  have "insert t (debtors m s) \<subseteq> debtors m s'"
    using at new unfolding debtors_def by (fastforce intro: exI [of _ HLoadParked])
  then have "card (insert t (debtors m s)) \<le> card (debtors m s')"
    by (rule card_mono [OF finite_debtors [OF fin]])
  moreover have "finite (debtors m s)"
    using \<open>insert t (debtors m s) \<subseteq> debtors m s'\<close> finite_debtors [OF fin]
    by (meson finite_subset insert_subset)
  ultimately have "Suc (card (debtors m s)) \<le> card (debtors m s')" using new by simp
  with unseen_enqueue [of d x "que s" pc v]
  show "unseen (que s') pc v + card (debtors m s) \<le> unseen (que s) pc v + card (debtors m s')"
    by (simp add: que)
qed (use fin tok in \<open>simp_all add: que\<close>)

text \<open>Steps of either worker in a job: the end of it, a push it makes, the handshake of that push.\<close>

lemma watched_job_step:
  assumes pair: "pair s i v" and watched: "watched s i v" and j: "j < num_workers s"
    and n: "num_workers s' = num_workers s" and wpcs: "wpcs s' = (wpcs s)(j := pc')"
    and same: "ppcs s' = ppcs s" "que s' = que s"
    and job: "wpcs s j = WRun r \<or> wpcs s j = WPush r HDone"
    and pc': "pc' = WScan 0 SOwn \<or> pc' = WStart \<or> pc' = WRun r"
  shows "watched s' i v"
proof (cases "j = i")
  case True
  with wpcs pc' show ?thesis by (intro watched_trivial) (auto simp: blind_def asleep_def)
next
  case False
  with j pair have "j = v" by (auto simp: pair_def)
  with wpcs same n job pc' pair pair_invs(4) [OF pair] show ?thesis
    by (intro watched_peer_outside [OF watched, of s' pc']) (auto simp: pair_def)
qed

lemma watched_self_push:
  assumes pair: "pair s i v" and watched: "watched s i v" and j: "j < num_workers s"
    and n: "num_workers s' = num_workers s" and wpcs: "wpcs s' = (wpcs s)(j := WPush r HLoadParked)"
    and same: "ppcs s' = ppcs s" and que: "que s' = enqueue d x (que s)"
    and job: "wpcs s j = WRun r" and fin: "finite (in_push s')"
  shows "watched s' i v"
proof (cases "j = i")
  case True
  with wpcs show ?thesis by (intro watched_trivial) (auto simp: blind_def asleep_def)
next
  case False
  with j pair have "j = v" by (auto simp: pair_def)
  show ?thesis
  proof (rule watched_push [OF watched _ que fin, of "Wrk v"])
    show "at_hand s' u h = at_hand s u h" if "u \<noteq> Wrk v" for u h
      using that \<open>j = v\<close> n wpcs same by (cases u) auto
  qed (use \<open>j = v\<close> j n wpcs job pair in \<open>auto simp: pair_def\<close>)
qed

lemma watched_self_hand:
  assumes pair: "pair s i v" and watched: "watched s i v" and j: "j < num_workers s"
    and n: "num_workers s' = num_workers s" and wpcs: "wpcs s' = (wpcs s)(j := WPush r h')"
    and same: "ppcs s' = ppcs s" and job: "wpcs s j = WPush r h"
    and step: "hand_step (Wrk j) (que s, h) (que s', h')" and fin: "finite (in_push s')"
  shows "watched s' i v"
proof (cases "j = i")
  case True
  with wpcs show ?thesis by (intro watched_trivial) (auto simp: blind_def asleep_def)
next
  case False
  with j pair have "j = v" by (auto simp: pair_def)
  have "hand_move s (Wrk v) h h' s'"
    unfolding hand_move_def
  proof (intro conjI allI impI)
    show "at_hand s' u k = at_hand s u k" if "u \<noteq> Wrk v" for u k
      using that \<open>j = v\<close> n wpcs same by (cases u) auto
  qed (use \<open>j = v\<close> j n wpcs job step fin in auto)
  with pair watched show ?thesis by (rule watched_hand)
qed

lemma watched_step:
  assumes pair: "pair s i v" and watched: "watched s i v" "watched s v i"
    and step: "sys_step s s'" and "cpc s' = CIdle"
  shows "watched s' i v"
proof -
  note n = sys_step_workers [OF step] and fin = in_push_step [OF step pair_invs(4) [OF pair]]
  note job = watched_job_step [OF pair watched(1) _ n]
  show ?thesis
    using step
  proof cases
    case (worker_pop j q' c' pc')
    then have "j = i \<or> j = v" using pair by (auto simp: pair_def)
    then show ?thesis
    proof
      assume "j = i"
      with worker_pop show ?thesis by (intro watched_self_pop [OF pair watched(1)]) simp_all
    next
      assume "j = v"
      with worker_pop show ?thesis by (intro watched_peer_pop [OF pair watched]) simp_all
    qed
  next
    case (worker_finish j r)
    then show ?thesis by (intro job [of j "WScan 0 SOwn" r]) simp_all
  next
    case (worker_unwind j r)
    then show ?thesis by (intro job [of j WStart r]) simp_all
  next
    case (self_return j r)
    then show ?thesis by (intro job [of j "WRun r" r]) simp_all
  next
    case (self_push j r hash cell d cell' x)
    with fin show ?thesis by (intro watched_self_push [OF pair watched(1) _ n, of j r d x]) simp_all
  next
    case (self_hand j r h q' h')
    with fin show ?thesis by (intro watched_self_hand [OF pair watched(1) _ n, of j r h' h]) simp_all
  next
    case (foreign_push p handle d cell' x)
    show ?thesis
    proof (rule watched_push [OF watched(1), of s' d x "Prod p"])
      show "at_hand s' u h = at_hand s u h" if "u \<noteq> Prod p" for u h
        using foreign_push that n by (cases u) auto
    qed (use foreign_push fin in auto)
  next
    case (push_elsewhere p msk target cell')
    have same: "at_hand s' t h = at_hand s t h" for t h
      by (rule at_hand_same [OF n]) (simp_all add: push_elsewhere(1))
    then have "debtors m s' = debtors m s" for m by (rule debtors_same)
    with same show ?thesis
      by (intro watched_frame [OF watched(1)] fin) (simp_all add: push_elsewhere(1) notifying_def)
  next
    case (foreign_hand p q' h')
    have "hand_move s (Prod p) (ppcs s p) h' s'"
      unfolding hand_move_def
    proof (intro conjI allI impI)
      show "at_hand s' u k = at_hand s u k" if "u \<noteq> Prod p" for u k
        using foreign_hand that n by (cases u) auto
    qed (use foreign_hand fin in auto)
    with pair watched(1) show ?thesis by (rule watched_hand)
  next
    case (closing q' k')
    then have "k' = CIdle" using assms(5) by simp
    with closing(2) show ?thesis by (auto elim: shutdown_stepE)
  qed
qed

definition two_inv :: "'r sys \<Rightarrow> bool" where
  "two_inv s \<longleftrightarrow> prog_inv s \<and> (num_workers s = 2 \<and> cpc s = CIdle \<longrightarrow> watched s 0 1 \<and> watched s 1 0)"

lemma two_inv_init: "sys_init s \<Longrightarrow> two_inv s"
  using prog_inv_init [of s]
  by (auto simp: two_inv_def sys_init_def blind_def asleep_def intro!: watched_trivial)

lemma two_inv_step:
  assumes "two_inv s" and step: "sys_step s s'"
  shows "two_inv s'"
proof -
  have "watched s' 0 1 \<and> watched s' 1 0" if "num_workers s' = 2" "cpc s' = CIdle"
  proof -
    have "cpc s = CIdle" using step that(2) by cases (auto elim: shutdown_stepE)
    then have pair: "pair s 0 1" and "watched s 0 1" "watched s 1 0"
      using assms(1) that(1) sys_step_workers [OF step] by (simp_all add: two_inv_def pair_def)
    with watched_step [OF pair _ _ step that(2)] watched_step [OF pair_sym [OF pair] _ _ step that(2)]
    show ?thesis by blast
  qed
  with assms(1) prog_inv_step [OF _ step] show ?thesis by (simp add: two_inv_def)
qed

interpretation two_workers: invariant_system sys_init sys_step two_inv
  by unfold_locales (erule two_inv_init, erule two_inv_step)

section \<open>A sleeper leaves nothing to a busy peer\<close>

lemma unseen_zero:
  assumes "queued q v = 0"
  shows "j < length (injectors q) \<Longrightarrow> injectors q ! j = []"
    and "stealers q ! v = Some a \<Longrightarrow> deques q a = []"
  using assms by (auto simp: unseen_def slot_items_def)

lemma sleeper_beside_job:
  assumes "reachable s" and "num_workers s = 2" and "cpc s = CIdle" and "\<forall>p. ppcs s p = HDone"
    and iv: "i < 2" "v < 2" "i \<noteq> v" and "asleep s i" and job: "wpcs s v = WRun r"
  shows "(\<forall>j < length (injectors (que s)). injectors (que s) ! j = [])
    \<and> (\<forall>u < 2. \<forall>a. stealers (que s) ! u = Some a \<longrightarrow> deques (que s) a = [])
    \<and> pushed s = add_mset r (ran s) + orphans (que s)"
proof -
  have inv: "two_inv s" by (rule two_workers.reachable_inv [OF assms(1)])
  have pcs: "wpcs s 0 = WRun r \<and> wpcs s 1 = WWait \<or> wpcs s 0 = WWait \<and> wpcs s 1 = WRun r"
    using iv job assms(8) by (auto simp: less_2_cases_iff asleep_def)
  have "wpcs s k \<noteq> WPush r' h" if "k < 2" for k r' h
    using pcs less_2_cases [OF that] by auto
  then have none: "\<not> at_hand s t h" if "h \<noteq> HDone" for t h
    using that assms(2,4) by (cases t) auto
  have "t \<notin> debtors m s" for t m
  proof
    assume "t \<in> debtors m s"
    then obtain h where "at_hand s t h" "owes m h" by (auto simp: debtors_def)
    with none [of h t] show False by (cases "h = HDone") auto
  qed
  then have "debtors m s = {}" for m by blast
  moreover have "watched s i v" using inv assms(2,3) iv by (auto simp: two_inv_def less_2_cases_iff)
  moreover have "\<not> chosen s i" using none by (simp add: chosen_def notifying_def)
  ultimately have "queued (que s) v = 0" using assms(8) job by (simp add: watched_def blind_def)
  note zero = unseen_zero [OF this]
  have pair: "pair s i v" using inv assms(2,3) iv by (simp add: two_inv_def pair_def)
  have "blind s i" using assms(8) by (simp add: blind_def)
  note facts = blind_facts(4,5) [OF pair this]
  have slots: "deques (que s) a = []" if "u < 2" "stealers (que s) ! u = Some a" for u a
  proof -
    have "u = i \<or> u = v" using that(1) iv by auto
    with that(2) zero(2) facts show ?thesis by (auto simp: seated_def)
  qed
  have "queue_items (que s) = orphans (que s)"
    by (rule only_orphans_left) (use zero(1) slots pair_invs(10) [OF pair] in auto)
  moreover have "held s = (\<Sum>u\<in>{0, 1}. in_hand (wpcs s u))"
    unfolding held_def assms(2) by (rule sum.cong) auto
  then have "held s = {#r#}" using pcs by auto
  ultimately have "pushed s = add_mset r (ran s) + orphans (que s)"
    using pair_invs(2) [OF pair] by (simp add: own_inv_def)
  with zero(1) slots show ?thesis by blast
qed

end
