(* ===== verification/Blocked_Job.thy ===== *)
theory Blocked_Job
  imports Two_Workers Replay
begin

text \<open>
  Jobs that block. A job that polls a \<open>SpawnFuture\<close> and drops it waits, on the worker's own
  thread, for the runnable it has just queued there (\<open>Queue::push\<close> and the caveats of
  \<open>Threadpool::spawn_local\<close> discuss it). In the model that worker stays at \<open>WRun\<close>. What the
  rest of the pool does then depends on its size: nothing in a pool of one, all of it in a
  pool of two, and \<open>Stranding\<close> shows the gap in a pool of three.
\<close>

section \<open>Workers held up in their jobs\<close>

definition held_step :: "nat set \<Rightarrow> 'r sys \<Rightarrow> 'r sys \<Rightarrow> bool" where
  "held_step V s s' \<longleftrightarrow> sys_step s s' \<and> (\<forall>v \<in> V. wpcs s' v = wpcs s v)"

definition busy_step :: "nat set \<Rightarrow> 'r sys \<Rightarrow> 'r sys \<Rightarrow> bool" where
  "busy_step V s s' \<longleftrightarrow> calm_step s s' \<and> (\<forall>v \<in> V. wpcs s' v = wpcs s v)"

definition in_jobs :: "nat set \<Rightarrow> 'r sys \<Rightarrow> bool" where
  "in_jobs V s \<longleftrightarrow> (\<forall>v \<in> V. \<exists>r. wpcs s v = WRun r)"

interpretation held_up: progress_system "\<lambda>s. reachable s \<and> in_jobs V s" "held_step V"
  "\<lambda>s. prog_inv s \<and> in_jobs V s" "busy_step V" "settled_but V" rank below for V
proof unfold_locales
  fix s t :: "'a sys"
  show "prog_inv s \<and> in_jobs V s" if "reachable s \<and> in_jobs V s"
    using that progress.reachable_inv by blast
  show "prog_inv t \<and> in_jobs V t" if "prog_inv s \<and> in_jobs V s" "held_step V s t"
    using that prog_inv_step [of s t] by (simp add: held_step_def in_jobs_def)
  show "held_step V s t" if "busy_step V s t"
    using that by (simp add: held_step_def busy_step_def calm_step_def)
  show "(rank t, rank s) \<in> below" if "prog_inv s \<and> in_jobs V s" "busy_step V s t"
    using that calm_lowers_rank [of s t] by (simp add: busy_step_def)
  show "\<exists>t. busy_step V s t" if "prog_inv s \<and> in_jobs V s" "\<not> settled_but V s"
  proof -
    have "\<forall>v \<in> V. \<not> w_holds (wpcs s v)" using that(1) by (fastforce simp: in_jobs_def)
    with others_move [of s V] that show ?thesis by (auto simp: busy_step_def)
  qed
qed (rule wf_below)

section \<open>A pool of one\<close>

lemma lone_held_step:
  assumes "reachable s" and "num_workers s = 1" and job: "wpcs s 0 = WRun r"
    and held: "held_step {0} s s'"
  shows "deques (que s') = deques (que s)" "stealers (que s') = stealers (que s)" "ran s' = ran s"
    "wpcs s' 0 = WRun r" "num_workers s' = 1"
proof -
  have step: "sys_step s s'" and same: "wpcs s' 0 = wpcs s 0" using held by (simp_all add: held_step_def)
  show "wpcs s' 0 = WRun r" "num_workers s' = 1"
    using same job sys_step_workers [OF step] assms(2) by simp_all
  have "deques (que s') = deques (que s) \<and> stealers (que s') = stealers (que s) \<and> ran s' = ran s"
    using step
  proof cases
    case (worker_pop i q' c' pc')
    with assms(2) job show ?thesis by (simp add: no_step_at)
  next
    case (foreign_push p handle d cell' x)
    have "wf_queue (que s)" using full_invD(2) [OF assms(1)] by (simp add: own_inv_def)
    then obtain i where "d = Shard i"
      by (rule push_dest_foreign [OF _ foreign_push(4)]) (use foreign_push(3) in blast)+
    with foreign_push show ?thesis by (simp add: enqueue_def)
  next
    case (foreign_hand p q' h')
    with hand_step_frame [OF foreign_hand(2)] show ?thesis by simp
  next
    case (closing q' k')
    with shutdown_step_frame [OF closing(2)] show ?thesis by simp
  qed (use same job assms(2) in auto)
  then show "deques (que s') = deques (que s)" "stealers (que s') = stealers (que s)" "ran s' = ran s"
    by simp_all
qed

section \<open>A job that waits for its own runnable\<close>

text \<open>A new pool of \<open>n\<close> workers with \<open>n\<close> shards, for \<open>n = 1\<close> and \<open>n = 2\<close>.\<close>

definition fresh_pool :: "nat \<Rightarrow> nat sys" where
  "fresh_pool n = \<lparr>que = \<lparr>injectors = replicate n [], stealers = replicate n None, shard_mask = n - 1,
       park = None, waiters = {}, parked = 0, notified = 0, shutdown_flag = False,
       deques = (\<lambda>_. []), next_addr = 0\<rparr>,
     ctxs = (\<lambda>_. lone_context), wpcs = (\<lambda>_. WStart), ppcs = (\<lambda>_. HDone), routes = (\<lambda>_. None),
     hashes = (\<lambda>_. 0), cpc = CIdle, pushed = {#}, ran = {#}, crashes = 0\<rparr>"

lemma fresh_init:
  assumes "n = 1 \<or> n = 2"
  shows "sys_init (fresh_pool n)"
proof -
  have "num_shards 1 None = Some 1" "num_shards 2 None = Some 2"
    by (simp_all add: num_shards_def next_power_of_two_def power_from.simps clamp_def MAX_SHARDS_def)
  with assms have "num_shards n None = Some n" by blast
  then have "queue_new n None = Some (que (fresh_pool n))" by (simp add: queue_new_def fresh_pool_def)
  moreover have "1 \<le> n" "n \<le> 512" using assms by auto
  ultimately show ?thesis unfolding sys_init_def by (intro conjI exI [of _ n] exI [of _ None]) (simp_all add: fresh_pool_def)
qed

text \<open>
  Runnable 5 is pushed from outside; worker 0 starts, takes it and, in that job, pushes 6.
\<close>

definition waiting_schedule :: "nat move list" where
  "waiting_schedule = [Push 0 5, Hand 0 0, Hand 0 0] @ replicate 4 (Pop 0 Half)
     @ [Self_Push 0 6, Self_Hand 0 0, Self_Hand 0 0, Self_Return 0]"

definition waiting_view ::
  "nat sys \<Rightarrow> nat wpc \<times> hand_pc \<times> nat option list \<times> nat list \<times> closer_pc \<times> bool \<times> bool \<times> nat" where
  "waiting_view s = (wpcs s 0, ppcs s 0, stealers (que s), deques (que s) 0, cpc s,
     pushed s = {#5, 6#}, ran s = {#}, crashes s)"

lemma waiting_runs:
  "map_option waiting_view (replay waiting_schedule (fresh_pool 1))
     = Some (WRun 5, HDone, [Some 0], [6], CIdle, True, True, 0)"
  "map_option waiting_view (replay waiting_schedule (fresh_pool 2))
     = Some (WRun 5, HDone, [Some 0, None], [6], CIdle, True, True, 0)"
  by code_simp+

lemma waiting_state:
  assumes "n = 1 \<or> n = 2"
  obtains s :: "nat sys" where "reachable s" "num_workers s = n" "wpcs s 0 = WRun 5" "cpc s = CIdle"
    "stealers (que s) ! 0 = Some 0" "deques (que s) 0 = [6]" "pushed s = {#5, 6#}" "ran s = {#}" "crashes s = 0"
proof -
  have "reachable (fresh_pool n)" by (rule reach_init) (rule fresh_init [OF assms])
  moreover obtain s where "replay waiting_schedule (fresh_pool n) = Some s"
    "waiting_view s = (WRun 5, HDone, Some 0 # replicate (n - 1) None, [6], CIdle, True, True, 0)"
    using assms waiting_runs by auto
  ultimately show ?thesis
    using that [of s] replay_reachable [of _ "fresh_pool n" s] assms
    by (auto simp: waiting_view_def num_workers_def)
qed

section \<open>Properties\<close>

text \<open>
  C21. A blocked job holds up nobody else: whatever set of workers stays in their jobs for
  ever, every run of the others that is not disturbed ends with all of them asleep or gone,
  all pushes returned and \<open>shutdown\<close>, if it was called, returned. A job never runs with
  the mutex of the queue held.
\<close>
theorem blocked_jobs_block_nobody:
  assumes "reachable s" and "\<forall>v \<in> V. \<exists>r. wpcs s v = WRun r"
  shows "inevitable (busy_step V) (\<lambda>s'. (\<forall>p. ppcs s' p = HDone) \<and> (cpc s' = CIdle \<or> cpc s' = CDone)
    \<and> (\<forall>i < num_workers s'. i \<notin> V \<longrightarrow> wpcs s' i = WExit \<or> asleep s' i)) s"
proof -
  have "reachable s \<and> in_jobs V s" using assms by (simp add: in_jobs_def)
  from held_up.inevitable_goal [of V s, OF reach_init, OF this] show ?thesis
    unfolding settled_but_def .
qed

theorem blocked_jobs_block_nobody_witness:
  "\<exists>s :: nat sys. wpcs s 0 = WRun 5 \<and> inevitable (busy_step {0}) (\<lambda>s'. \<forall>p. ppcs s' p = HDone) s"
proof -
  obtain s :: "nat sys" where s: "reachable s" "wpcs s 0 = WRun 5" by (rule waiting_state [of 2]) simp_all
  then have "\<forall>v \<in> {0}. \<exists>r. wpcs s v = WRun r" by simp
  from blocked_jobs_block_nobody [OF s(1) this]
  have "inevitable (busy_step {0}) (\<lambda>s'. \<forall>p. ppcs s' p = HDone) s"
    by (rule inevitable_conseq [where I = "\<lambda>_. True"]) simp_all
  with s(2) show ?thesis by blast
qed



text \<open>
  One worker is not: while the only worker of a pool stays in its job, no runnable of its
  deque moves and none is run, whatever everybody else does. A job that waits for a runnable
  it queued there waits for ever.
\<close>
theorem lone_worker_cannot_help_itself:
  assumes "reachable s" and "num_workers s = 1" and "wpcs s 0 = WRun r"
    and "stealers (que s) ! 0 = Some a" and "(held_step {0})\<^sup>*\<^sup>* s s'"
  shows "deques (que s') a = deques (que s) a \<and> stealers (que s') ! 0 = Some a
    \<and> ran s' = ran s \<and> wpcs s' 0 = WRun r"
proof -
  have "reachable s' \<and> num_workers s' = 1 \<and> wpcs s' 0 = WRun r \<and> deques (que s') = deques (que s)
    \<and> stealers (que s') = stealers (que s) \<and> ran s' = ran s"
    using assms(5)
  proof (induction rule: rtranclp_induct)
    case (step y z)
    then have "reachable z" by (auto intro: reach_step simp: held_step_def)
    with step lone_held_step [of y r z] show ?case by simp
  qed (use assms in simp)
  with assms(4) show ?thesis by simp
qed

theorem lone_worker_cannot_help_itself_witness:
  "\<exists>s :: nat sys. wpcs s 0 = WRun 5 \<and> deques (que s) 0 = [6]
    \<and> (\<forall>s'. (held_step {0})\<^sup>*\<^sup>* s s' \<longrightarrow> deques (que s') 0 = [6] \<and> ran s' = ran s)"
proof -
  obtain s :: "nat sys" where s: "reachable s" "num_workers s = 1" "wpcs s 0 = WRun 5"
    "stealers (que s) ! 0 = Some 0" "deques (que s) 0 = [6]"
    by (rule waiting_state [of 1]) simp_all
  from lone_worker_cannot_help_itself [OF this(1-4)] s(3,5) show ?thesis by metis
qed

end
