(* ===== verification/Starvation.thy ===== *)
theory Starvation
  imports Blocked_Job
begin

text \<open>
  Tasks are not processed in the order in which they were submitted: a worker empties its own
  deque, where its jobs put what they spawn, before it looks at an injector. In a pool of one a
  chain of jobs, each spawning the next, keeps a runnable from outside waiting for as long as
  it goes on, although that one was pushed before them.
\<close>

section \<open>A chain of jobs\<close>

text \<open>
  Worker 0 runs job \<open>k\<close>; runnable 0 waits in the injector. Jobs \<open>1..k\<close> have been pushed and
  \<open>1..k - 1\<close> been run.
\<close>

definition chain :: "nat \<Rightarrow> nat sys" where
  "chain k = \<lparr>que = \<lparr>injectors = [[0]], stealers = [Some 0], shard_mask = 0, park = None,
       waiters = {}, parked = 0, notified = 0, shutdown_flag = False, deques = (\<lambda>_. []),
       next_addr = 1\<rparr>,
     ctxs = (\<lambda>_. lone_context), wpcs = (\<lambda>_. WStart)(0 := WRun k), ppcs = (\<lambda>_. HDone),
     routes = (\<lambda>_. None), hashes = (\<lambda>_. 0), cpc = CIdle, pushed = add_mset 0 (mset [1..<Suc k]),
     ran = mset [1..<k], crashes = 0\<rparr>"

text \<open>Job 1 is pushed from outside and taken, then runnable 0 is pushed from outside.\<close>

definition chain_start :: "nat move list" where
  "chain_start = [Push 0 1, Hand 0 0, Hand 0 0] @ replicate 4 (Pop 0 Half)
     @ [Push 0 0, Hand 0 0, Hand 0 0]"

text \<open>Job \<open>k\<close> spawns the next one and ends; the worker takes it from its deque.\<close>

definition chain_link :: "nat \<Rightarrow> nat move list" where
  "chain_link k = [Self_Push 0 (Suc k), Self_Hand 0 0, Self_Hand 0 0, Self_Return 0, Finish 0,
     Pop 0 Half, Pop 0 Half]"

lemma chain_starts: "replay chain_start (fresh_pool 1) = Some (chain 1)"
  by (simp add: chain_start_def fresh_pool_def chain_def numeral_eq_Suc num_workers_def push_dest_def
      enqueue_def register_worker_def lone_context_def steal_injector_def my_shard_def Let_def
      fun_upd_idem QID_def)

lemma chain_links: "1 \<le> k \<Longrightarrow> replay (chain_link k) (chain k) = Some (chain (Suc k))"
  by (simp add: chain_link_def chain_def num_workers_def push_dest_def enqueue_def
      enter_worker_scope_def lone_context_def fun_upd_idem QID_def)


lemma chain_goes_on: "sys_step\<^sup>*\<^sup>* (chain 1) (chain (Suc n))"
proof (induction n)
  case (Suc n)
  have "sys_step\<^sup>*\<^sup>* (chain (Suc n)) (chain (Suc (Suc n)))"
    by (rule replay_run [OF chain_links]) simp
  with Suc show ?case by (rule rtranclp_trans)
qed simp

lemma chain_reachable: "reachable (chain 1)"
proof -
  have "reachable (fresh_pool 1)" by (rule reach_init) (rule fresh_init, simp)
  with chain_starts show ?thesis by (rule replay_reachable)
qed

section \<open>Property\<close>

text \<open>
  C24. Own jobs overtake: a pool of one can be in a state in which runnable 0 waits in the
  injector and only runnables 0 and 1 have ever been pushed, and from there run any number of
  runnables that are pushed later, one after the other, while runnable 0 still waits.
\<close>
theorem self_spawned_jobs_overtake:
  "\<exists>s :: nat sys. reachable s \<and> num_workers s = 1 \<and> pushed s = {#0, 1#} \<and> ran s = {#}
    \<and> injectors (que s) ! 0 = [0]
    \<and> (\<forall>n. \<exists>s'. sys_step\<^sup>*\<^sup>* s s' \<and> ran s' = mset [1..<n + 2] \<and> injectors (que s') ! 0 = [0])"
proof (rule exI [of _ "chain 1"], intro conjI allI)
  show "\<exists>s'. sys_step\<^sup>*\<^sup>* (chain 1) s' \<and> ran s' = mset [1..<n + 2] \<and> injectors (que s') ! 0 = [0]" for n
    using chain_goes_on [of "Suc n"] by (intro exI [of _ "chain (Suc (Suc n))"]) (simp add: chain_def)
  show "reachable (chain 1)" by (rule chain_reachable)
qed (simp_all add: chain_def num_workers_def)

end
