(* ===== verification/Future.thy ===== *)
theory Future
  imports Prelude
begin

text \<open>
  The futures of \<open>src/local.rs\<close> and \<open>src/lib.rs\<close>: \<open>JoinHandle\<close>, \<open>SpawnFuture\<close> with
  its blocking drop, and how \<open>spawn\<close> and \<open>spawn_local\<close> make them. \<open>async_task\<close> is a
  parameter: what \<open>Task::poll\<close> answers at a call is an argument of the call, a runnable and
  a task are names. A panic payload is a value; \<open>Inl\<close> is \<open>Err\<close>, \<open>Inr\<close> is \<open>Ok\<close>.
\<close>

section \<open>Polls and events\<close>

datatype 'a poll = Ready 'a | Pending

text \<open>How a call ends: with a value, by resuming a captured panic, by a panic of its own.\<close>

datatype ('a, 'e) reply = Returned 'a | Resumed 'e | Panicked string

text \<open>What a call does to the runnable and the task, in order.\<close>

datatype ('u, 't) event =
    Schedule 'u
  | PollTask 't
  | DropRunnable 'u
  | DropTask 't
  | BlockOnCancel 't

text \<open>
  How the user's closure ends, and the wrapper both functions put it in: \<open>catch_unwind\<close>
  reifies a panic, so that it never unwinds the worker.
\<close>

datatype ('r, 'e) outcome = Value 'r | Panic 'e

fun catch_unwind :: "('r, 'e) outcome \<Rightarrow> 'e + 'r" where
  "catch_unwind (Value v) = Inr v"
| "catch_unwind (Panic p) = Inl p"

section \<open>\<open>JoinHandle\<close>\<close>

fun join_poll :: "('e + 'r) poll \<Rightarrow> ('r poll, 'e) reply" where
  "join_poll (Ready (Inr v)) = Returned (Ready v)"
| "join_poll (Ready (Inl p)) = Resumed p"
| "join_poll Pending = Returned Pending"

text \<open>
  \<open>Threadpool::spawn\<close>. The builder of \<open>async_task\<close> is the parameter \<open>mk\<close>: it makes a
  runnable and a task from what the wrapped closure comes to when it is run. The runnable is
  queued at once; the caller gets the task.
\<close>

record 't join_handle =
  jh_task :: 't

definition spawn ::
  "('e + 'r \<Rightarrow> 'u \<times> 't) \<Rightarrow> ('r, 'e) outcome \<Rightarrow> ('u, 't) event list \<times> 't join_handle" where
  "spawn mk func =
     (let (runnable, task) = mk (catch_unwind func)
      in ([Schedule runnable], \<lparr>jh_task = task\<rparr>))"

section \<open>\<open>SpawnFuture\<close>\<close>

record ('u, 't) spawn_future =
  sf_runnable :: "'u option"
  sf_task :: "'t option"

definition sf_new :: "'u \<Rightarrow> 't \<Rightarrow> ('u, 't) spawn_future" where
  "sf_new r t = \<lparr>sf_runnable = Some r, sf_task = Some t\<rparr>"

text \<open>\<open>Threadpool::spawn_local\<close>: nothing is queued.\<close>

definition spawn_local ::
  "('e + 'r \<Rightarrow> 'u \<times> 't) \<Rightarrow> ('r, 'e) outcome \<Rightarrow> ('u, 't) event list \<times> ('u, 't) spawn_future" where
  "spawn_local mk func =
     (let (runnable, task) = mk (catch_unwind func) in ([], sf_new runnable task))"

definition sf_poll ::
  "('e + 'r) poll \<Rightarrow> ('u, 't) spawn_future \<Rightarrow>
     ('u, 't) event list \<times> ('u, 't) spawn_future \<times> ('r poll, 'e) reply" where
  "sf_poll answer f =
     (let scheduled = (case sf_runnable f of Some r \<Rightarrow> [Schedule r] | None \<Rightarrow> []);
          f1 = f\<lparr>sf_runnable := None\<rparr>
      in case sf_task f1 of
           Some t \<Rightarrow>
             (case answer of
                Ready res \<Rightarrow>
                  (scheduled @ [PollTask t], f1\<lparr>sf_task := None\<rparr>,
                   case res of Inr v \<Rightarrow> Returned (Ready v) | Inl p \<Rightarrow> Resumed p)
              | Pending \<Rightarrow> (scheduled @ [PollTask t], f1, Returned Pending))
         | None \<Rightarrow> (scheduled, f1, Panicked ''SpawnFuture polled after completion''))"

definition sf_drop :: "('u, 't) spawn_future \<Rightarrow> ('u, 't) event list" where
  "sf_drop f =
     (case sf_runnable f of
        Some r \<Rightarrow> DropRunnable r # (case sf_task f of Some t \<Rightarrow> [DropTask t] | None \<Rightarrow> [])
      | None \<Rightarrow> (case sf_task f of Some t \<Rightarrow> [BlockOnCancel t] | None \<Rightarrow> []))"

text \<open>A sequence of polls, with the answers the task gives.\<close>

primrec sf_polls ::
  "('e + 'r) poll list \<Rightarrow> ('u, 't) spawn_future \<Rightarrow>
     ('u, 't) event list \<times> ('u, 't) spawn_future \<times> ('r poll, 'e) reply list" where
  "sf_polls [] f = ([], f, [])"
| "sf_polls (a # as) f =
     (let (ev, f', r) = sf_poll a f; (evs, f'', rs) = sf_polls as f' in (ev @ evs, f'', r # rs))"

fun scheduled :: "('u, 't) event list \<Rightarrow> 'u list" where
  "scheduled [] = []"
| "scheduled (Schedule r # evs) = r # scheduled evs"
| "scheduled (ev # evs) = scheduled evs"

section \<open>The states of a \<open>SpawnFuture\<close>\<close>

lemma scheduled_append [simp]: "scheduled (xs @ ys) = scheduled xs @ scheduled ys"
  by (induction xs rule: scheduled.induct) auto

lemma sf_poll_done:
  "sf_poll a \<lparr>sf_runnable = None, sf_task = None\<rparr>
     = ([], \<lparr>sf_runnable = None, sf_task = None\<rparr>, Panicked ''SpawnFuture polled after completion'')"
  by (simp add: sf_poll_def)

lemma sf_poll_queued:
  "sf_poll a \<lparr>sf_runnable = None, sf_task = Some t\<rparr>
     = ([PollTask t], \<lparr>sf_runnable = None, sf_task = if a = Pending then Some t else None\<rparr>, join_poll a)"
  by (cases a) (auto simp: sf_poll_def split: sum.splits)

lemma sf_poll_new:
  "sf_poll a (sf_new r t)
     = ([Schedule r, PollTask t],
        \<lparr>sf_runnable = None, sf_task = if a = Pending then Some t else None\<rparr>, join_poll a)"
  by (cases a) (auto simp: sf_poll_def sf_new_def split: sum.splits)

lemma sf_polls_done:
  "sf_polls as \<lparr>sf_runnable = None, sf_task = None\<rparr>
     = ([], \<lparr>sf_runnable = None, sf_task = None\<rparr>,
        map (\<lambda>_. Panicked ''SpawnFuture polled after completion'') as)"
  by (induction as) (simp_all add: sf_poll_done)

text \<open>The replies of a queued future: those of the task, then the panic.\<close>

fun replies :: "('e + 'r) poll list \<Rightarrow> ('r poll, 'e) reply list" where
  "replies [] = []"
| "replies (Pending # as) = Returned Pending # replies as"
| "replies (Ready res # as) =
     join_poll (Ready res) # map (\<lambda>_. Panicked ''SpawnFuture polled after completion'') as"

definition all_pending :: "('e + 'r) poll list \<Rightarrow> bool" where
  "all_pending as \<longleftrightarrow> (\<forall>a \<in> set as. a = Pending)"

lemma sf_polls_queued:
  "\<exists>evs :: ('u, 't) event list. sf_polls as \<lparr>sf_runnable = None, sf_task = Some t\<rparr>
     = (evs, \<lparr>sf_runnable = None, sf_task = if all_pending as then Some t else None\<rparr>, replies as)
     \<and> scheduled evs = []"
proof (induction as)
  case Nil
  then show ?case by (simp add: all_pending_def)
next
  case (Cons a as)
  then obtain evs :: "('u, 't) event list" where evs: "sf_polls as \<lparr>sf_runnable = None, sf_task = Some t\<rparr>
     = (evs, \<lparr>sf_runnable = None, sf_task = if all_pending as then Some t else None\<rparr>, replies as)"
    "scheduled evs = []"
    by blast
  show ?case
  proof (cases a)
    case (Ready res)
    then show ?thesis by (simp add: sf_poll_queued sf_polls_done all_pending_def)
  next
    case Pending
    with evs show ?thesis by (simp add: sf_poll_queued all_pending_def)
  qed
qed

lemma sf_polls_new:
  fixes r :: 'u and t :: 't
  assumes "as \<noteq> []"
  shows "\<exists>evs. sf_polls as (sf_new r t)
     = (Schedule r # evs, \<lparr>sf_runnable = None, sf_task = if all_pending as then Some t else None\<rparr>,
        replies as)
     \<and> scheduled evs = []"
proof (cases as)
  case Nil
  with assms show ?thesis by simp
next
  case (Cons a bs)
  obtain evs :: "('u, 't) event list" where evs: "sf_polls bs \<lparr>sf_runnable = None, sf_task = Some t\<rparr>
     = (evs, \<lparr>sf_runnable = None, sf_task = if all_pending bs then Some t else None\<rparr>, replies bs)"
    "scheduled evs = []"
    using sf_polls_queued [of bs t, where 'u = 'u] by blast
  show ?thesis
  proof (cases a)
    case (Ready res)
    with Cons show ?thesis by (simp add: sf_poll_new sf_polls_done all_pending_def)
  next
    case Pending
    with Cons evs show ?thesis by (simp add: sf_poll_new all_pending_def)
  qed
qed

lemma replies_until_ready:
  "replies (replicate n Pending @ [Ready res]) = map join_poll (replicate n Pending @ [Ready res])"
  by (induction n) simp_all

section \<open>Blocking cancellation\<close>

text \<open>
  \<open>block_on_cancel\<close> polls the future of \<open>Task::cancel\<close> until it is ready and parks the
  thread in between. \<open>stopped\<close>: the task has been cancelled or has run to its end, and no
  worker touches the closure any more, which is when that future is ready. A pending poll
  registers the waker; the task calls it when it stops, and may call it before. The waker
  unparks the thread, that is sets its token; \<open>park\<close> waits for the token, takes it, and may
  return without.
\<close>

datatype block_pc = BPoll | BPark | BDone

record cancel_env =
  stopped :: bool
  waker_set :: bool
  token :: bool

inductive block_step :: "block_pc \<times> cancel_env \<Rightarrow> block_pc \<times> cancel_env \<Rightarrow> bool" where
  poll_ready: "stopped e \<Longrightarrow> block_step (BPoll, e) (BDone, e)"
| poll_pending: "\<not> stopped e \<Longrightarrow> block_step (BPoll, e) (BPark, e\<lparr>waker_set := True\<rparr>)"
| park_token: "token e \<Longrightarrow> block_step (BPark, e) (BPoll, e\<lparr>token := False\<rparr>)"
| park_spurious: "block_step (BPark, e) (BPoll, e)"
| task_stops:
    "\<not> stopped e \<Longrightarrow>
     block_step (pc, e) (pc, e\<lparr>stopped := True, waker_set := False, token := token e \<or> waker_set e\<rparr>)"
| task_wakes:
    "waker_set e \<Longrightarrow> block_step (pc, e) (pc, e\<lparr>waker_set := False, token := True\<rparr>)"

definition block_init :: "block_pc \<times> cancel_env \<Rightarrow> bool" where
  "block_init s \<longleftrightarrow> fst s = BPoll \<and> \<not> waker_set (snd s)"

fun block_inv :: "block_pc \<times> cancel_env \<Rightarrow> bool" where
  "block_inv (BPoll, e) \<longleftrightarrow> True"
| "block_inv (BPark, e) \<longleftrightarrow> token e \<or> (waker_set e \<and> \<not> stopped e)"
| "block_inv (BDone, e) \<longleftrightarrow> stopped e"

lemma block_inv_step: "block_inv s \<Longrightarrow> block_step s s' \<Longrightarrow> block_inv s'"
  by (erule block_step.cases) (auto elim!: block_inv.elims)

lemma block_inv_init: "block_init s \<Longrightarrow> block_inv s"
  by (cases s) (simp add: block_init_def)

interpretation blocking: invariant_system block_init block_step block_inv
  by unfold_locales (erule block_inv_init, erule block_inv_step)

section \<open>Properties\<close>

text \<open>
  C36. A runnable is queued exactly once: by \<open>spawn\<close> before it returns; by the first poll of
  the \<open>SpawnFuture\<close> that \<open>spawn_local\<close> returns, before the task itself is polled, and by no
  later poll; never if the future is not polled.
\<close>
theorem runnable_queued_once:
  fixes mk :: "'e + 'r \<Rightarrow> 'u \<times> 't"
  shows "case (mk (catch_unwind func), spawn mk func, spawn_local mk func) of
    ((r, t), (eager, h), (lazy, f)) \<Rightarrow>
      scheduled eager = [r] \<and> jh_task h = t
      \<and> scheduled (lazy @ fst (sf_polls as f)) = (if as = [] then [] else [r])
      \<and> fst (sf_poll a f) = [Schedule r, PollTask t]"
proof -
  obtain r t where rt: "mk (catch_unwind func) = (r, t)" by (cases "mk (catch_unwind func)")
  have "scheduled (fst (sf_polls as (sf_new r t))) = (if as = [] then [] else [r])"
  proof (cases "as = []")
    case False
    from sf_polls_new [OF this, of r t] show ?thesis using False by auto
  qed simp
  with rt show ?thesis by (simp add: spawn_def spawn_local_def sf_poll_new)
qed

text \<open>
  What dropping a \<open>SpawnFuture\<close> does, for every history of polls: never polled, it drops
  the runnable and then the task and blocks nobody; polled and still pending, it blocks on the
  cancellation; completed, it does nothing.
\<close>
theorem drop_matches_history:
  "sf_drop (fst (snd (sf_polls as (sf_new r t)))) =
     (if as = [] then [DropRunnable r, DropTask t]
      else if all_pending as then [BlockOnCancel t] else [])"
proof (cases "as = []")
  case True
  then show ?thesis by (simp add: sf_drop_def sf_new_def)
next
  case False
  from sf_polls_new [OF this, of r t] False show ?thesis
    by (auto simp: sf_drop_def)
qed

text \<open>
  \<open>spawn\<close> and \<open>spawn_local\<close> report the closure in the same way: awaiting either future
  gives pending replies while the task is pending and then the closure's value, or resumes
  the panic the closure raised, with its payload.
\<close>
theorem futures_report_the_closure:
  "snd (snd (sf_polls (replicate n Pending @ [Ready (catch_unwind closure)]) (sf_new r t)))
     = map join_poll (replicate n Pending @ [Ready (catch_unwind closure)])
   \<and> join_poll (Ready (catch_unwind closure))
     = (case closure of Value v \<Rightarrow> Returned (Ready v) | Panic p \<Rightarrow> Resumed p)"
  using sf_polls_new [of "replicate n Pending @ [Ready (catch_unwind closure)]" r t]
  by (auto simp: replies_until_ready split: outcome.split)

text \<open>
  A completed \<open>SpawnFuture\<close> is inert: any further poll panics with its own message and
  touches neither the queue nor the task.
\<close>
theorem completed_future_is_inert:
  assumes "Ready res \<in> set as"
  shows "sf_poll a (fst (snd (sf_polls as (sf_new r t))))
    = ([], fst (snd (sf_polls as (sf_new r t))), Panicked ''SpawnFuture polled after completion'')"
proof -
  have "as \<noteq> []" "\<not> all_pending as" using assms by (auto simp: all_pending_def)
  with sf_polls_new [of as r t] show ?thesis by (auto simp: sf_poll_done)
qed

theorem completed_future_is_inert_witness:
  "sf_poll Pending (fst (snd (sf_polls [Pending, Ready (Inr 5 :: string + nat)] (sf_new (1::nat) (2::nat)))))
    = ([], \<lparr>sf_runnable = None, sf_task = None\<rparr>, Panicked ''SpawnFuture polled after completion'')"
  using completed_future_is_inert [of "Inr 5 :: string + nat" "[Pending, Ready (Inr 5)]" Pending "1::nat" "2::nat"]
  by (simp add: sf_poll_new sf_poll_queued)

text \<open>
  C37. The blocking drop is safe and does not hang: \<open>block_on_cancel\<close> returns only after the
  task has stopped; whenever it is parked after that, its unpark token is set, and from any
  reachable state with the task stopped its own steps lead to the return.
\<close>
theorem blocking_drop_waits_and_returns:
  assumes "reachable_from block_init block_step (pc, e)"
  shows "(pc = BDone \<longrightarrow> stopped e)
    \<and> (pc = BPark \<longrightarrow> stopped e \<longrightarrow> token e)
    \<and> (stopped e \<longrightarrow> (\<exists>e'. block_step\<^sup>*\<^sup>* (pc, e) (BDone, e')))"
proof -
  have inv: "block_inv (pc, e)" by (rule blocking.reachable_inv [OF assms])
  have ret: "\<exists>e'. block_step\<^sup>*\<^sup>* (pc, e) (BDone, e')" if "stopped e"
  proof (cases pc)
    case BPoll
    with that show ?thesis by (blast intro: poll_ready)
  next
    case BPark
    with inv that have "token e" by simp
    with BPark have "block_step (pc, e) (BPoll, e\<lparr>token := False\<rparr>)" by (simp add: park_token)
    moreover have "block_step (BPoll, e\<lparr>token := False\<rparr>) (BDone, e\<lparr>token := False\<rparr>)"
      using that by (simp add: poll_ready)
    ultimately show ?thesis by (blast intro: rtranclp.rtrancl_into_rtrancl)
  next
    case BDone
    then show ?thesis by blast
  qed
  from inv ret show ?thesis by (cases pc) auto
qed

theorem blocking_drop_waits_and_returns_witness:
  "\<exists>e'. block_step\<^sup>*\<^sup>* (BPark, \<lparr>stopped = True, waker_set = False, token = True\<rparr>) (BDone, e')"
proof -
  let ?e = "\<lparr>stopped = False, waker_set = False, token = False\<rparr>"
  have "reachable_from block_init block_step (BPoll, ?e)"
    by (rule reach_init) (simp add: block_init_def)
  from reach_step [OF this poll_pending]
  have "reachable_from block_init block_step (BPark, ?e\<lparr>waker_set := True\<rparr>)" by simp
  from reach_step [OF this task_stops]
  have "reachable_from block_init block_step
      (BPark, \<lparr>stopped = True, waker_set = False, token = True\<rparr>)" by simp
  from blocking_drop_waits_and_returns [OF this] show ?thesis by simp
qed

end
