(* ===== verification/Await.thy ===== *)
theory Await
  imports Liveness Future
begin

text \<open>
  From a call of \<open>spawn\<close> to the answer of its future: the composition of the queue with the
  futures. A runnable stands for the closure it was made from; async_task answers a poll of
  the task with \<open>Pending\<close> until the runnable has been run, and then with what the wrapped
  closure returned, as it documents.
\<close>

section \<open>What the task answers\<close>

definition task_answer :: "'u sys \<Rightarrow> 'u \<Rightarrow> ('r, 'e) outcome \<Rightarrow> ('e + 'r) poll" where
  "task_answer s r closure = (if r \<in># ran s then Ready (catch_unwind closure) else Pending)"

text \<open>How awaiting must end: with the closure's value, or its panic resumed.\<close>

fun awaited_end :: "('r, 'e) outcome \<Rightarrow> ('r poll, 'e) reply" where
  "awaited_end (Value v) = Returned (Ready v)"
| "awaited_end (Panic p) = Resumed p"

lemma join_poll_end [simp]: "join_poll (Ready (catch_unwind closure)) = awaited_end closure"
  by (cases closure) simp_all

lemma task_answer_ran:
  "r \<in># ran s \<Longrightarrow> join_poll (task_answer s r closure) = awaited_end closure"
  by (simp add: task_answer_def)

text \<open>A \<open>SpawnFuture\<close> that has been polled before, its runnable queued.\<close>

lemma polled_future_ran:
  assumes "r \<in># ran s"
  shows "sf_poll (task_answer s r closure) (fst (snd (sf_poll Pending (sf_new r t))))
    = ([PollTask t], \<lparr>sf_runnable = None, sf_task = None\<rparr>, awaited_end closure)"
  using assms by (simp add: sf_poll_new sf_poll_queued task_answer_def)

text \<open>Before the runnable has run, both futures wait and neither queues it again.\<close>

lemma unfinished_waits:
  assumes "r \<notin># ran s"
  shows "join_poll (task_answer s r closure) = Returned Pending"
    and "sf_poll (task_answer s r closure) (fst (snd (sf_poll Pending (sf_new r t))))
      = ([PollTask t], fst (snd (sf_poll Pending (sf_new r t))), Returned Pending)"
  using assms by (simp_all add: sf_poll_new sf_poll_queued task_answer_def)

section \<open>Every spawned closure is answered\<close>

lemma pushed_gets_run:
  assumes "reachable s" and "cpc s = CIdle" and "crashes s = 0" and "r \<in># pushed s"
  shows "inevitable calm_step (\<lambda>s'. r \<in># ran s') s"
proof (rule inevitable_conseq [OF progress.inevitable_goal [OF assms(1)],
      where I = "\<lambda>s'. reachable s' \<and> cpc s' = CIdle \<and> pushed s' = pushed s \<and> crashes s' = 0"])
  fix s' t assume "reachable s' \<and> cpc s' = CIdle \<and> pushed s' = pushed s \<and> crashes s' = 0"
    and "calm_step s' t"
  with calm_step_keeps [of s' t] calm_step_reachable [of s' t]
  show "reachable t \<and> cpc t = CIdle \<and> pushed t = pushed s \<and> crashes t = 0" by simp
next
  fix s' assume I: "reachable s' \<and> cpc s' = CIdle \<and> pushed s' = pushed s \<and> crashes s' = 0"
    and "settled s'"
  then have "ran s' = pushed s'" using settled_open [of s'] by blast
  with I assms(4) show "r \<in># ran s'" by metis
qed (use assms in simp)

section \<open>Property\<close>



end
