(* ===== verification/Blocking_Drop.thy ===== *)
theory Blocking_Drop
  imports Blocked_Job Future
begin

text \<open>
  Dropping a polled \<open>SpawnFuture\<close> (\<open>Drop for SpawnFuture\<close> and \<open>block_on_cancel\<close> of
  \<open>src/local.rs\<close>) against the pool that has to finish with its runnable. The future that
  \<open>Task::cancel\<close> returns is ready when the worker is done with the runnable; until then the
  dropping thread parks. The drop is composed with any system that finishes the runnable by
  the time it comes to rest, and that contract is discharged for two pools: an open one
  whose future is dropped by an outsider, and one of two workers whose own job drops it. The
  future borrows the pool, so that \<open>shutdown\<close> is not called meanwhile.
\<close>

section \<open>The drop beside a system\<close>

text \<open>
  \<open>fin\<close>: the system is done with the runnable. That stops the task, with the effects
  \<open>block_step\<close> gives it: the waker, if one is registered, unparks the dropping thread.
\<close>

inductive drop_step ::
  "('s \<Rightarrow> 's \<Rightarrow> bool) \<Rightarrow> ('s \<Rightarrow> bool) \<Rightarrow> 's \<times> block_pc \<times> cancel_env \<Rightarrow> 's \<times> block_pc \<times> cancel_env \<Rightarrow> bool"
  for stp fin where
  pool_moves:
    "stp s s' \<Longrightarrow> fin s \<or> \<not> fin s' \<Longrightarrow> drop_step stp fin (s, pc, e) (s', pc, e)"
| pool_finishes:
    "stp s s' \<Longrightarrow> \<not> fin s \<Longrightarrow> fin s' \<Longrightarrow> block_step (pc, e) (pc, e') \<Longrightarrow>
     \<not> stopped e \<Longrightarrow> stopped e' \<Longrightarrow> drop_step stp fin (s, pc, e) (s', pc, e')"
| dropper_moves:
    "block_step (pc, e) (pc', e') \<Longrightarrow> stopped e' = stopped e \<Longrightarrow>
     drop_step stp fin (s, pc, e) (s, pc', e')"

text \<open>
  Undisturbed: the system takes calm steps only, \<open>park\<close> does not return without the token
  and the task does not wake the dropping thread before it stops.
\<close>

definition patient :: "block_pc \<times> cancel_env \<Rightarrow> block_pc \<times> cancel_env \<Rightarrow> bool" where
  "patient x y \<longleftrightarrow> x \<noteq> y \<and> (fst x = BPark \<and> fst y = BPoll \<longrightarrow> token (snd x) \<and> \<not> token (snd y))
     \<and> (\<not> token (snd x) \<longrightarrow> token (snd y) \<longrightarrow> \<not> stopped (snd x) \<and> stopped (snd y))"

definition patient_drop ::
  "('s \<Rightarrow> 's \<Rightarrow> bool) \<Rightarrow> ('s \<Rightarrow> bool) \<Rightarrow> 's \<times> block_pc \<times> cancel_env \<Rightarrow> 's \<times> block_pc \<times> cancel_env \<Rightarrow> bool"
  where
  "patient_drop calm fin x y \<longleftrightarrow> drop_step calm fin x y \<and> (snd x = snd y \<or> patient (snd x) (snd y))
     \<and> x \<noteq> y"

definition drop_ini :: "('s \<Rightarrow> bool) \<Rightarrow> ('s \<Rightarrow> bool) \<Rightarrow> 's \<times> block_pc \<times> cancel_env \<Rightarrow> bool" where
  "drop_ini ini fin x \<longleftrightarrow> ini (fst x) \<and> block_init (snd x) \<and> (stopped (snd (snd x)) \<longleftrightarrow> fin (fst x))"

definition drop_inv :: "('s \<Rightarrow> bool) \<Rightarrow> ('s \<Rightarrow> bool) \<Rightarrow> 's \<times> block_pc \<times> cancel_env \<Rightarrow> bool" where
  "drop_inv I fin x \<longleftrightarrow> I (fst x) \<and> block_inv (snd x) \<and> (stopped (snd (snd x)) \<longleftrightarrow> fin (fst x))"

definition drop_returned :: "'s \<times> block_pc \<times> cancel_env \<Rightarrow> bool" where
  "drop_returned x \<longleftrightarrow> fst (snd x) = BDone"

text \<open>What the dropping thread has left to do while the system does not move.\<close>

fun patience :: "block_pc \<times> cancel_env \<Rightarrow> nat" where
  "patience (pc, e) = 4 * of_bool (token e) + 2 * of_bool (pc = BPoll) + of_bool (waker_set e)"

definition drop_rank :: "('s \<Rightarrow> 'k) \<Rightarrow> 's \<times> block_pc \<times> cancel_env \<Rightarrow> 'k \<times> nat" where
  "drop_rank rk x = (rk (fst x), patience (snd x))"

lemma patience_drops:
  assumes "block_step x y" and "patient x y" and "stopped (snd y) = stopped (snd x)"
  shows "patience y < patience x"
  using assms by cases (auto simp: patient_def)

lemma patient_can_step:
  assumes "block_inv (pc, e)" and "pc \<noteq> BDone" and "pc = BPark \<Longrightarrow> stopped e"
  shows "\<exists>y. block_step (pc, e) y \<and> patient (pc, e) y \<and> stopped (snd y) = stopped e"
proof (cases pc)
  case BPoll
  show ?thesis
  proof (cases "stopped e")
    case True
    with BPoll poll_ready [of e] show ?thesis by (intro exI [of _ "(BDone, e)"]) (simp add: patient_def)
  next
    case False
    with BPoll poll_pending [of e] show ?thesis
      by (intro exI [of _ "(BPark, e\<lparr>waker_set := True\<rparr>)"]) (simp add: patient_def)
  qed
next
  case BPark
  with assms have "token e" by auto
  with BPark park_token [of e] show ?thesis
    by (intro exI [of _ "(BPoll, e\<lparr>token := False\<rparr>)"]) (simp add: patient_def)
qed (use assms in simp)

text \<open>
  The contract: a system with progress that is done with the runnable, for good, by the time
  it comes to rest. The drop then returns.
\<close>

locale finishing_system = progress_system ini stp inv calm goal rank below
  for ini :: "'s \<Rightarrow> bool" and stp :: "'s \<Rightarrow> 's \<Rightarrow> bool" and inv :: "'s \<Rightarrow> bool"
    and calm :: "'s \<Rightarrow> 's \<Rightarrow> bool" and goal :: "'s \<Rightarrow> bool"
    and rank :: "'s \<Rightarrow> 'k" and below :: "('k \<times> 'k) set" +
  fixes fin :: "'s \<Rightarrow> bool"
  assumes fin_at_goal: "inv s \<Longrightarrow> goal s \<Longrightarrow> fin s"
    and fin_stays: "inv s \<Longrightarrow> stp s t \<Longrightarrow> fin s \<Longrightarrow> fin t"
begin

lemma drop_inv_step:
  assumes "drop_inv inv fin x" and "drop_step stp fin x y"
  shows "drop_inv inv fin y"
  using assms(2)
proof cases
  case (pool_moves s s' pc e)
  then show ?thesis using assms(1) inv_step fin_stays by (auto simp: drop_inv_def)
next
  case (pool_finishes s s' pc e e')
  then show ?thesis using assms(1) inv_step block_inv_step by (auto simp: drop_inv_def)
next
  case (dropper_moves pc e pc' e' s)
  then show ?thesis using assms(1) block_inv_step by (auto simp: drop_inv_def)
qed

lemma patient_drop_step:
  assumes "patient_drop calm fin x y"
  shows "drop_step stp fin x y"
proof -
  have "drop_step calm fin x y" using assms by (simp add: patient_drop_def)
  then show ?thesis by cases (auto intro: drop_step.intros calm_stp)
qed

lemma patient_drop_rank:
  assumes "drop_inv inv fin x" and calm: "patient_drop calm fin x y"
  shows "(drop_rank rank y, drop_rank rank x) \<in> below <*lex*> less_than"
proof -
  have "drop_step calm fin x y" using calm by (simp add: patient_drop_def)
  then show ?thesis
  proof cases
    case (dropper_moves pc e pc' e' s)
    with calm have "patient (pc, e) (pc', e')" by (auto simp: patient_drop_def)
    with dropper_moves patience_drops [of "(pc, e)" "(pc', e')"] show ?thesis
      by (simp add: drop_rank_def)
  qed (use assms(1) rank_below in \<open>auto simp: drop_rank_def drop_inv_def\<close>)
qed

lemma drop_not_stuck:
  assumes inv: "drop_inv inv fin x" and going: "\<not> drop_returned x"
  shows "\<exists>y. patient_drop calm fin x y"
proof -
  obtain s pc e where x: "x = (s, pc, e)" by (cases x)
  have held: "inv s" "block_inv (pc, e)" "stopped e \<longleftrightarrow> fin s" and "pc \<noteq> BDone"
    using inv going by (simp_all add: drop_inv_def drop_returned_def x)
  show ?thesis
  proof (cases "pc = BPark \<longrightarrow> stopped e")
    case True
    with patient_can_step [OF held(2) \<open>pc \<noteq> BDone\<close>] obtain pc' e' where
      "block_step (pc, e) (pc', e')" "patient (pc, e) (pc', e')" "stopped e' = stopped e" by force
    then have "patient_drop calm fin x (s, pc', e')"
      unfolding patient_drop_def x by (auto intro: dropper_moves simp: patient_def)
    then show ?thesis ..
  next
    case False
    then have "\<not> fin s" "\<not> stopped e" using held(3) by simp_all
    with held(1) fin_at_goal not_stuck obtain s' where s': "calm s s'" by blast
    show ?thesis
    proof (cases "fin s'")
      case True
      let ?e = "e\<lparr>stopped := True, waker_set := False, token := token e \<or> waker_set e\<rparr>"
      have "drop_step calm fin x (s', pc, ?e)"
        unfolding x using s' \<open>\<not> fin s\<close> True \<open>\<not> stopped e\<close>
        by (intro pool_finishes task_stops) simp_all
      moreover have "e \<noteq> ?e" using \<open>\<not> stopped e\<close> by (metis cancel_env.select_convs(1)
            cancel_env.surjective cancel_env.update_convs(1,2,3))
      ultimately have "patient_drop calm fin x (s', pc, ?e)"
        using False \<open>\<not> stopped e\<close> by (simp add: patient_drop_def patient_def x)
      then show ?thesis ..
    next
      case fin: False
      with s' have "drop_step calm fin x (s', pc, e)" unfolding x by (intro pool_moves) simp_all
      moreover have "s' \<noteq> s"
      proof
        assume "s' = s"
        with rank_below [OF held(1)] s' have "(rank s, rank s) \<in> below" by blast
        with wf_below show False by (meson wf_irrefl)
      qed
      ultimately have "patient_drop calm fin x (s', pc, e)" by (simp add: patient_drop_def x)
      then show ?thesis ..
    qed
  qed
qed

end

sublocale finishing_system \<subseteq> dropping: progress_system "drop_ini ini fin" "drop_step stp fin"
  "drop_inv inv fin" "patient_drop calm fin" drop_returned "drop_rank rank" "below <*lex*> less_than"
proof unfold_locales
  show "drop_inv inv fin x" if "drop_ini ini fin x" for x
    using that inv_init block_inv_init by (auto simp: drop_ini_def drop_inv_def)
  show "drop_inv inv fin y" if "drop_inv inv fin x" "drop_step stp fin x y" for x y
    using that by (rule drop_inv_step)
  show "drop_step stp fin x y" if "patient_drop calm fin x y" for x y
    using that by (rule patient_drop_step)
  show "wf (below <*lex*> less_than)" by (intro wf_lex_prod wf_below wf_less_than)
  show "(drop_rank rank y, drop_rank rank x) \<in> below <*lex*> less_than"
    if "drop_inv inv fin x" "patient_drop calm fin x y" for x y
    using that by (rule patient_drop_rank)
  show "\<exists>y. patient_drop calm fin x y" if "drop_inv inv fin x" "\<not> drop_returned x" for x
    using that by (rule drop_not_stuck)
qed

section \<open>The pools that finish\<close>

text \<open>
  The workers \<open>V\<close> stay in their jobs; nobody shuts the pool down and no worker unwinds.
\<close>

definition open_step :: "nat set \<Rightarrow> 'r sys \<Rightarrow> 'r sys \<Rightarrow> bool" where
  "open_step V s s' \<longleftrightarrow> held_step V s s' \<and> cpc s' = CIdle \<and> crashes s' = 0"

definition open_calm :: "nat set \<Rightarrow> 'r sys \<Rightarrow> 'r sys \<Rightarrow> bool" where
  "open_calm V s s' \<longleftrightarrow> busy_step V s s' \<and> cpc s' = CIdle \<and> crashes s' = 0"

text \<open>
  A runnable has been pushed; either no worker is held up, or the pool has two workers and
  one is, in a job that is not this runnable.
\<close>

definition waits_for :: "nat set \<Rightarrow> 'r \<Rightarrow> 'r sys \<Rightarrow> bool" where
  "waits_for V r s \<longleftrightarrow> reachable s \<and> cpc s = CIdle \<and> crashes s = 0 \<and> r \<in># pushed s \<and> in_jobs V s
     \<and> (V = {} \<or> num_workers s = 2 \<and> (\<exists>v < 2. V = {v} \<and> wpcs s v \<noteq> WRun r))"

lemma pushed_stays: "sys_step s s' \<Longrightarrow> r \<in># pushed s \<Longrightarrow> r \<in># pushed s'"
  by (cases rule: sys_step.cases) auto

lemma ran_stays: "sys_step s s' \<Longrightarrow> r \<in># ran s \<Longrightarrow> r \<in># ran s'"
  by (cases rule: sys_step.cases) auto

lemma waits_for_step:
  assumes "waits_for V r s" and "open_step V s t"
  shows "waits_for V r t"
proof -
  have step: "sys_step s t" and same: "\<forall>v \<in> V. wpcs t v = wpcs s v"
    using assms(2) by (simp_all add: open_step_def held_step_def)
  with assms show ?thesis
    using reach_step [of sys_init sys_step s t] pushed_stays [OF step] sys_step_workers [OF step]
    by (auto simp: waits_for_def open_step_def in_jobs_def)
qed

lemma waited_runnable_ran:
  assumes inv: "waits_for V r s" and settled: "settled_but V s"
  shows "r \<in># ran s"
proof -
  have reach: "reachable s" and open_: "cpc s = CIdle" "crashes s = 0" and r: "r \<in># pushed s"
    and V: "V = {} \<or> num_workers s = 2 \<and> (\<exists>v < 2. V = {v} \<and> wpcs s v \<noteq> WRun r)"
    using inv by (simp_all add: waits_for_def)
  from V show ?thesis
  proof
    assume "V = {}"
    with settled have "settled s" by (simp add: settled_def settled_but_def)
    with settled_open [OF reach _ open_(1)] open_(2) r show ?thesis by metis
  next
    assume two: "num_workers s = 2 \<and> (\<exists>v < 2. V = {v} \<and> wpcs s v \<noteq> WRun r)"
    then obtain v where v: "v < 2" "V = {v}" "wpcs s v \<noteq> WRun r" by blast
    then obtain q where q: "wpcs s v = WRun q" "q \<noteq> r" using inv by (auto simp: waits_for_def in_jobs_def)
    have i: "1 - v < 2" "1 - v \<noteq> v" using v(1) by arith+
    have "wpcs s (1 - v) \<noteq> WExit" using full_invD(3) [OF reach] open_ two i by (auto simp: closing_inv_def)
    with settled two v(2) i have "asleep s (1 - v)" by (auto simp: settled_but_def)
    moreover have "\<forall>p. ppcs s p = HDone" using settled by (simp add: settled_but_def)
    ultimately have "pushed s = add_mset q (ran s) + orphans (que s)"
      using sleeper_beside_job [OF reach _ open_(1) _ i(1) v(1) i(2) _ q(1)] two by blast
    with no_orphans [OF full_invD(2) [OF reach] open_(2)] r q(2) show ?thesis by auto
  qed
qed

interpretation finishing_pool: finishing_system "waits_for V r" "open_step V" "waits_for V r"
  "open_calm V" "settled_but V" rank below "\<lambda>s. r \<in># ran s" for V r
proof unfold_locales
  fix s t :: "'a sys"
  show "waits_for V r t" if "waits_for V r s" "open_step V s t" using that by (rule waits_for_step)
  show "open_step V s t" if "open_calm V s t"
    using that by (simp add: open_calm_def open_step_def busy_step_def held_step_def calm_step_def)
  show "(rank t, rank s) \<in> below" if "waits_for V r s" "open_calm V s t"
    using that progress.reachable_inv [of s] calm_lowers_rank [of s t]
    by (simp add: waits_for_def open_calm_def busy_step_def)
  show "\<exists>t. open_calm V s t" if waits: "waits_for V r s" and going: "\<not> settled_but V s"
  proof -
    have "prog_inv s" using waits progress.reachable_inv [of s] by (simp add: waits_for_def)
    moreover have "\<forall>v \<in> V. \<not> w_holds (wpcs s v)"
      using waits by (fastforce simp: waits_for_def in_jobs_def)
    ultimately obtain t where "calm_step s t" "\<forall>v \<in> V. wpcs t v = wpcs s v"
      using others_move going by blast
    with waits calm_step_keeps [of s t] show ?thesis
      by (auto simp: open_calm_def busy_step_def waits_for_def)
  qed
  show "r \<in># ran s" if "waits_for V r s" "settled_but V s" using that by (rule waited_runnable_ran)
  show "r \<in># ran t" if "waits_for V r s" "open_step V s t" "r \<in># ran s"
    using that ran_stays by (auto simp: open_step_def held_step_def)
qed (use wf_below in auto)

text \<open>What both properties below say, for the workers \<open>V\<close> held up.\<close>

lemma blocking_drop_returns:
  assumes "waits_for V r s" and "\<not> waker_set e" and "stopped e \<longleftrightarrow> r \<in># ran s"
  shows "inevitable (patient_drop (open_calm V) (\<lambda>s. r \<in># ran s))
    (\<lambda>(s', pc, e'). pc = BDone \<and> r \<in># ran s' \<and> (\<forall>v \<in> V. wpcs s' v = wpcs s v)) (s, BPoll, e)"
proof -
  let ?fin = "\<lambda>s. r \<in># ran s"
  have "drop_ini (waits_for V r) ?fin (s, BPoll, e)"
    using assms by (simp add: drop_ini_def block_init_def)
  then have "reachable_from (drop_ini (waits_for V r) ?fin) (drop_step (open_step V) ?fin) (s, BPoll, e)"
    by (rule reach_init)
  from finishing_pool.dropping.inevitable_goal [OF this] show ?thesis
  proof (rule inevitable_conseq [where I = "\<lambda>x. drop_inv (waits_for V r) ?fin x
      \<and> (\<forall>v \<in> V. wpcs (fst x) v = wpcs s v)"])
    show "drop_inv (waits_for V r) ?fin (s, BPoll, e) \<and> (\<forall>v \<in> V. wpcs (fst (s, BPoll, e)) v = wpcs s v)"
      using assms by (simp add: drop_inv_def)
  next
    fix x y
    assume x: "drop_inv (waits_for V r) ?fin x \<and> (\<forall>v \<in> V. wpcs (fst x) v = wpcs s v)"
      and calm: "patient_drop (open_calm V) ?fin x y"
    have "drop_step (open_calm V) ?fin x y" using calm by (simp add: patient_drop_def)
    then have "\<forall>v \<in> V. wpcs (fst y) v = wpcs (fst x) v"
      by cases (auto simp: open_calm_def busy_step_def)
    moreover have "drop_inv (waits_for V r) ?fin y"
      using finishing_pool.drop_inv_step [OF _ finishing_pool.patient_drop_step [OF calm]] x by blast
    ultimately show "drop_inv (waits_for V r) ?fin y \<and> (\<forall>v \<in> V. wpcs (fst y) v = wpcs s v)"
      using x by simp
  next
    fix x :: "'a sys \<times> block_pc \<times> cancel_env"
    assume "drop_inv (waits_for V r) ?fin x \<and> (\<forall>v \<in> V. wpcs (fst x) v = wpcs s v)" "drop_returned x"
    then show "case x of (s', pc, e') \<Rightarrow> pc = BDone \<and> r \<in># ran s' \<and> (\<forall>v \<in> V. wpcs s' v = wpcs s v)"
      by (cases x) (auto simp: drop_inv_def drop_returned_def)
  qed
qed

section \<open>Properties\<close>





text \<open>
  C10. In a pool of one it cannot: if the only worker, in its job, drops a \<open>SpawnFuture\<close> whose
  runnable has not been run, the drop never returns, whatever everybody else does and however
  often the thread is woken without reason.
\<close>
theorem lone_worker_drop_never_returns:
  assumes "reachable s" and "num_workers s = 1" and "wpcs s 0 = WRun q" and "r \<notin># ran s"
    and "\<not> waker_set e" and "\<not> stopped e"
    and "(drop_step (held_step {0}) (\<lambda>s. r \<in># ran s))\<^sup>*\<^sup>* (s, BPoll, e) (s', pc, e')"
  shows "pc \<noteq> BDone \<and> ran s' = ran s"
proof -
  have "reachable (fst y) \<and> num_workers (fst y) = 1 \<and> wpcs (fst y) 0 = WRun q \<and> ran (fst y) = ran s
      \<and> \<not> stopped (snd (snd y)) \<and> block_inv (snd y)"
    if "(drop_step (held_step {0}) (\<lambda>s. r \<in># ran s))\<^sup>*\<^sup>* (s, BPoll, e) y" for y
    using that
  proof (induction rule: rtranclp_induct)
    case (step x y)
    from step.hyps(2) show ?case
    proof cases
      case (pool_moves u u' pc e)
      then have "sys_step u u'" by (simp add: held_step_def)
      with pool_moves step.IH lone_held_step [of u q u'] show ?thesis by (auto intro: reach_step)
    next
      case (pool_finishes u u' pc e e')
      with step.IH lone_held_step(3) [of u q u'] show ?thesis by simp
    next
      case (dropper_moves pc e pc' e' u)
      with step.IH block_inv_step [of "(pc, e)" "(pc', e')"] show ?thesis by simp
    qed
  qed (use assms in \<open>simp add: block_inv_init block_init_def\<close>)
  from this [OF assms(7)] show ?thesis by (cases pc) auto
qed

theorem lone_worker_drop_never_returns_witness:
  "\<exists>s :: nat sys. wpcs s 0 = WRun 5 \<and> deques (que s) 0 = [6]
    \<and> (\<forall>s' pc e'. (drop_step (held_step {0}) (\<lambda>s. 6 \<in># ran s))\<^sup>*\<^sup>*
         (s, BPoll, \<lparr>stopped = False, waker_set = False, token = False\<rparr>) (s', pc, e') \<longrightarrow> pc \<noteq> BDone)"
proof -
  obtain s :: "nat sys" where s: "reachable s" "num_workers s = 1" "wpcs s 0 = WRun 5"
    "deques (que s) 0 = [6]" "ran s = {#}"
    by (rule waiting_state [of 1]) simp_all
  then have "6 \<notin># ran s" by simp
  from lone_worker_drop_never_returns [OF s(1-3) this,
      of "\<lparr>stopped = False, waker_set = False, token = False\<rparr>"] s(3,4)
  show ?thesis by (intro exI [of _ s]) auto
qed

end
