(* ===== verification/Borrow.thy ===== *)
theory Borrow
  imports Blocking_Drop
begin

text \<open>
  Why \<open>spawn_local\<close> may erase the lifetime of its closure (the \<open>SAFETY\<close> comment in
  \<open>src/lib.rs\<close> and the contract in \<open>src/local.rs\<close>): one \<open>SpawnFuture\<close> from its creation to
  the end of the data its closure borrows, beside the concurrent pool. The borrows end when the
  future has been dropped, or, if it is leaked, at any time. The runnable is \<open>r\<close>; a first poll
  whose task is ready at once shows as two polls.
\<close>

section \<open>A future, its pool and the end of its borrows\<close>

datatype borrow_stage =
    Held
  | Blocking block_pc
  | Over

record 'r borrow =
  pool :: "'r sys"
  fut :: "('r, unit) spawn_future"
  stage :: borrow_stage
  env :: cancel_env

inductive borrow_step :: "bool \<Rightarrow> 'r \<Rightarrow> 'r borrow \<Rightarrow> 'r borrow \<Rightarrow> bool" for leak r where
  queue_moves:
    "sys_step (pool b) s \<Longrightarrow> count (pushed s) r = count (pushed (pool b)) r \<Longrightarrow>
     (r \<in># ran s \<longleftrightarrow> r \<in># ran (pool b)) \<Longrightarrow>
     borrow_step leak r b (b\<lparr>pool := s\<rparr>)"
| task_done:
    "sys_step (pool b) s \<Longrightarrow> count (pushed s) r = count (pushed (pool b)) r \<Longrightarrow>
     r \<notin># ran (pool b) \<Longrightarrow> r \<in># ran s \<Longrightarrow>
     (\<forall>pc. block_step (pc, env b) (pc, e)) \<Longrightarrow> \<not> stopped (env b) \<Longrightarrow> stopped e \<Longrightarrow>
     borrow_step leak r b (b\<lparr>pool := s, env := e\<rparr>)"
| poll_schedules:
    "stage b = Held \<Longrightarrow>
     sf_poll (Pending :: (unit + unit) poll) (fut b) = (ev, f, reply) \<Longrightarrow> scheduled ev = [x] \<Longrightarrow>
     sys_step (pool b) s \<Longrightarrow> pushed s = add_mset x (pushed (pool b)) \<Longrightarrow>
     borrow_step leak r b (b\<lparr>pool := s, fut := f\<rparr>)"
| poll_waits:
    "stage b = Held \<Longrightarrow>
     sf_poll (answer :: (unit + unit) poll) (fut b) = (ev, f, reply) \<Longrightarrow> scheduled ev = [] \<Longrightarrow>
     (answer \<noteq> Pending \<longrightarrow> stopped (env b)) \<Longrightarrow>
     borrow_step leak r b (b\<lparr>fut := f\<rparr>)"
| drop_passes:
    "stage b = Held \<Longrightarrow> BlockOnCancel () \<notin> set (sf_drop (fut b)) \<Longrightarrow>
     borrow_step leak r b (b\<lparr>stage := Over\<rparr>)"
| drop_waits:
    "stage b = Held \<Longrightarrow> BlockOnCancel () \<in> set (sf_drop (fut b)) \<Longrightarrow>
     borrow_step leak r b (b\<lparr>stage := Blocking BPoll\<rparr>)"
| dropper:
    "stage b = Blocking pc \<Longrightarrow> block_step (pc, env b) (pc', e) \<Longrightarrow> stopped e = stopped (env b) \<Longrightarrow>
     borrow_step leak r b (b\<lparr>stage := Blocking pc', env := e\<rparr>)"
| drop_ends:
    "stage b = Blocking BDone \<Longrightarrow> borrow_step leak r b (b\<lparr>stage := Over\<rparr>)"
| leaks:
    "leak \<Longrightarrow> stage b = Held \<Longrightarrow> borrow_step leak r b (b\<lparr>stage := Over\<rparr>)"

text \<open>\<open>spawn_local\<close> has returned; the runnable is nowhere but in the future.\<close>

definition borrow_init :: "'r \<Rightarrow> 'r borrow \<Rightarrow> bool" where
  "borrow_init r b \<longleftrightarrow> reachable (pool b) \<and> r \<notin># pushed (pool b) \<and> fut b = sf_new r ()
     \<and> stage b = Held \<and> \<not> waker_set (env b) \<and> \<not> stopped (env b)"

section \<open>The invariant\<close>

definition unpolled :: "'r \<Rightarrow> 'r borrow \<Rightarrow> bool" where
  "unpolled r b \<longleftrightarrow> fut b = sf_new r () \<and> r \<notin># pushed (pool b)"

definition polled :: "'r \<Rightarrow> 'r borrow \<Rightarrow> bool" where
  "polled r b \<longleftrightarrow> sf_runnable (fut b) = None \<and> count (pushed (pool b)) r = 1
     \<and> (sf_task (fut b) = None \<longrightarrow> r \<in># ran (pool b))"

definition borrow_inv :: "bool \<Rightarrow> 'r \<Rightarrow> 'r borrow \<Rightarrow> bool" where
  "borrow_inv leak r b \<longleftrightarrow> reachable (pool b) \<and> (stopped (env b) \<longleftrightarrow> r \<in># ran (pool b))
     \<and> (unpolled r b \<or> polled r b)
     \<and> (\<forall>pc. stage b = Blocking pc \<longrightarrow> polled r b \<and> block_inv (pc, env b))
     \<and> (stage b = Over \<longrightarrow> leak \<or> unpolled r b \<or> r \<in># ran (pool b))"

lemma ran_le_pushed_count: "reachable s \<Longrightarrow> count (ran s) r \<le> count (pushed s) r"
  using full_invD(2) [of s] by (simp add: own_inv_def)

lemma borrow_inv_init:
  assumes "borrow_init r b"
  shows "borrow_inv leak r b"
proof -
  have "r \<notin># ran (pool b)"
    using assms ran_le_pushed_count [of "pool b" r] by (simp add: borrow_init_def not_in_iff)
  with assms show ?thesis by (simp add: borrow_inv_def borrow_init_def unpolled_def)
qed

lemma poll_unpolled:
  "unpolled r b \<Longrightarrow> sf_poll a (fut b) = (ev, f, reply) \<Longrightarrow> scheduled ev = [r]"
  by (auto simp: unpolled_def sf_poll_new)

lemma poll_polled:
  assumes "polled r b" and "sf_poll a (fut b) = (ev, f, reply)"
  shows "scheduled ev = []" "sf_runnable f = None" "sf_task f = None \<Longrightarrow> a \<noteq> Pending \<or> sf_task (fut b) = None"
proof -
  have "sf_runnable (fut b) = None" using assms(1) by (simp add: polled_def)
  with assms(2) show "scheduled ev = []" "sf_runnable f = None"
    "sf_task f = None \<Longrightarrow> a \<noteq> Pending \<or> sf_task (fut b) = None"
    by (auto simp: sf_poll_def Let_def split: option.splits poll.splits)
qed

lemma drop_blocks_iff:
  "unpolled r b \<Longrightarrow> BlockOnCancel () \<notin> set (sf_drop (fut b))"
  "polled r b \<Longrightarrow> BlockOnCancel () \<in> set (sf_drop (fut b)) \<longleftrightarrow> sf_task (fut b) \<noteq> None"
  by (auto simp: unpolled_def polled_def sf_drop_def sf_new_def split: option.splits)

lemma borrow_inv_step:
  assumes inv: "borrow_inv leak r b" and step: "borrow_step leak r b b'"
  shows "borrow_inv leak r b'"
proof -
  have reach: "reachable (pool b)" and stop: "stopped (env b) \<longleftrightarrow> r \<in># ran (pool b)"
    and which: "unpolled r b \<or> polled r b"
    and blocking: "\<And>pc. stage b = Blocking pc \<Longrightarrow> polled r b \<and> block_inv (pc, env b)"
    and over: "stage b = Over \<Longrightarrow> leak \<or> unpolled r b \<or> r \<in># ran (pool b)"
    using inv by (auto simp: borrow_inv_def)
  from step show ?thesis
  proof cases
    case (queue_moves s)
    have "reachable s" by (rule reach_step [OF reach queue_moves(2)])
    then show ?thesis using queue_moves stop which blocking over
      by (auto simp: borrow_inv_def unpolled_def polled_def not_in_iff)
  next
    case (task_done s e)
    have "reachable s" by (rule reach_step [OF reach task_done(2)])
    moreover have "block_inv (pc, e)" if "block_inv (pc, env b)" for pc
      using block_inv_step [OF that] task_done(6) by blast
    ultimately show ?thesis using task_done stop which blocking over
      by (auto simp: borrow_inv_def unpolled_def polled_def not_in_iff)
  next
    case (poll_schedules ev f reply x s)
    then have un: "unpolled r b" using which poll_polled(1) [of r b] by fastforce
    then have x: "x = r" and f: "sf_runnable f = None" "sf_task f = Some ()"
      using poll_schedules(3,4) by (auto simp: unpolled_def sf_poll_new)
    have "r \<in># ran s \<longleftrightarrow> r \<in># ran (pool b)"
      using poll_schedules(5,6) by cases auto
    then show ?thesis
      using poll_schedules un x f stop reach_step [of sys_init sys_step "pool b" s] reach
      by (auto simp: borrow_inv_def polled_def unpolled_def not_in_iff)
  next
    case (poll_waits answer ev f reply)
    then have "polled r b" using which poll_unpolled [of r b] by fastforce
    with poll_waits poll_polled [OF this poll_waits(3)] stop reach show ?thesis
      by (auto simp: borrow_inv_def polled_def)
  next
    case drop_passes
    then show ?thesis using reach stop which drop_blocks_iff(2) [of r b]
      by (auto simp: borrow_inv_def polled_def unpolled_def)
  next
    case drop_waits
    then show ?thesis using reach stop which drop_blocks_iff(1) [of r b]
      by (auto simp: borrow_inv_def polled_def unpolled_def)
  next
    case (dropper pc pc' e)
    then show ?thesis using reach stop blocking [of pc] block_inv_step [OF _ dropper(3)]
      by (auto simp: borrow_inv_def polled_def unpolled_def)
  next
    case drop_ends
    then show ?thesis using reach stop blocking [of BDone]
      by (auto simp: borrow_inv_def polled_def unpolled_def)
  next
    case leaks
    then show ?thesis using reach stop which by (auto simp: borrow_inv_def polled_def unpolled_def)
  qed
qed

interpretation borrowing: invariant_system "borrow_init r" "borrow_step leak r" "borrow_inv leak r"
  for leak r
  by unfold_locales (erule borrow_inv_init, erule borrow_inv_step)


section \<open>The pool moves on\<close>

lemma pushed_count_grows: "sys_step s s' \<Longrightarrow> count (pushed s) r \<le> count (pushed s') r"
  by (cases rule: sys_step.cases) auto

lemma queue_run:
  assumes "reachable_from (borrow_init r) (borrow_step leak r) b" and "sys_step\<^sup>*\<^sup>* (pool b) s"
    and "count (pushed s) r = count (pushed (pool b)) r" and "r \<notin># ran s"
  shows "reachable_from (borrow_init r) (borrow_step leak r) (b\<lparr>pool := s\<rparr>)"
proof -
  have "count (pushed (pool b)) r \<le> count (pushed s) r \<and> (count (pushed s) r = count (pushed (pool b)) r
      \<longrightarrow> r \<notin># ran s \<longrightarrow> reachable_from (borrow_init r) (borrow_step leak r) (b\<lparr>pool := s\<rparr>))"
    using assms(2)
  proof (induction rule: rtranclp_induct)
    case base
    then show ?case using assms(1) by simp
  next
    case (step y z)
    have "reachable_from (borrow_init r) (borrow_step leak r) (b\<lparr>pool := z\<rparr>)"
      if same: "count (pushed z) r = count (pushed (pool b)) r" and "r \<notin># ran z"
    proof -
      let ?b = "b\<lparr>pool := y\<rparr>"
      have y: "count (pushed y) r = count (pushed z) r" "r \<notin># ran y"
        using step.IH pushed_count_grows [OF step(2), of r] same ran_stays [OF step(2)] that(2) by auto
      with step.IH same have b: "reachable_from (borrow_init r) (borrow_step leak r) ?b" by simp
      have "borrow_step leak r ?b (?b\<lparr>pool := z\<rparr>)"
        using step(2) y that(2) by (intro queue_moves) simp_all
      from reach_step [OF b this] show ?thesis by simp
    qed
    with step.IH pushed_count_grows [OF step(2), of r] show ?case by linarith
  qed
  with assms(3,4) show ?thesis by blast
qed

section \<open>A small pool with one future\<close>

definition fresh_borrow :: "nat borrow" where
  "fresh_borrow = \<lparr>pool = fresh_pool 1, fut = sf_new 5 (), stage = Held,
     env = \<lparr>stopped = False, waker_set = False, token = False\<rparr>\<rparr>"

abbreviation future_reachable :: "bool \<Rightarrow> nat borrow \<Rightarrow> bool" where
  "future_reachable leak \<equiv> reachable_from (borrow_init 5) (borrow_step leak 5)"

definition first_poll :: "nat move list" where
  "first_poll = [Push 0 5]"

definition until_runs :: "nat move list" where
  "until_runs = [Hand 0 0, Hand 0 0] @ replicate 4 (Pop 0 Half)"

definition future_view :: "nat sys \<Rightarrow> nat wpc \<times> bool \<times> bool \<times> nat" where
  "future_view s = (wpcs s 0, pushed s = {#5#}, ran s = {#}, num_workers s)"

lemma future_runs:
  "map_option future_view (replay first_poll (fresh_pool 1)) = Some (WStart, True, True, 1)"
  "map_option future_view (Option.bind (replay first_poll (fresh_pool 1)) (replay until_runs))
     = Some (WRun 5, True, True, 1)"
  by code_simp+

lemma future_polled:
  obtains b s where "future_reachable leak b" "stage b = Held" "polled 5 b" "sf_task (fut b) = Some ()"
    "env b = env fresh_borrow" "sys_step\<^sup>*\<^sup>* (pool b) s" "count (pushed s) 5 = count (pushed (pool b)) 5"
    "wpcs s 0 = WRun 5" "ran s = {#}" "num_workers s = 1"
proof -
  obtain y where y: "replay first_poll (fresh_pool 1) = Some y" "pushed y = {#5#}" "ran y = {#}"
    using future_runs(1) by (auto simp: future_view_def)
  with future_runs(2) obtain s where s: "replay until_runs y = Some s" "wpcs s 0 = WRun 5"
    "pushed s = {#5#}" "ran s = {#}" "num_workers s = 1"
    by (auto simp: future_view_def)
  let ?b = "fresh_borrow\<lparr>pool := y, fut := \<lparr>sf_runnable = None, sf_task = Some ()\<rparr>\<rparr>"
  have "reachable (fresh_pool 1)" by (rule reach_init) (rule fresh_init, simp)
  then have "future_reachable leak fresh_borrow"
    by (intro reach_init) (simp add: borrow_init_def fresh_borrow_def fresh_pool_def)
  moreover have "borrow_step leak 5 fresh_borrow ?b"
  proof (rule poll_schedules)
    show "sf_poll (Pending :: (unit + unit) poll) (fut fresh_borrow)
      = ([Schedule 5, PollTask ()], \<lparr>sf_runnable = None, sf_task = Some ()\<rparr>, Returned Pending)"
      by (simp add: fresh_borrow_def sf_poll_new)
    show "sys_step (pool fresh_borrow) y"
      using y(1) by (intro sys_next_sound [of "Push 0 5"])
        (simp add: first_poll_def fresh_borrow_def bind_eq_Some_conv del: sys_next.simps)
    show "pushed y = add_mset 5 (pushed (pool fresh_borrow))"
      using y(2) by (simp add: fresh_borrow_def fresh_pool_def)
  qed (simp_all add: fresh_borrow_def)
  ultimately have "future_reachable leak ?b" by (rule reach_step)
  moreover have "polled 5 ?b" using y(2) by (simp add: polled_def)
  ultimately show ?thesis
    using replay_run [OF s(1)] s(2-5) y(2) by (intro that [of ?b s]) (simp_all add: fresh_borrow_def)
qed

lemma future_dropped:
  obtains b where "future_reachable False b" "stage b = Over" "ran (pool b) = {#5#}"
    "num_workers (pool b) = 1"
proof -
  obtain b s where b: "future_reachable False b" "stage b = Held" "polled 5 b" "sf_task (fut b) = Some ()"
    "env b = env fresh_borrow" and run: "sys_step\<^sup>*\<^sup>* (pool b) s"
    "count (pushed s) 5 = count (pushed (pool b)) 5" "wpcs s 0 = WRun 5" "ran s = {#}" "num_workers s = 1"
    by (rule future_polled)
  let ?run = "b\<lparr>pool := s\<rparr>"
  let ?s = "s\<lparr>wpcs := (wpcs s)(0 := WScan 0 SOwn), ran := add_mset 5 (ran s)\<rparr>"
  let ?e = "\<lparr>stopped = True, waker_set = False, token = False\<rparr>"
  have "future_reachable False ?run" using queue_run [OF b(1) run(1,2)] run(4) by simp
  moreover have "borrow_step False 5 ?run (?run\<lparr>pool := ?s, env := ?e\<rparr>)"
  proof (rule task_done)
    show "sys_step (pool ?run) ?s" using worker_finish [of 0 s 5] run(3,5) by simp
    show "\<forall>pc. block_step (pc, env ?run) (pc, ?e)"
    proof
      fix pc
      have "\<not> stopped (env ?run)" by (simp add: b(5) fresh_borrow_def)
      from task_stops [OF this, of pc] show "block_step (pc, env ?run) (pc, ?e)"
        by (simp add: b(5) fresh_borrow_def)
    qed
  qed (use run(4) b(5) in \<open>simp_all add: fresh_borrow_def\<close>)
  ultimately have ended: "future_reachable False (?run\<lparr>pool := ?s, env := ?e\<rparr>)" by (rule reach_step)
  let ?d = "b\<lparr>pool := ?s, env := ?e\<rparr>"
  have "BlockOnCancel () \<in> set (sf_drop (fut b))" using drop_blocks_iff(2) [OF b(3)] b(4) by simp
  then have "borrow_step False 5 ?d (?d\<lparr>stage := Blocking BPoll\<rparr>)"
    using b(2) by (intro drop_waits) simp_all
  moreover have "future_reachable False ?d" using ended by simp
  ultimately have "future_reachable False (?d\<lparr>stage := Blocking BPoll\<rparr>)"
    by (rule reach_step [rotated])
  moreover have "borrow_step False 5 (?d\<lparr>stage := Blocking BPoll\<rparr>)
      ((?d\<lparr>stage := Blocking BPoll\<rparr>)\<lparr>stage := Blocking BDone, env := ?e\<rparr>)"
    by (rule dropper [of _ BPoll]) (simp_all add: poll_ready)
  ultimately have "future_reachable False
      ((?d\<lparr>stage := Blocking BPoll\<rparr>)\<lparr>stage := Blocking BDone, env := ?e\<rparr>)" by (rule reach_step)
  note waited = this
  have "borrow_step False 5 ((?d\<lparr>stage := Blocking BPoll\<rparr>)\<lparr>stage := Blocking BDone, env := ?e\<rparr>)
      ((?d\<lparr>stage := Blocking BPoll\<rparr>)\<lparr>stage := Blocking BDone, env := ?e, stage := Over\<rparr>)"
    by (rule drop_ends) simp
  from reach_step [OF waited this] show ?thesis
    by (rule that) (use run(4,5) in \<open>simp_all add: num_workers_def\<close>)
qed

section \<open>Properties\<close>

text \<open>
  C7. Borrowed data outlives its use: unless the \<open>SpawnFuture\<close> is leaked, from the moment its
  drop has returned, however often it was polled before, no worker runs the closure, no worker
  holds its runnable and no container of the pool does, so none ever will again.
\<close>
theorem closure_never_outlives_its_borrows:
  assumes "reachable_from (borrow_init r) (borrow_step False r) b" and "stage b = Over"
  shows "r \<notin># queue_items (que (pool b))
    \<and> (\<forall>i < num_workers (pool b). r \<notin># in_hand (wpcs (pool b) i) \<and> wpcs (pool b) i \<noteq> WRun r)"
proof -
  have inv: "borrow_inv False r b" by (rule borrowing.reachable_inv [OF assms(1)])
  then have "unpolled r b \<or> count (pushed (pool b)) r = 1 \<and> r \<in># ran (pool b)"
    using assms(2) by (auto simp: borrow_inv_def polled_def unpolled_def)
  then have "count (pushed (pool b)) r \<le> count (ran (pool b)) r"
    by (auto simp: unpolled_def not_in_iff Suc_le_eq)
  moreover have "pushed (pool b) = queue_items (que (pool b)) + held (pool b) + ran (pool b)"
    using inv full_invD(2) [of "pool b"] by (simp add: borrow_inv_def own_inv_def)
  ultimately have none: "count (queue_items (que (pool b))) r = 0" "count (held (pool b)) r = 0"
    by simp_all
  have "r \<notin># in_hand (wpcs (pool b) i)" if "i < num_workers (pool b)" for i
    using none(2) that by (auto simp: held_def count_sum not_in_iff)
  moreover from this have "wpcs (pool b) i \<noteq> WRun r" if "i < num_workers (pool b)" for i
    using that by (metis in_hand.simps union_single_eq_member add_mset_add_single)
  ultimately show ?thesis using none(1) by (simp add: not_in_iff)
qed

theorem closure_never_outlives_its_borrows_witness:
  "\<exists>b :: nat borrow. stage b = Over \<and> ran (pool b) = {#5#} \<and> 5 \<notin># in_hand (wpcs (pool b) 0)"
proof -
  obtain b where b: "future_reachable False b" "stage b = Over" "ran (pool b) = {#5#}"
    "num_workers (pool b) = 1"
    by (rule future_dropped)
  from closure_never_outlives_its_borrows [OF b(1,2)] b(2-4) show ?thesis by auto
qed


end
