(* ===== verification/Pool.thy ===== *)
theory Pool
  imports Queue
begin

text \<open>
  Configuration and start of a pool: \<open>Builder\<close> (\<open>src/builder.rs\<close>), \<open>Threadpool::new\<close>,
  \<open>Default\<close>, \<open>spin_up\<close> and the two counters (\<open>src/lib.rs\<close>), \<open>Data\<close>
  (\<open>src/data.rs\<close>) and \<open>Sentry\<close> (\<open>src/sentry.rs\<close>). Whether the operating system
  grants the \<open>n\<close>-th thread is the parameter \<open>os n\<close>, the number of processors the
  parameter \<open>cpus\<close>. What a worker thread then does is the subject of \<open>Handshake\<close>.
\<close>

section \<open>Shared data\<close>

definition MAX_THREADS :: nat where
  "MAX_THREADS = 512"

text \<open>A thread that was created: its number, the worker index and the attributes it got.\<close>

record worker_thread =
  t_id :: nat
  t_index :: nat
  t_name :: "string option"
  t_stack :: "nat option"

text \<open>\<open>attempts\<close> counts the calls of \<open>std::thread::Builder::spawn\<close> made so far.\<close>

record 'r pool_data =
  dname :: "string option"
  dstack :: "nat option"
  num_threads :: usize
  thread_count :: usize
  dqueue :: "'r queue"
  thread_handles :: "worker_thread list"
  attempts :: nat

definition data_new :: "string option \<Rightarrow> nat option \<Rightarrow> nat \<Rightarrow> 'r queue \<Rightarrow> 'r pool_data" where
  "data_new name stack threads q =
     \<lparr>dname = name, dstack = stack, num_threads = word_of_nat threads, thread_count = 0,
      dqueue = q, thread_handles = [], attempts = 0\<rparr>"

text \<open>\<open>Threadpool::thread_count\<close> and \<open>num_threads\<close>.\<close>

definition threadpool_thread_count :: "'r pool_data \<Rightarrow> usize" where
  "threadpool_thread_count d = thread_count d"

definition threadpool_num_threads :: "'r pool_data \<Rightarrow> usize" where
  "threadpool_num_threads d = num_threads d"

section \<open>Starting a worker thread\<close>

text \<open>
  One call of \<open>spin_up\<close>. The sentry is created before the thread and moved into its
  closure. When the operating system refuses the thread, \<open>spawn\<close> drops the closure and with
  it the active sentry, whose \<open>Drop\<close> calls \<open>spin_up\<close> again, on the same thread, before
  the refused \<open>spawn\<close> returns its error. \<open>None\<close> is a call that never returns.
\<close>

partial_function (option) spin_up ::
  "(nat \<Rightarrow> bool) \<Rightarrow> nat \<Rightarrow> 'r pool_data \<Rightarrow> 'r pool_data option" where
  "spin_up os index d =
     (if os (attempts d)
      then Some (d\<lparr>thread_count := thread_count d + 1, attempts := Suc (attempts d),
                   thread_handles := thread_handles d @
                     [\<lparr>t_id = attempts d, t_index = index, t_name = dname d, t_stack = dstack d\<rparr>]\<rparr>)
      else spin_up os index
             (d\<lparr>thread_count := thread_count d + 1, attempts := Suc (attempts d)\<rparr>))"

record sentry =
  active :: bool
  s_index :: nat

definition sentry_new :: "nat \<Rightarrow> sentry" where
  "sentry_new index = \<lparr>active = True, s_index = index\<rparr>"

definition sentry_cancel :: "sentry \<Rightarrow> sentry" where
  "sentry_cancel s = s\<lparr>active := False\<rparr>"

text \<open>\<open>Drop for Sentry\<close>; \<open>alive\<close> says whether the weak reference can be upgraded.\<close>

definition sentry_drop ::
  "(nat \<Rightarrow> bool) \<Rightarrow> bool \<Rightarrow> sentry \<Rightarrow> 'r pool_data \<Rightarrow> 'r pool_data option" where
  "sentry_drop os alive s d =
     (if \<not> alive then Some d
      else if active s then spin_up os (s_index s) d
      else Some d)"

text \<open>The recursion of \<open>spin_up\<close> is the drop of the sentry in the refused closure.\<close>

lemma spin_up_refused:
  "\<not> os (attempts d) \<Longrightarrow> spin_up os index d =
     sentry_drop os True (sentry_new index)
       (d\<lparr>thread_count := thread_count d + 1, attempts := Suc (attempts d)\<rparr>)"
  by (subst spin_up.simps) (simp add: sentry_drop_def sentry_new_def)

text \<open>The loop over the worker indices in \<open>new\<close> and \<open>build\<close>.\<close>

primrec start_workers ::
  "(nat \<Rightarrow> bool) \<Rightarrow> nat list \<Rightarrow> 'r pool_data \<Rightarrow> 'r pool_data option" where
  "start_workers os [] d = Some d"
| "start_workers os (index # rest) d = Option.bind (spin_up os index d) (start_workers os rest)"

definition threadpool_new :: "(nat \<Rightarrow> bool) \<Rightarrow> nat \<Rightarrow> 'r pool_data option" where
  "threadpool_new os workers =
     Option.bind (clamp workers 1 MAX_THREADS) (\<lambda>w.
     Option.bind (queue_new w None) (\<lambda>q.
     start_workers os [0..<w] (data_new None None w q)))"

definition threadpool_default :: "(nat \<Rightarrow> bool) \<Rightarrow> nat \<Rightarrow> 'r pool_data option" where
  "threadpool_default os cpus = threadpool_new os cpus"

text \<open>On WebAssembly \<open>spin_up\<close> is a stub, and the same loop starts nothing.\<close>

definition spin_up_wasm :: "nat \<Rightarrow> 'r pool_data \<Rightarrow> 'r pool_data" where
  "spin_up_wasm index d = d"

definition threadpool_new_wasm :: "nat \<Rightarrow> 'r pool_data option" where
  "threadpool_new_wasm workers =
     Option.bind (clamp workers 1 MAX_THREADS) (\<lambda>w.
     Option.bind (queue_new w None) (\<lambda>q.
     Some (fold spin_up_wasm [0..<w] (data_new None None w q))))"

section \<open>The builder\<close>

record builder =
  bnum_threads :: "nat option"
  bthread_name :: "string option"
  bstack_size :: "nat option"
  bper_core :: bool
  bshards :: "nat option"

definition builder_new :: builder where
  "builder_new = \<lparr>bnum_threads = None, bthread_name = None, bstack_size = None,
     bper_core = False, bshards = None\<rparr>"

definition worker_threads :: "nat \<Rightarrow> builder \<Rightarrow> builder" where
  "worker_threads n b = b\<lparr>bnum_threads := Some n\<rparr>"

definition thread_name :: "string \<Rightarrow> builder \<Rightarrow> builder" where
  "thread_name name b = b\<lparr>bthread_name := Some name\<rparr>"

definition thread_stack_size :: "nat \<Rightarrow> builder \<Rightarrow> builder" where
  "thread_stack_size bytes b = b\<lparr>bstack_size := Some bytes\<rparr>"

definition thread_per_core :: "bool \<Rightarrow> builder \<Rightarrow> builder" where
  "thread_per_core enabled b = b\<lparr>bper_core := enabled\<rparr>"

definition shards_override :: "nat \<Rightarrow> builder \<Rightarrow> builder" where
  "shards_override n b = b\<lparr>bshards := Some n\<rparr>"

definition build_threads :: "nat \<Rightarrow> builder \<Rightarrow> nat option" where
  "build_threads cpus b =
     (case bnum_threads b of
        Some n \<Rightarrow> clamp n 1 MAX_THREADS
      | None \<Rightarrow> if bper_core b then clamp cpus 1 MAX_THREADS else Some 2)"

definition build :: "(nat \<Rightarrow> bool) \<Rightarrow> nat \<Rightarrow> builder \<Rightarrow> 'r pool_data option" where
  "build os cpus b =
     Option.bind (build_threads cpus b) (\<lambda>w.
     Option.bind (queue_new w (bshards b)) (\<lambda>q.
     start_workers os [0..<w] (data_new (bthread_name b) (bstack_size b) w q)))"

section \<open>How \<open>spin_up\<close> ends\<close>

lemma spin_up_after:
  assumes "os (attempts d + k)" and "\<And>j. j < k \<Longrightarrow> \<not> os (attempts d + j)"
  shows "spin_up os index d = Some (d\<lparr>thread_count := thread_count d + word_of_nat (Suc k),
    attempts := attempts d + Suc k,
    thread_handles := thread_handles d @ [\<lparr>t_id = attempts d + k, t_index = index,
      t_name = dname d, t_stack = dstack d\<rparr>]\<rparr>)"
  using assms
proof (induction k arbitrary: d)
  case 0
  then show ?case by (subst spin_up.simps) simp
next
  case (Suc k)
  let ?d = "d\<lparr>thread_count := thread_count d + 1, attempts := Suc (attempts d)\<rparr>"
  have "\<not> os (attempts d)" using Suc.prems(2) [of 0] by simp
  then have "spin_up os index d = spin_up os index ?d" by (subst spin_up.simps) simp
  also have "\<dots> = Some (?d\<lparr>thread_count := thread_count ?d + word_of_nat (Suc k),
    attempts := attempts ?d + Suc k,
    thread_handles := thread_handles ?d @ [\<lparr>t_id = attempts ?d + k, t_index = index,
      t_name = dname ?d, t_stack = dstack ?d\<rparr>]\<rparr>)"
    using Suc.prems Suc.prems(2) [of "Suc _"] by (intro Suc.IH) auto
  finally show ?case by (simp add: ac_simps)
qed

lemma spin_up_needs_success:
  assumes "spin_up os index d = Some d'"
  shows "\<exists>n \<ge> attempts d. os n"
proof (rule spin_up.raw_induct [where P = "\<lambda>os index d d'. \<exists>n \<ge> attempts d. os n", OF _ assms])
  fix spin and os :: "nat \<Rightarrow> bool" and index and d d' :: "'r pool_data"
  assume ih: "\<And>os index d d'. spin os index d = Some d' \<Longrightarrow> \<exists>n \<ge> attempts d. os n"
    and eq: "(if os (attempts d)
      then Some (d\<lparr>thread_count := thread_count d + 1, attempts := Suc (attempts d),
                   thread_handles := thread_handles d @
                     [\<lparr>t_id = attempts d, t_index = index, t_name = dname d, t_stack = dstack d\<rparr>]\<rparr>)
      else spin os index
             (d\<lparr>thread_count := thread_count d + 1, attempts := Suc (attempts d)\<rparr>)) = Some d'"
  show "\<exists>n \<ge> attempts d. os n"
  proof (cases "os (attempts d)")
    case True
    then show ?thesis by blast
  next
    case False
    with ih eq have "\<exists>n \<ge> Suc (attempts d). os n" by fastforce
    then show ?thesis using Suc_leD by blast
  qed
qed

lemma spin_up_returns:
  assumes "\<exists>n \<ge> attempts d. os n"
  obtains k where "os (attempts d + k)" and "\<And>j. j < k \<Longrightarrow> \<not> os (attempts d + j)"
proof -
  from assms have "\<exists>k. os (attempts d + k)" by (metis le_iff_add)
  then have "os (attempts d + (LEAST k. os (attempts d + k)))" by (rule LeastI_ex)
  moreover have "\<not> os (attempts d + j)" if "j < (LEAST k. os (attempts d + k))" for j
    using that by (rule not_less_Least)
  ultimately show ?thesis using that by blast
qed

section \<open>What the start loop leaves\<close>

text \<open>\<open>thread_count\<close> is the number of attempts; thread numbers are fresh; nothing else moves.\<close>

definition started ::
  "'r pool_data \<Rightarrow> nat list \<Rightarrow> 'r pool_data \<Rightarrow> bool" where
  "started d is d' \<longleftrightarrow>
     map t_index (thread_handles d') = map t_index (thread_handles d) @ is
     \<and> (\<forall>t \<in> set (thread_handles d'). t \<in> set (thread_handles d) \<or>
          attempts d \<le> t_id t \<and> t_id t < attempts d' \<and> t_name t = dname d \<and> t_stack t = dstack d)
     \<and> thread_count d' = thread_count d + word_of_nat (attempts d' - attempts d)
     \<and> attempts d + length is \<le> attempts d'
     \<and> dname d' = dname d \<and> dstack d' = dstack d \<and> num_threads d' = num_threads d
     \<and> dqueue d' = dqueue d"

lemma spin_up_started:
  assumes "spin_up os index d = Some d'"
  shows "started d [index] d'" and "(\<forall>n. os n) \<longrightarrow> attempts d' = Suc (attempts d)"
proof -
  obtain k where k: "os (attempts d + k)" "\<And>j. j < k \<Longrightarrow> \<not> os (attempts d + j)"
    using spin_up_returns [OF spin_up_needs_success [OF assms]] by blast
  from spin_up_after [where os = os, OF k] assms
  have d': "d' = d\<lparr>thread_count := thread_count d + word_of_nat (Suc k),
    attempts := attempts d + Suc k,
    thread_handles := thread_handles d @ [\<lparr>t_id = attempts d + k, t_index = index,
      t_name = dname d, t_stack = dstack d\<rparr>]\<rparr>"
    by simp
  show "started d [index] d'" by (auto simp: started_def d')
  show "(\<forall>n. os n) \<longrightarrow> attempts d' = Suc (attempts d)"
    using k(2) [of 0] by (auto simp: d')
qed

lemma started_trans:
  assumes "started d is d'" and "started d' js d''"
  shows "started d (is @ js) d''"
proof -
  have le: "attempts d \<le> attempts d'" "attempts d' \<le> attempts d''"
    using assms by (simp_all add: started_def)
  then have "attempts d'' - attempts d = (attempts d' - attempts d) + (attempts d'' - attempts d')"
    by simp
  then have "(word_of_nat (attempts d'' - attempts d) :: usize)
      = word_of_nat (attempts d' - attempts d) + word_of_nat (attempts d'' - attempts d')"
    by (simp only: of_nat_add)
  then have "thread_count d'' = thread_count d + word_of_nat (attempts d'' - attempts d)"
    using assms by (simp add: started_def add.assoc)
  moreover have "t \<in> set (thread_handles d) \<or> attempts d \<le> t_id t \<and> t_id t < attempts d''
      \<and> t_name t = dname d \<and> t_stack t = dstack d" if "t \<in> set (thread_handles d'')" for t
    using assms that le unfolding started_def by (metis le_trans order_less_le_trans)
  ultimately show ?thesis
    using assms by (simp add: started_def)
qed

lemma started_refl: "started d [] d"
  by (simp add: started_def)

lemma start_workers_started:
  assumes "start_workers os is d = Some d'"
  shows "started d is d' \<and> ((\<forall>n. os n) \<longrightarrow> attempts d' = attempts d + length is)"
  using assms
proof (induction "is" arbitrary: d)
  case Nil
  then show ?case by (simp add: started_refl)
next
  case (Cons i js)
  then obtain d1 where d1: "spin_up os i d = Some d1" "start_workers os js d1 = Some d'"
    by (auto simp: bind_eq_Some_conv)
  from Cons.IH [OF d1(2)] spin_up_started [OF d1(1)] started_trans [of d "[i]" d1 js d']
  show ?case by simp
qed

lemma start_workers_returns:
  assumes "\<forall>m. \<exists>n \<ge> m. os n"
  shows "\<exists>d'. start_workers os is d = Some d'"
proof (induction "is" arbitrary: d)
  case Nil
  then show ?case by simp
next
  case (Cons i js)
  obtain k where "os (attempts d + k)" "\<And>j. j < k \<Longrightarrow> \<not> os (attempts d + j)"
    using assms spin_up_returns [of d os] by blast
  with spin_up_after [of os d k i] obtain d1 where "spin_up os i d = Some d1" by blast
  with Cons.IH show ?case by simp
qed

lemma clamp_max_threads: "clamp n 1 MAX_THREADS = Some (max 1 (min n 512))"
  by (auto simp: clamp_def MAX_THREADS_def)

lemma build_threads_range:
  obtains w where "build_threads cpus b = Some w" and "1 \<le> w" and "w \<le> 512"
  using that [of "max 1 (min (the (bnum_threads b)) 512)"] that [of "max 1 (min cpus 512)"] that [of 2]
  by (cases "bnum_threads b"; cases "bper_core b")
    (simp_all add: build_threads_def clamp_max_threads del: One_nat_def)

lemma queue_new_some:
  assumes "1 \<le> nw" and "nw \<le> 512"
  obtains q where "queue_new nw ov = Some q"
proof -
  have "\<exists>n. num_shards nw ov = Some n"
    using num_shards_default [OF assms] num_shards_override [OF assms] by (cases ov) blast+
  then obtain n where "num_shards nw ov = Some n" ..
  then show ?thesis using that by (simp add: queue_new_def)
qed

text \<open>
  \<open>Threadpool::new(n)\<close> is \<open>Builder::new().worker_threads(n).build()\<close>, and the default
  pool is the builder's pool with one thread per core.
\<close>
lemma new_agrees_with_builder:
  "threadpool_new os n = build os cpus (worker_threads n builder_new)
   \<and> threadpool_default os cpus = build os cpus (thread_per_core True builder_new)"
  by (simp add: threadpool_new_def threadpool_default_def build_def build_threads_def
      worker_threads_def thread_per_core_def builder_new_def)

text \<open>A WebAssembly pool reports its configured size but has no thread that could run a job.\<close>

lemma wasm_pool_has_no_workers:
  "\<exists>d. threadpool_new_wasm n = Some (d :: 'r pool_data) \<and> thread_handles d = []
    \<and> threadpool_thread_count d = 0 \<and> threadpool_num_threads d = word_of_nat (max 1 (min n 512))"
proof -
  have w: "clamp n 1 MAX_THREADS = Some (max 1 (min n 512))"
    by (auto simp: clamp_def MAX_THREADS_def)
  have "1 \<le> max 1 (min n 512)" "max 1 (min n 512) \<le> (512 :: nat)" by simp_all
  from queue_new_some [OF this] obtain q :: "'r queue" where "queue_new (max 1 (min n 512)) None = Some q" .
  moreover have "fold spin_up_wasm xs d = d" for xs and d :: "'r pool_data"
    by (induction xs) (simp_all add: spin_up_wasm_def)
  ultimately show ?thesis
    using w by (simp add: threadpool_new_wasm_def data_new_def threadpool_thread_count_def
        threadpool_num_threads_def)
qed

section \<open>Properties\<close>

text \<open>
  C31. A built pool has all its workers: whatever the builder holds, \<open>build\<close> returns as soon
  as the operating system grants threads again and again; the pool has between 1 and 512
  workers (the explicit count clamped, else one per core clamped, else two), one thread
  handle per index in order, each with the configured name and stack size, and a queue with a
  slot for each. \<open>num_threads\<close> is the number of workers; \<open>thread_count\<close> is the number of
  creation attempts, which is the same when none is refused.
\<close>
theorem build_starts_all_workers:
  assumes "\<forall>m. \<exists>n \<ge> m. os n"
  shows "\<exists>w d. build_threads cpus b = Some w \<and> build os cpus b = Some (d :: 'r pool_data)
    \<and> w = (case bnum_threads b of Some n \<Rightarrow> max 1 (min n 512)
           | None \<Rightarrow> if bper_core b then max 1 (min cpus 512) else 2)
    \<and> map t_index (thread_handles d) = [0..<w]
    \<and> (\<forall>t \<in> set (thread_handles d). t_name t = bthread_name b \<and> t_stack t = bstack_size b)
    \<and> queue_new w (bshards b) = Some (dqueue d) \<and> length (stealers (dqueue d)) = w
    \<and> threadpool_num_threads d = word_of_nat w
    \<and> threadpool_thread_count d = word_of_nat (attempts d)
    \<and> w \<le> attempts d \<and> ((\<forall>n. os n) \<longrightarrow> threadpool_thread_count d = word_of_nat w)"
proof -
  obtain w where w: "build_threads cpus b = Some w" "1 \<le> w" "w \<le> 512"
    by (rule build_threads_range)
  obtain q :: "'r queue" where q: "queue_new w (bshards b) = Some q"
    using queue_new_some [OF w(2,3)] .
  let ?d0 = "data_new (bthread_name b) (bstack_size b) w q"
  obtain d where d: "start_workers os [0..<w] ?d0 = Some d"
    using start_workers_returns [OF assms] by blast
  have st: "started ?d0 [0..<w] d" "(\<forall>n. os n) \<longrightarrow> attempts d = w"
    using start_workers_started [OF d] by (simp_all add: data_new_def)
  have choice: "w = (case bnum_threads b of Some n \<Rightarrow> max 1 (min n 512)
           | None \<Rightarrow> if bper_core b then max 1 (min cpus 512) else 2)"
    using w(1)
    by (auto simp: build_threads_def clamp_max_threads simp del: One_nat_def
        split: option.splits if_splits)
  have "build os cpus b = Some d" using d by (simp add: build_def w(1) q)
  moreover have "length (stealers (dqueue d)) = w" "queue_new w (bshards b) = Some (dqueue d)"
    using wf_queue_new(2) [OF w(2,3) q] st(1) q by (simp_all add: started_def data_new_def)
  moreover have "map t_index (thread_handles d) = [0..<w]" "num_threads d = word_of_nat w"
    "thread_count d = word_of_nat (attempts d)" "w \<le> attempts d"
    "\<forall>t \<in> set (thread_handles d). t_name t = bthread_name b \<and> t_stack t = bstack_size b"
    using st(1) by (simp_all add: started_def data_new_def)
  moreover have "(\<forall>n. os n) \<longrightarrow> thread_count d = word_of_nat w"
    using st(2) calculation by simp
  ultimately show ?thesis
    unfolding threadpool_num_threads_def threadpool_thread_count_def using w(1) choice by blast
qed

theorem build_starts_all_workers_witness:
  "\<exists>d. build (\<lambda>n. 2 \<le> n) 4 (thread_name ''w'' (worker_threads 600 builder_new))
      = Some (d :: nat pool_data)
    \<and> map t_index (thread_handles d) = [0..<512] \<and> threadpool_num_threads d = 512
    \<and> length (stealers (dqueue d)) = 512 \<and> (\<exists>n. threadpool_thread_count d = word_of_nat n \<and> 512 \<le> n)"
proof -
  have "\<forall>m. \<exists>n \<ge> m. (2::nat) \<le> n" by (metis max.cobounded1 max.cobounded2)
  from build_starts_all_workers [OF this, of 4 "thread_name ''w'' (worker_threads 600 builder_new)"]
  show ?thesis
    by (auto simp: thread_name_def worker_threads_def builder_new_def)
qed

text \<open>
  C32. \<open>spin_up\<close> does not give up on a refused thread: it returns if and only if some later
  attempt is granted, and then it has added one handle and, to \<open>thread_count\<close>, one for each
  refusal and one for the thread, because the sentry inside the refused closure spins up a replacement.
  When the operating system has no more threads to give, the recursion never ends.
\<close>
theorem spin_up_retries_until_granted:
  "(\<exists>n \<ge> attempts d. os n) \<longleftrightarrow>
     (\<exists>d' k. spin_up os index d = Some d' \<and> os (attempts d + k)
       \<and> thread_count d' = thread_count d + word_of_nat (Suc k)
       \<and> length (thread_handles d') = Suc (length (thread_handles d)))"
proof
  assume "\<exists>n \<ge> attempts d. os n"
  then obtain k where k: "os (attempts d + k)" "\<And>j. j < k \<Longrightarrow> \<not> os (attempts d + j)"
    using spin_up_returns [of d os] by blast
  from spin_up_after [where os = os, OF k] k(1) show "\<exists>d' k. spin_up os index d = Some d'
      \<and> os (attempts d + k) \<and> thread_count d' = thread_count d + word_of_nat (Suc k)
      \<and> length (thread_handles d') = Suc (length (thread_handles d))"
    by (intro exI [of _ k] exI) (auto simp del: of_nat_Suc)
qed (auto intro: spin_up_needs_success)

end
