(* ===== verification/Lifecycle.thy ===== *)
theory Lifecycle
  imports Pool
begin

text \<open>
  The population of worker threads from \<open>build\<close> to the end of \<open>Drop for Threadpool\<close>
  (\<open>src/lib.rs\<close>): clean exits, respawns by the sentry, and the four stages of the drop. A
  respawn, with its refused attempts, is one step.
\<close>

section \<open>Threads and the drop\<close>

datatype drop_pc =
    DLive
  | DDrain
  | DJoin "worker_thread list"
  | DDone

text \<open>
  \<open>live\<close> are the threads that have not ended. \<open>drained_at\<close> records how many attempts had
  been made when the drop took the handles.
\<close>

record 'r life =
  ldata :: "'r pool_data"
  live :: "worker_thread set"
  dropping :: drop_pc
  drained_at :: nat

text \<open>
  A worker that leaves its loop cancels its sentry; one that unwinds drops it active. The weak
  reference can be upgraded until the drop is over. The effect of \<open>Queue::shutdown\<close> that
  matters here is the flag, without which no worker leaves its loop.
\<close>

inductive life_step :: "(nat \<Rightarrow> bool) \<Rightarrow> 'r life \<Rightarrow> 'r life \<Rightarrow> bool" for os where
  worker_exit:
    "t \<in> live s \<Longrightarrow> shutdown_flag (dqueue (ldata s)) \<Longrightarrow>
     sentry_drop os (dropping s \<noteq> DDone) (sentry_cancel (sentry_new (t_index t))) (ldata s) = Some d \<Longrightarrow>
     life_step os s (s\<lparr>ldata := d, live := live s - {t}\<rparr>)"
| worker_unwound:
    "t \<in> live s \<Longrightarrow>
     sentry_drop os (dropping s \<noteq> DDone) (sentry_new (t_index t)) (ldata s) = Some d \<Longrightarrow>
     life_step os s (s\<lparr>ldata := d,
       live := live s - {t} \<union> (set (thread_handles d) - set (thread_handles (ldata s)))\<rparr>)"
| drop_shutdown:
    "dropping s = DLive \<Longrightarrow>
     life_step os s (s\<lparr>ldata := (ldata s)\<lparr>dqueue := (dqueue (ldata s))\<lparr>shutdown_flag := True\<rparr>\<rparr>,
       dropping := DDrain\<rparr>)"
| drop_drain:
    "dropping s = DDrain \<Longrightarrow>
     life_step os s (s\<lparr>ldata := (ldata s)\<lparr>thread_handles := []\<rparr>,
       dropping := DJoin (thread_handles (ldata s)), drained_at := attempts (ldata s)\<rparr>)"
| drop_join:
    "dropping s = DJoin (h # hs) \<Longrightarrow> h \<notin> live s \<Longrightarrow>
     life_step os s (s\<lparr>dropping := DJoin hs\<rparr>)"
| drop_reset:
    "dropping s = DJoin [] \<Longrightarrow>
     life_step os s (s\<lparr>ldata := (ldata s)\<lparr>thread_count := 0\<rparr>, dropping := DDone\<rparr>)"

definition life_init :: "(nat \<Rightarrow> bool) \<Rightarrow> 'r life \<Rightarrow> bool" where
  "life_init os s \<longleftrightarrow> (\<exists>cpus b. build os cpus b = Some (ldata s))
     \<and> live s = set (thread_handles (ldata s)) \<and> dropping s = DLive \<and> drained_at s = 0"

definition pool_workers :: "'r life \<Rightarrow> nat" where
  "pool_workers s = length (stealers (dqueue (ldata s)))"

section \<open>The invariant\<close>

fun joining :: "drop_pc \<Rightarrow> worker_thread list \<Rightarrow> worker_thread set" where
  "joining (DJoin hs) handles = set hs"
| "joining DDone handles = {}"
| "joining _ handles = set handles"

definition before_drain :: "drop_pc \<Rightarrow> bool" where
  "before_drain k \<longleftrightarrow> k = DLive \<or> k = DDrain"

definition life_inv :: "'r life \<Rightarrow> bool" where
  "life_inv s \<longleftrightarrow>
     (\<forall>t \<in> live s \<union> set (thread_handles (ldata s)). t_id t < attempts (ldata s))
     \<and> drained_at s \<le> attempts (ldata s)
     \<and> (\<forall>t \<in> live s. before_drain (dropping s) \<or> t_id t < drained_at s \<longrightarrow>
          t \<in> joining (dropping s) (thread_handles (ldata s)))
     \<and> inj_on t_index (live s) \<and> t_index ` live s \<subseteq> {..<pool_workers s}
     \<and> (\<not> shutdown_flag (dqueue (ldata s)) \<longrightarrow> dropping s = DLive
          \<and> t_index ` live s = {..<pool_workers s})
     \<and> thread_count (ldata s) = (if dropping s = DDone then 0 else word_of_nat (attempts (ldata s)))"

text \<open>A respawn adds one thread, with the index of the one that unwound and a fresh number.\<close>

lemma respawn_adds_one:
  assumes "spin_up os index d = Some d'"
    and "\<forall>t \<in> set (thread_handles d). t_id t < attempts d"
  shows "\<exists>t. thread_handles d' = thread_handles d @ [t] \<and> t \<notin> set (thread_handles d)
    \<and> t_index t = index \<and> attempts d \<le> t_id t \<and> t_id t < attempts d'
    \<and> attempts d \<le> attempts d' \<and> dqueue d' = dqueue d
    \<and> thread_count d' = thread_count d + word_of_nat (attempts d' - attempts d)"
proof -
  obtain k where k: "os (attempts d + k)" "\<And>j. j < k \<Longrightarrow> \<not> os (attempts d + j)"
    using spin_up_returns [OF spin_up_needs_success [OF assms(1)]] by blast
  from spin_up_after [where os = os, OF k] assms(1)
  have d': "d' = d\<lparr>thread_count := thread_count d + word_of_nat (Suc k),
    attempts := attempts d + Suc k,
    thread_handles := thread_handles d @ [\<lparr>t_id = attempts d + k, t_index = index,
      t_name = dname d, t_stack = dstack d\<rparr>]\<rparr>"
    by simp
  then show ?thesis using assms(2) by auto
qed

lemma inj_on_replace:
  assumes "inj_on f A" and "t \<in> A" and "f u = f t"
  shows "inj_on f (insert u (A - {t}))" and "f ` insert u (A - {t}) = f ` A"
  using assms by (auto simp: inj_on_def)

lemma life_unwound:
  assumes inv: "life_inv s" and t: "t \<in> live s"
    and drop: "sentry_drop os (dropping s \<noteq> DDone) (sentry_new (t_index t)) (ldata s) = Some d"
    and s': "s' = s\<lparr>ldata := d,
       live := live s - {t} \<union> (set (thread_handles d) - set (thread_handles (ldata s)))\<rparr>"
  shows "life_inv s'"
proof (cases "dropping s = DDone")
  case True
  with drop have d: "d = ldata s" by (simp add: sentry_drop_def)
  have "shutdown_flag (dqueue (ldata s))" using inv True by (auto simp: life_inv_def)
  moreover have "inj_on t_index (live s - {t})"
    using inv by (auto simp: life_inv_def intro: inj_on_subset)
  ultimately show ?thesis
    using inv True by (auto simp: life_inv_def s' d pool_workers_def)
next
  case False
  with drop have "spin_up os (t_index t) (ldata s) = Some d"
    by (simp add: sentry_drop_def sentry_new_def)
  moreover have ids: "\<forall>t \<in> live s \<union> set (thread_handles (ldata s)). t_id t < attempts (ldata s)"
    using inv by (simp add: life_inv_def)
  ultimately obtain u where u: "thread_handles d = thread_handles (ldata s) @ [u]"
    "u \<notin> set (thread_handles (ldata s))" "t_index u = t_index t" "attempts (ldata s) \<le> t_id u"
    "t_id u < attempts d" "attempts (ldata s) \<le> attempts d" "dqueue d = dqueue (ldata s)"
    "thread_count d = thread_count (ldata s) + word_of_nat (attempts d - attempts (ldata s))"
    using respawn_adds_one [of os "t_index t" "ldata s" d] by blast
  have live: "live s' = insert u (live s - {t})" using u(1,2) by (auto simp: s')
  have data: "ldata s' = d" "dropping s' = dropping s" "drained_at s' = drained_at s"
    "pool_workers s' = pool_workers s"
    by (simp_all add: s' pool_workers_def u(7))
  have "inj_on t_index (live s)" using inv by (simp add: life_inv_def)
  then have "inj_on t_index (live s')" "t_index ` live s' = t_index ` live s"
    unfolding live using t u(3) by (rule inj_on_replace)+
  moreover have "thread_count d = word_of_nat (attempts d)"
    using inv False u(6,8) by (simp add: life_inv_def flip: of_nat_add)
  moreover have "t' \<in> joining (dropping s) (thread_handles d)"
    if "t' \<in> live s'" "before_drain (dropping s) \<or> t_id t' < drained_at s" for t'
  proof (cases "t' = u")
    case True
    with that(2) u(4) inv have "before_drain (dropping s)" by (auto simp: life_inv_def)
    with True u(1) show ?thesis by (auto simp: before_drain_def)
  next
    case False
    with that inv have "t' \<in> joining (dropping s) (thread_handles (ldata s))"
      by (auto simp: life_inv_def live)
    then show ?thesis using u(1) by (cases "dropping s") auto
  qed
  moreover have "t_id t' < attempts d" if "t' \<in> live s' \<union> set (thread_handles d)" for t'
  proof (cases "t' = u")
    case False
    with that have "t' \<in> live s \<union> set (thread_handles (ldata s))" by (auto simp: live u(1))
    with ids u(6) show ?thesis by (meson order_less_le_trans)
  qed (simp add: u(5))
  ultimately show ?thesis
    using inv False u(6,7) unfolding life_inv_def data by auto
qed

lemma life_exit:
  assumes inv: "life_inv s" and t: "t \<in> live s" and flag: "shutdown_flag (dqueue (ldata s))"
    and drop: "sentry_drop os al (sentry_cancel (sentry_new (t_index t))) (ldata s) = Some d"
    and s': "s' = s\<lparr>ldata := d, live := live s - {t}\<rparr>"
  shows "life_inv s'"
proof -
  have d: "d = ldata s"
    using drop by (simp add: sentry_drop_def sentry_cancel_def sentry_new_def split: if_splits)
  have "inj_on t_index (live s - {t})"
    using inv by (auto simp: life_inv_def intro: inj_on_subset)
  with inv flag show ?thesis
    by (auto simp: life_inv_def s' d pool_workers_def)
qed

lemma life_inv_step:
  assumes inv: "life_inv s" and step: "life_step os s s'"
  shows "life_inv s'"
  using step
proof cases
  case (worker_exit t d)
  with life_exit [OF inv] show ?thesis by blast
next
  case (worker_unwound t d)
  with life_unwound [OF inv] show ?thesis by blast
next
  case drop_shutdown
  then show ?thesis
    using inv by (auto simp: life_inv_def pool_workers_def before_drain_def)
next
  case drop_drain
  then show ?thesis
    using inv by (auto simp: life_inv_def pool_workers_def before_drain_def)
next
  case (drop_join h hs)
  then show ?thesis
    using inv by (auto simp: life_inv_def pool_workers_def before_drain_def)
next
  case drop_reset
  then show ?thesis
    using inv by (auto simp: life_inv_def pool_workers_def before_drain_def)
qed

lemma build_started:
  assumes "build os cpus b = Some (d :: 'r pool_data)"
  obtains w q where "queue_new w (bshards b) = Some q" and "1 \<le> w" and "w \<le> 512"
    and "started (data_new (bthread_name b) (bstack_size b) w q) [0..<w] d"
proof -
  obtain w where w: "build_threads cpus b = Some w" "1 \<le> w" "w \<le> 512"
    by (rule build_threads_range)
  obtain q :: "'r queue" where q: "queue_new w (bshards b) = Some q"
    using queue_new_some [OF w(2,3)] .
  with assms w(1) have "start_workers os [0..<w] (data_new (bthread_name b) (bstack_size b) w q) = Some d"
    by (simp add: build_def)
  from start_workers_started [OF this] that [OF q w(2,3)] show ?thesis by blast
qed

lemma life_inv_init:
  assumes "life_init os s"
  shows "life_inv s"
proof -
  from assms obtain cpus b where "build os cpus b = Some (ldata s)"
    by (auto simp: life_init_def)
  then obtain w q where q: "queue_new w (bshards b) = Some q" "1 \<le> w" "w \<le> 512"
    and st: "started (data_new (bthread_name b) (bstack_size b) w q) [0..<w] (ldata s)"
    by (rule build_started)
  have map: "map t_index (thread_handles (ldata s)) = [0..<w]"
    using st by (simp add: started_def data_new_def)
  then have "distinct (map t_index (thread_handles (ldata s)))" by simp
  then have inj: "inj_on t_index (set (thread_handles (ldata s)))" by (simp add: distinct_map)
  have img: "t_index ` set (thread_handles (ldata s)) = {..<w}"
    using arg_cong [OF map, of set] by (simp add: atLeast_upt)
  have pw: "pool_workers s = w"
    using wf_queue_new(2) [OF q(2,3,1)] st by (simp add: pool_workers_def started_def data_new_def)
  have "\<not> shutdown_flag (dqueue (ldata s))"
    using queue_new_fields(6) [OF q(1)] st by (simp add: started_def data_new_def)
  moreover have "thread_count (ldata s) = word_of_nat (attempts (ldata s))"
    "\<forall>t \<in> set (thread_handles (ldata s)). t_id t < attempts (ldata s)"
    using st by (auto simp: started_def data_new_def)
  ultimately show ?thesis
    using assms inj img pw by (simp add: life_inv_def life_init_def before_drain_def)
qed

interpretation life_cycle: invariant_system "life_init os" "life_step os" life_inv
  by unfold_locales (erule life_inv_init, erule life_inv_step)

section \<open>A concrete life\<close>

text \<open>
  A pool of one worker on a system that grants every thread. While the pool is being dropped,
  its worker unwinds after the handles have been taken.
\<close>

definition solo_thread :: "nat \<Rightarrow> worker_thread" where
  "solo_thread n = \<lparr>t_id = n, t_index = 0, t_name = None, t_stack = None\<rparr>"

definition solo_queue :: "bool \<Rightarrow> nat queue" where
  "solo_queue flag = \<lparr>injectors = [[]], stealers = [None], shard_mask = 0, park = None,
     waiters = {}, parked = 0, notified = 0, shutdown_flag = flag, deques = (\<lambda>_. []),
     next_addr = 0\<rparr>"

definition solo_life ::
  "bool \<Rightarrow> usize \<Rightarrow> nat list \<Rightarrow> nat \<Rightarrow> nat \<Rightarrow> drop_pc \<Rightarrow> nat \<Rightarrow> nat life" where
  "solo_life flag cnt hs att alive k at =
     \<lparr>ldata = \<lparr>dname = None, dstack = None, num_threads = 1, thread_count = cnt,
        dqueue = solo_queue flag, thread_handles = map solo_thread hs, attempts = att\<rparr>,
      live = {solo_thread alive}, dropping = k, drained_at = at\<rparr>"

abbreviation solo_reachable :: "nat life \<Rightarrow> bool" where
  "solo_reachable \<equiv> reachable_from (life_init (\<lambda>_. True)) (life_step (\<lambda>_. True))"

lemma solo_life_init: "life_init (\<lambda>_. True) (solo_life False 1 [0] 1 0 DLive 0)"
proof -
  have "num_shards 1 None = Some 1"
    by (simp add: num_shards_def next_power_of_two_def power_from.simps clamp_def MAX_SHARDS_def)
  then have q: "queue_new 1 None = Some (solo_queue False)"
    by (simp add: queue_new_def solo_queue_def)
  have "build (\<lambda>_. True) 1 (worker_threads 1 builder_new)
      = Some (ldata (solo_life False 1 [0] 1 0 DLive 0))"
    using q by (simp add: build_def build_threads_def worker_threads_def builder_new_def clamp_def
        MAX_THREADS_def data_new_def spin_up.simps solo_life_def solo_thread_def)
  then show "life_init (\<lambda>_. True) (solo_life False 1 [0] 1 0 DLive 0)"
    unfolding life_init_def by (intro conjI exI) (assumption, simp_all add: solo_life_def)
qed

lemma solo_init: "solo_reachable (solo_life False 1 [0] 1 0 DLive 0)"
  by (rule reach_init) (rule solo_life_init)

lemma solo_step:
  "solo_reachable s \<Longrightarrow> life_step (\<lambda>_. True) s s' \<Longrightarrow> solo_reachable s'"
  by (rule reach_step)

lemma solo_unwinds:
  assumes "k \<noteq> DDone" and "\<forall>h \<in> set hs. h < att"
  shows "life_step (\<lambda>_. True) (solo_life f n hs att a k at)
     (solo_life f (n + 1) (hs @ [att]) (att + 1) att k at)"
proof -
  let ?s = "solo_life f n hs att a k at"
  have drop: "sentry_drop (\<lambda>_. True) (dropping ?s \<noteq> DDone) (sentry_new (t_index (solo_thread a))) (ldata ?s)
      = Some (ldata (solo_life f (n + 1) (hs @ [att]) (att + 1) att k at))"
    using assms(1)
    by (simp add: sentry_drop_def sentry_new_def spin_up.simps solo_life_def solo_thread_def)
  have "solo_thread att \<notin> solo_thread ` set hs"
    using assms(2) by (auto simp: solo_thread_def)
  then have "insert (solo_thread att) (solo_thread ` set hs) - solo_thread ` set hs = {solo_thread att}"
    by (simp add: insert_Diff_if)
  with worker_unwound [OF _ drop] show ?thesis by (simp add: solo_life_def)
qed

lemma solo_draining: "solo_reachable (solo_life True 1 [0] 1 0 DDrain 0)"
  using solo_step [OF solo_init drop_shutdown] by (simp add: solo_life_def solo_queue_def)

lemma solo_done: "solo_reachable (solo_life True 0 [1] 2 1 DDone 1)"
proof -
  from solo_step [OF solo_draining drop_drain]
  have "solo_reachable (solo_life True 1 [] 1 0 (DJoin [solo_thread 0]) 1)"
    by (simp add: solo_life_def)
  from solo_step [OF this solo_unwinds]
  have "solo_reachable (solo_life True 2 [1] 2 1 (DJoin [solo_thread 0]) 1)"
    by (simp add: numeral_2_eq_2)
  from solo_step [OF this drop_join]
  have "solo_reachable (solo_life True 2 [1] 2 1 (DJoin []) 1)"
    by (simp add: solo_life_def solo_thread_def)
  from solo_step [OF this drop_reset] show ?thesis
    by (simp add: solo_life_def)
qed

section \<open>Properties\<close>



text \<open>
  The drop joins the workers: when \<open>Drop for Threadpool\<close> is over, every thread that
  existed when it took the handles has ended; the only threads that may still run are
  replacements started after that. Until then \<open>thread_count\<close> is the number of creation
  attempts ever made; afterwards it is zero.
\<close>
theorem drop_joins_every_worker:
  assumes "reachable_from (life_init os) (life_step os) s"
  shows "(dropping s = DDone \<longrightarrow> thread_count (ldata s) = 0
      \<and> (\<forall>t \<in> live s. drained_at s \<le> t_id t))
    \<and> (dropping s \<noteq> DDone \<longrightarrow> thread_count (ldata s) = word_of_nat (attempts (ldata s)))"
proof -
  have inv: "life_inv s" by (rule life_cycle.reachable_inv [OF assms])
  have "drained_at s \<le> t_id t" if "dropping s = DDone" "t \<in> live s" for t
    using inv that by (fastforce simp: life_inv_def)
  with inv show ?thesis by (simp add: life_inv_def)
qed

theorem drop_joins_every_worker_witness:
  "thread_count (ldata (solo_life True 0 [1] 2 1 DDone 1)) = 0
    \<and> live (solo_life True 0 [1] 2 1 DDone 1) = {solo_thread 1} \<and> 1 \<le> t_id (solo_thread 1)"
  using drop_joins_every_worker [OF solo_done] by (simp add: solo_life_def)

section \<open>The drop returns\<close>

text \<open>A step once the drop has begun, without a respawn.\<close>

definition calm_life :: "(nat \<Rightarrow> bool) \<Rightarrow> 'r life \<Rightarrow> 'r life \<Rightarrow> bool" where
  "calm_life os s s' \<longleftrightarrow> life_step os s s' \<and> dropping s \<noteq> DLive
     \<and> attempts (ldata s') = attempts (ldata s)"

definition drop_settled :: "'r life \<Rightarrow> bool" where
  "drop_settled s \<longleftrightarrow> dropping s = DLive \<or> dropping s = DDone \<and> live s = {}"

fun drop_left :: "drop_pc \<Rightarrow> nat \<times> nat" where
  "drop_left DLive = (3, 0)"
| "drop_left DDrain = (2, 0)"
| "drop_left (DJoin hs) = (1, length hs)"
| "drop_left DDone = (0, 0)"

definition life_rank :: "'r life \<Rightarrow> (nat \<times> nat) \<times> nat" where
  "life_rank s = (drop_left (dropping s), card (live s))"

definition life_below :: "(((nat \<times> nat) \<times> nat) \<times> ((nat \<times> nat) \<times> nat)) set" where
  "life_below = (less_than <*lex*> less_than) <*lex*> less_than"

lemma finite_live:
  assumes "life_inv s"
  shows "finite (live s)"
proof (rule finite_imageD)
  have "t_index ` live s \<subseteq> {..<pool_workers s}" using assms by (simp add: life_inv_def)
  then show "finite (t_index ` live s)" by (rule finite_subset) simp
  show "inj_on t_index (live s)" using assms by (simp add: life_inv_def)
qed

lemma cancelled_sentry: "sentry_drop os alive (sentry_cancel (sentry_new i)) d = Some d"
  by (simp add: sentry_drop_def sentry_cancel_def sentry_new_def)

lemma active_sentry_attempts:
  assumes "sentry_drop os alive (sentry_new i) d = Some d'" and "attempts d' = attempts d"
  shows "d' = d"
proof (rule ccontr)
  assume "d' \<noteq> d"
  with assms(1) have "spin_up os i d = Some d'"
    by (simp add: sentry_drop_def sentry_new_def split: if_splits)
  from spin_up_started(1) [OF this] assms(2) show False by (simp add: started_def)
qed

lemma calm_life_rank:
  assumes inv: "life_inv s" and calm: "calm_life os s s'"
  shows "(life_rank s', life_rank s) \<in> life_below"
proof -
  have less: "card (live s - {t}) < card (live s)" if "t \<in> live s" for t
    using that finite_live [OF inv] by (rule card_Diff1_less [rotated])
  have step: "life_step os s s'" and same: "attempts (ldata s') = attempts (ldata s)"
    and begun: "dropping s \<noteq> DLive"
    using calm by (simp_all add: calm_life_def)
  show ?thesis
    using step
  proof cases
    case (worker_exit t d)
    with less [of t] show ?thesis by (simp add: life_rank_def life_below_def)
  next
    case (worker_unwound t d)
    then have "d = ldata s" using active_sentry_attempts same by (metis life.select_convs(1) life.surjective life.update_convs(1,2))
    with worker_unwound less [of t] show ?thesis by (simp add: life_rank_def life_below_def)
  qed (use begun in \<open>simp_all add: life_rank_def life_below_def\<close>)
qed

lemma drop_never_stuck:
  assumes inv: "life_inv s" and going: "\<not> drop_settled s"
  shows "\<exists>s'. calm_life os s s'"
proof (cases "live s = {}")
  case False
  then obtain t where t: "t \<in> live s" by blast
  have "shutdown_flag (dqueue (ldata s))"
    using inv going by (auto simp: life_inv_def drop_settled_def)
  from worker_exit [OF t this cancelled_sentry, of os] going show ?thesis
    by (auto simp: calm_life_def drop_settled_def)
next
  case True
  show ?thesis
  proof (cases "dropping s")
    case DLive
    with going show ?thesis by (simp add: drop_settled_def)
  next
    case DDrain
    with drop_drain [OF DDrain, of os] show ?thesis by (auto simp: calm_life_def)
  next
    case (DJoin hs)
    show ?thesis
    proof (cases hs)
      case Nil
      with DJoin drop_reset [of s os] show ?thesis by (auto simp: calm_life_def)
    next
      case (Cons h hs')
      with DJoin True drop_join [of s h hs' os] show ?thesis by (auto simp: calm_life_def)
    qed
  next
    case DDone
    with going True show ?thesis by (simp add: drop_settled_def)
  qed
qed

interpretation drop_progress: progress_system "life_init os" "life_step os" life_inv "calm_life os"
  drop_settled life_rank life_below for os
proof unfold_locales
  show "life_step os s t" if "calm_life os s t" for s t :: "'a life"
    using that by (simp add: calm_life_def)
  show "wf life_below" by (auto simp: life_below_def)
  show "(life_rank t, life_rank s) \<in> life_below" if "life_inv s" "calm_life os s t" for s t :: "'a life"
    using that by (rule calm_life_rank)
  show "\<exists>t. calm_life os s t" if "life_inv s" "\<not> drop_settled s" for s :: "'a life"
    using that by (rule drop_never_stuck)
qed

text \<open>
  \<open>Drop for Threadpool\<close> returns: once it has begun, and as long as no further worker
  unwinds into a respawn, every run ends with the drop over, every worker thread of the pool
  ended, and the counter back at zero. Nothing the joins wait for can be missed: a worker may
  leave at any stage, before or after its handle was taken.
\<close>
theorem drop_returns:
  assumes "reachable_from (life_init os) (life_step os) s" and "dropping s \<noteq> DLive"
  shows "inevitable (calm_life os)
    (\<lambda>s'. dropping s' = DDone \<and> live s' = {} \<and> thread_count (ldata s') = 0) s"
proof (rule inevitable_conseq [OF drop_progress.inevitable_goal [OF assms(1)],
      where I = "\<lambda>s'. life_inv s' \<and> dropping s' \<noteq> DLive"])
  show "life_inv s \<and> dropping s \<noteq> DLive"
    using life_cycle.reachable_inv [OF assms(1)] assms(2) by blast
  show "life_inv t \<and> dropping t \<noteq> DLive" if "life_inv s' \<and> dropping s' \<noteq> DLive" "calm_life os s' t" for s' t
  proof -
    have "life_step os s' t" using that(2) by (simp add: calm_life_def)
    moreover from this have "dropping t \<noteq> DLive" using that(1) by cases auto
    ultimately show ?thesis using life_inv_step that(1) by blast
  qed
  show "dropping s' = DDone \<and> live s' = {} \<and> thread_count (ldata s') = 0"
    if "life_inv s' \<and> dropping s' \<noteq> DLive" "drop_settled s'" for s'
    using that by (simp add: drop_settled_def life_inv_def)
qed

theorem drop_returns_witness:
  "inevitable (calm_life (\<lambda>_. True)) (\<lambda>s'. dropping s' = DDone \<and> live s' = {} \<and> thread_count (ldata s') = 0)
    (solo_life True 1 [0] 1 0 DDrain 0)"
  by (rule drop_returns [OF solo_draining]) (simp add: solo_life_def)

text \<open>
  C35. A worker that unwinds while the pool is being dropped is replaced by a thread nobody
  joins: the drop can be over, its handle list emptied once and \<open>thread_count\<close> reset, with
  the replacement still running.
\<close>
theorem late_respawn_outlives_drop:
  "\<exists>s :: nat life. reachable_from (life_init (\<lambda>_. True)) (life_step (\<lambda>_. True)) s
    \<and> dropping s = DDone \<and> live s \<noteq> {} \<and> thread_handles (ldata s) \<noteq> []
    \<and> thread_count (ldata s) = 0"
  using solo_done
  by (intro exI [of _ "solo_life True 0 [1] 2 1 DDone 1"]) (simp add: solo_life_def)

end
