(* ===== verification/Whole_Pool.thy ===== *)
theory Whole_Pool
  imports Blocked_Job Lifecycle
begin

text \<open>
  The pool as a whole: the queue with its threads (\<open>Handshake\<close>) and the life cycle of those
  threads (\<open>Lifecycle\<close>) in one system. A worker moves only while its thread lives; leaving the
  loop and unwinding are events of both halves; \<open>Drop for Threadpool\<close> calls \<open>shutdown\<close>, takes
  the handles when it has returned, and joins. \<open>Drop\<close> has exclusive access to the pool, so from
  its start on only jobs can still push. The whole refines both halves, and what they promise
  separately adds up: when the drop is over, all work is done.
\<close>

section \<open>The composed system\<close>

record 'r whole =
  core :: "'r sys"
  cycle :: "'r life"

definition thread_runs :: "'r whole \<Rightarrow> nat \<Rightarrow> bool" where
  "thread_runs w i \<longleftrightarrow> (\<exists>t \<in> live (cycle w). t_index t = i)"

inductive whole_step :: "(nat \<Rightarrow> bool) \<Rightarrow> 'r whole \<Rightarrow> 'r whole \<Rightarrow> bool" for os where
  whole_work:
    "sys_step (core w) s \<Longrightarrow> crashes s = crashes (core w) \<Longrightarrow>
     (cpc s = CIdle \<longleftrightarrow> cpc (core w) = CIdle) \<Longrightarrow>
     (\<forall>i. wpcs s i \<noteq> wpcs (core w) i \<longrightarrow> thread_runs w i \<and> wpcs s i \<noteq> WExit) \<Longrightarrow>
     dropping (cycle w) = DLive \<or> (\<forall>p. ppcs s p = HDone) \<Longrightarrow>
     whole_step os w (w\<lparr>core := s\<rparr>)"
| whole_leave:
    "t \<in> live (cycle w) \<Longrightarrow> sys_step (core w) s \<Longrightarrow>
     wpcs (core w) (t_index t) \<noteq> WExit \<Longrightarrow> wpcs s (t_index t) = WExit \<Longrightarrow>
     sentry_drop os (dropping (cycle w) \<noteq> DDone) (sentry_cancel (sentry_new (t_index t)))
       (ldata (cycle w)) = Some d \<Longrightarrow>
     whole_step os w (w\<lparr>core := s,
       cycle := (cycle w)\<lparr>ldata := d, live := live (cycle w) - {t}\<rparr>\<rparr>)"
| whole_unwind:
    "t \<in> live (cycle w) \<Longrightarrow> sys_step (core w) s \<Longrightarrow> crashes s = Suc (crashes (core w)) \<Longrightarrow>
     wpcs s (t_index t) \<noteq> wpcs (core w) (t_index t) \<Longrightarrow>
     sentry_drop os (dropping (cycle w) \<noteq> DDone) (sentry_new (t_index t)) (ldata (cycle w)) = Some d \<Longrightarrow>
     whole_step os w (w\<lparr>core := s, cycle := (cycle w)\<lparr>ldata := d,
       live := live (cycle w) - {t}
         \<union> (set (thread_handles d) - set (thread_handles (ldata (cycle w))))\<rparr>\<rparr>)"
| whole_shutdown:
    "dropping (cycle w) = DLive \<Longrightarrow> (\<forall>p. ppcs (core w) p = HDone) \<Longrightarrow>
     sys_step (core w) s \<Longrightarrow> cpc (core w) = CIdle \<Longrightarrow> cpc s \<noteq> CIdle \<Longrightarrow>
     whole_step os w (w\<lparr>core := s, cycle := (cycle w)\<lparr>
       ldata := (ldata (cycle w))\<lparr>dqueue := (dqueue (ldata (cycle w)))\<lparr>shutdown_flag := True\<rparr>\<rparr>,
       dropping := DDrain\<rparr>\<rparr>)"
| whole_drain:
    "dropping (cycle w) = DDrain \<Longrightarrow> cpc (core w) = CDone \<Longrightarrow>
     whole_step os w (w\<lparr>cycle := (cycle w)\<lparr>ldata := (ldata (cycle w))\<lparr>thread_handles := []\<rparr>,
       dropping := DJoin (thread_handles (ldata (cycle w))),
       drained_at := attempts (ldata (cycle w))\<rparr>\<rparr>)"
| whole_join:
    "dropping (cycle w) = DJoin (h # hs) \<Longrightarrow> h \<notin> live (cycle w) \<Longrightarrow>
     whole_step os w (w\<lparr>cycle := (cycle w)\<lparr>dropping := DJoin hs\<rparr>\<rparr>)"
| whole_reset:
    "dropping (cycle w) = DJoin [] \<Longrightarrow>
     whole_step os w (w\<lparr>cycle := (cycle w)\<lparr>ldata := (ldata (cycle w))\<lparr>thread_count := 0\<rparr>,
       dropping := DDone\<rparr>\<rparr>)"

text \<open>A pool that \<open>build\<close> has just returned; its threads have not run yet.\<close>

definition whole_init :: "(nat \<Rightarrow> bool) \<Rightarrow> 'r whole \<Rightarrow> bool" where
  "whole_init os w \<longleftrightarrow> life_init os (cycle w) \<and> sys_init (core w)
     \<and> que (core w) = dqueue (ldata (cycle w))"

section \<open>Steps of the queue that end a thread\<close>

lemma exit_step:
  assumes "sys_step s s'" and "wpcs s i \<noteq> WExit" and "wpcs s' i = WExit"
  shows "wpcs s' = (wpcs s)(i := WExit)" "ppcs s' = ppcs s" "cpc s' = cpc s" "crashes s' = crashes s"
proof -
  have "wpcs s' = (wpcs s)(i := WExit) \<and> ppcs s' = ppcs s \<and> cpc s' = cpc s \<and> crashes s' = crashes s"
    using assms(1)
  proof cases
    case (worker_pop j q' c' pc')
    with assms(2,3) show ?thesis by (cases "j = i") auto
  qed (use assms(2,3) in \<open>auto split: if_splits\<close>)
  then show "wpcs s' = (wpcs s)(i := WExit)" "ppcs s' = ppcs s" "cpc s' = cpc s" "crashes s' = crashes s"
    by simp_all
qed

lemma crash_step:
  assumes "sys_step s s'" and "crashes s' = Suc (crashes s)" and "wpcs s' i \<noteq> wpcs s i"
  shows "wpcs s' = (wpcs s)(i := WStart)" "ppcs s' = ppcs s" "cpc s' = cpc s"
proof -
  have "wpcs s' = (wpcs s)(i := WStart) \<and> ppcs s' = ppcs s \<and> cpc s' = cpc s"
    using assms by cases (auto split: if_splits)
  then show "wpcs s' = (wpcs s)(i := WStart)" "ppcs s' = ppcs s" "cpc s' = cpc s" by simp_all
qed

lemma closed_step: "sys_step s s' \<Longrightarrow> cpc s = CDone \<Longrightarrow> cpc s' = CDone"
  by (cases rule: sys_step.cases) (auto simp: no_step_at)

section \<open>How the halves fit\<close>

definition joined :: "drop_pc \<Rightarrow> bool" where
  "joined k \<longleftrightarrow> \<not> before_drain k"

text \<open>
  A thread that lives is a worker that has not left, and conversely, except for one that
  unwound when nobody could replace it any more.
\<close>

definition fits :: "'r whole \<Rightarrow> bool" where
  "fits w \<longleftrightarrow>
     num_workers (core w) = pool_workers (cycle w)
     \<and> (\<forall>t \<in> live (cycle w). wpcs (core w) (t_index t) \<noteq> WExit)
     \<and> (\<forall>i < num_workers (core w). wpcs (core w) i = WExit \<or> thread_runs w i
          \<or> dropping (cycle w) = DDone \<and> wpcs (core w) i = WStart
            \<and> drained_at (cycle w) \<noteq> attempts (ldata (cycle w)))
     \<and> (shutdown_flag (dqueue (ldata (cycle w))) \<longleftrightarrow> dropping (cycle w) \<noteq> DLive)
     \<and> (dropping (cycle w) = DLive \<longleftrightarrow> cpc (core w) = CIdle)
     \<and> (joined (dropping (cycle w)) \<longrightarrow> cpc (core w) = CDone)
     \<and> (dropping (cycle w) \<noteq> DLive \<longrightarrow> (\<forall>p. ppcs (core w) p = HDone) \<and> drain_inv (core w))
     \<and> (joined (dropping (cycle w)) \<and> crashes (core w) = 0 \<longrightarrow>
          drained_at (cycle w) = attempts (ldata (cycle w)))"

definition whole_inv :: "'r whole \<Rightarrow> bool" where
  "whole_inv w \<longleftrightarrow> reachable (core w) \<and> life_inv (cycle w) \<and> fits w"

lemma joined_simps [simp]:
  "\<not> joined DLive" "\<not> joined DDrain" "joined (DJoin hs)" "joined DDone"
  by (simp_all add: joined_def before_drain_def)

text \<open>Each step of the whole is a step of both halves, or leaves them alone.\<close>

lemma whole_core:
  assumes "whole_step os w w'"
  shows "core w' = core w \<or> sys_step (core w) (core w')"
  using assms by cases auto

lemma whole_cycle:
  assumes fit: "fits w" and inv: "reachable (core w)" and "whole_step os w w'"
  shows "cycle w' = cycle w \<or> life_step os (cycle w) (cycle w')"
  using assms(3)
proof cases
  case (whole_leave t s d)
  have "cpc s = cpc (core w)" by (rule exit_step [OF whole_leave(3,4,5)])
  moreover have "closing_inv s" using full_invD(3) reach_step [OF inv whole_leave(3)] by blast
  moreover have "t_index t < num_workers s"
  proof (rule ccontr)
    assume "\<not> t_index t < num_workers s"
    then have "\<not> t_index t < num_workers (core w)" using sys_step_workers [OF whole_leave(3)] by simp
    with whole_leave(3-5) show False by cases (auto split: if_splits)
  qed
  ultimately have "cpc (core w) \<noteq> CIdle" using whole_leave(5) by (auto simp: closing_inv_def)
  then have "shutdown_flag (dqueue (ldata (cycle w)))" using fit by (simp add: fits_def)
  with life_step.worker_exit [OF whole_leave(2) _ whole_leave(6)] whole_leave(1) show ?thesis by simp
next
  case (whole_unwind t s d)
  with life_step.worker_unwound [OF whole_unwind(2,6)] show ?thesis by simp
qed (auto intro: life_step.intros)

section \<open>The invariant\<close>

text \<open>Once the drop has begun only jobs push, and work left in an injector keeps a worker.\<close>

lemma still_drains:
  assumes inv: "whole_inv w" and "sys_step (core w) s" and "\<forall>p. ppcs s p = HDone"
    and "dropping (cycle w) \<noteq> DLive"
  shows "drain_inv s"
proof -
  have "quiet_step (core w) s" using assms(2,3) by (simp add: quiet_step_def)
  with inv assms(4) drain_step [OF full_invD(5), of "core w" s] show ?thesis
    by (simp add: whole_inv_def fits_def)
qed

lemma other_index:
  assumes "whole_inv w" and "t \<in> live (cycle w)" and "u \<in> live (cycle w)" and "u \<noteq> t"
  shows "t_index u \<noteq> t_index t"
  using assms by (auto simp: whole_inv_def life_inv_def dest: inj_onD)

lemma fits_work:
  assumes inv: "whole_inv w" and step: "sys_step (core w) s" and "crashes s = crashes (core w)"
    and idle: "cpc s = CIdle \<longleftrightarrow> cpc (core w) = CIdle"
    and pcs: "\<forall>i. wpcs s i \<noteq> wpcs (core w) i \<longrightarrow> thread_runs w i \<and> wpcs s i \<noteq> WExit"
    and quiet: "dropping (cycle w) = DLive \<or> (\<forall>p. ppcs s p = HDone)"
  shows "fits (w\<lparr>core := s\<rparr>)"
proof -
  have fit: "fits w" using inv by (simp add: whole_inv_def)
  have "drain_inv s \<and> (\<forall>p. ppcs s p = HDone)" if "dropping (cycle w) \<noteq> DLive"
    using still_drains [OF inv step] quiet that by blast
  moreover have "wpcs s i = WExit \<or> thread_runs w i \<or> dropping (cycle w) = DDone \<and> wpcs s i = WStart
      \<and> drained_at (cycle w) \<noteq> attempts (ldata (cycle w))" if "i < num_workers s" for i
    using fit pcs that sys_step_workers [OF step] unfolding fits_def by metis
  moreover have "wpcs s (t_index t) \<noteq> WExit" if "t \<in> live (cycle w)" for t
    using fit pcs that unfolding fits_def by metis
  ultimately show ?thesis
    using fit closed_step [OF step] idle sys_step_workers [OF step] assms(3)
    by (simp add: fits_def thread_runs_def)
qed

lemma fits_leave:
  assumes inv: "whole_inv w" and t: "t \<in> live (cycle w)" and step: "sys_step (core w) s"
    and exits: "wpcs (core w) (t_index t) \<noteq> WExit" "wpcs s (t_index t) = WExit"
  shows "fits (w\<lparr>core := s, cycle := (cycle w)\<lparr>live := live (cycle w) - {t}\<rparr>\<rparr>)"
proof -
  have fit: "fits w" using inv by (simp add: whole_inv_def)
  note ex = exit_step [OF step exits] and other = other_index [OF inv t]
  have drain: "drain_inv s" if "dropping (cycle w) \<noteq> DLive"
    using still_drains [OF inv step] fit that by (simp add: ex fits_def)
  have "wpcs s (t_index u) \<noteq> WExit" if "u \<in> live (cycle w) - {t}" for u
    using fit other that by (simp add: ex fits_def)
  moreover have "wpcs s i = WExit \<or> (\<exists>u \<in> live (cycle w) - {t}. t_index u = i)
      \<or> dropping (cycle w) = DDone \<and> wpcs s i = WStart
        \<and> drained_at (cycle w) \<noteq> attempts (ldata (cycle w))" if "i < num_workers s" for i
    using fit that sys_step_workers [OF step] by (auto simp: ex fits_def thread_runs_def)
  ultimately show ?thesis
    using fit drain sys_step_workers [OF step]
    by (simp add: fits_def thread_runs_def pool_workers_def ex)
qed

text \<open>A worker that unwinds when the drop is over is not replaced.\<close>

lemma fits_unwind_late:
  assumes inv: "whole_inv w" and t: "t \<in> live (cycle w)" and step: "sys_step (core w) s"
    and crash: "crashes s = Suc (crashes (core w))" "wpcs s (t_index t) \<noteq> wpcs (core w) (t_index t)"
    and over: "dropping (cycle w) = DDone"
  shows "fits (w\<lparr>core := s, cycle := (cycle w)\<lparr>live := live (cycle w) - {t}\<rparr>\<rparr>)" (is "fits ?w")
proof -
  have fit: "fits w" and life: "life_inv (cycle w)" using inv by (simp_all add: whole_inv_def)
  note cr = crash_step [OF step crash] and other = other_index [OF inv t]
  have drain: "drain_inv s" using still_drains [OF inv step] fit over by (simp add: cr fits_def)
  have "t_id t < attempts (ldata (cycle w))" "\<not> t_id t < drained_at (cycle w)"
    using life t over by (auto simp: life_inv_def)
  then have "drained_at (cycle w) \<noteq> attempts (ldata (cycle w))" by linarith
  moreover have "wpcs s (t_index u) \<noteq> WExit" if "u \<in> live (cycle w) - {t}" for u
    using fit other that by (simp add: cr fits_def)
  moreover have "thread_runs ?w i" if "thread_runs w i" "i \<noteq> t_index t" for i
    using that by (auto simp: thread_runs_def)
  ultimately show ?thesis
    using fit drain over sys_step_workers [OF step]
    by (auto simp: fits_def pool_workers_def cr crash)
qed

text \<open>Otherwise a new thread \<open>u\<close> takes its index.\<close>

lemma fits_unwind_respawn:
  assumes inv: "whole_inv w" and t: "t \<in> live (cycle w)" and step: "sys_step (core w) s"
    and crash: "crashes s = Suc (crashes (core w))" "wpcs s (t_index t) \<noteq> wpcs (core w) (t_index t)"
    and going: "dropping (cycle w) \<noteq> DDone"
    and u: "t_index u = t_index t" "dqueue d = dqueue (ldata (cycle w))"
  shows "fits (w\<lparr>core := s, cycle := (cycle w)\<lparr>ldata := d, live := insert u (live (cycle w) - {t})\<rparr>\<rparr>)"
proof -
  have fit: "fits w" using inv by (simp add: whole_inv_def)
  note cr = crash_step [OF step crash] and n = sys_step_workers [OF step]
  have drain: "drain_inv s" if "dropping (cycle w) \<noteq> DLive"
    using still_drains [OF inv step] fit that by (simp add: cr fits_def)
  have "wpcs s (t_index x) \<noteq> WExit" if "x \<in> insert u (live (cycle w) - {t})" for x
  proof (cases "t_index x = t_index t")
    case False
    with that u(1) fit show ?thesis by (auto simp: cr fits_def)
  qed (simp add: cr)
  moreover have "wpcs s i = WExit \<or> (\<exists>x \<in> insert u (live (cycle w) - {t}). t_index x = i)"
    if "i < num_workers s" for i
  proof (cases "i = t_index t")
    case False
    with that fit going n have "wpcs s i = WExit \<or> thread_runs w i" by (simp add: cr fits_def)
    with False show ?thesis by (auto simp: thread_runs_def)
  qed (use u(1) in auto)
  ultimately show ?thesis
    using fit drain going by (simp add: fits_def thread_runs_def pool_workers_def u(2) n cr crash)
qed

lemma fits_unwind:
  assumes inv: "whole_inv w" and t: "t \<in> live (cycle w)" and step: "sys_step (core w) s"
    and crash: "crashes s = Suc (crashes (core w))" "wpcs s (t_index t) \<noteq> wpcs (core w) (t_index t)"
    and drop: "sentry_drop os (dropping (cycle w) \<noteq> DDone) (sentry_new (t_index t))
      (ldata (cycle w)) = Some d"
  shows "fits (w\<lparr>core := s, cycle := (cycle w)\<lparr>ldata := d,
    live := live (cycle w) - {t} \<union> (set (thread_handles d) - set (thread_handles (ldata (cycle w))))\<rparr>\<rparr>)"
proof (cases "dropping (cycle w) = DDone")
  case True
  with drop have "d = ldata (cycle w)" by (simp add: sentry_drop_def)
  with fits_unwind_late [OF inv t step crash True] show ?thesis by simp
next
  case False
  with drop have "spin_up os (t_index t) (ldata (cycle w)) = Some d"
    by (simp add: sentry_drop_def sentry_new_def)
  with inv obtain u where u: "thread_handles d = thread_handles (ldata (cycle w)) @ [u]"
    "u \<notin> set (thread_handles (ldata (cycle w)))" "t_index u = t_index t"
    "dqueue d = dqueue (ldata (cycle w))"
    using respawn_adds_one [of os "t_index t" "ldata (cycle w)" d]
    by (auto simp: whole_inv_def life_inv_def)
  then have "live (cycle w) - {t} \<union> (set (thread_handles d) - set (thread_handles (ldata (cycle w))))
    = insert u (live (cycle w) - {t})" by auto
  with fits_unwind_respawn [OF inv t step crash False u(3,4)] show ?thesis by simp
qed

lemma fits_shutdown:
  assumes inv: "whole_inv w" and "dropping (cycle w) = DLive" and quiet: "\<forall>p. ppcs (core w) p = HDone"
    and step: "sys_step (core w) s" and idle: "cpc (core w) = CIdle" "cpc s \<noteq> CIdle"
  shows "fits (w\<lparr>core := s, cycle := (cycle w)\<lparr>
    ldata := (ldata (cycle w))\<lparr>dqueue := (dqueue (ldata (cycle w)))\<lparr>shutdown_flag := True\<rparr>\<rparr>,
    dropping := DDrain\<rparr>\<rparr>)"
proof -
  have fit: "fits w" and core: "reachable (core w)" using inv by (simp_all add: whole_inv_def)
  have same: "wpcs s = wpcs (core w) \<and> ppcs s = ppcs (core w) \<and> crashes s = crashes (core w)"
    using step by cases (use idle in \<open>auto simp: no_step_at\<close>)
  have "drain_inv (core w)" by (rule drain_start [OF core idle(1) quiet])
  moreover have "quiet_step (core w) s" using same quiet step by (simp add: quiet_step_def)
  ultimately have "drain_inv s" using drain_step [OF full_invD(5) [OF core]] quiet by blast
  then show ?thesis
    using fit assms(2) same quiet idle sys_step_workers [OF step]
    by (simp add: fits_def thread_runs_def pool_workers_def)
qed

lemma fits_step:
  assumes inv: "whole_inv w" and "whole_step os w w'"
  shows "fits w'"
  using assms(2)
proof cases
  case (whole_work s)
  with fits_work [OF inv] show ?thesis by blast
next
  case (whole_leave t s d)
  then have "d = ldata (cycle w)" by (simp add: cancelled_sentry)
  with whole_leave fits_leave [OF inv, of t s] show ?thesis by simp
next
  case (whole_unwind t s d)
  with fits_unwind [OF inv, of t s os d] show ?thesis by simp
next
  case (whole_shutdown s)
  with fits_shutdown [OF inv] show ?thesis by simp
next
  case whole_drain
  then show ?thesis using inv by (simp add: whole_inv_def fits_def thread_runs_def pool_workers_def)
next
  case (whole_join h hs)
  then show ?thesis using inv by (simp add: whole_inv_def fits_def thread_runs_def pool_workers_def)
next
  case whole_reset
  then show ?thesis using inv by (auto simp: whole_inv_def fits_def thread_runs_def pool_workers_def)
qed

lemma whole_inv_step:
  assumes inv: "whole_inv w" and step: "whole_step os w w'"
  shows "whole_inv w'"
proof -
  have "reachable (core w')"
    using whole_core [OF step] inv reach_step [of sys_init sys_step] by (auto simp: whole_inv_def)
  moreover have "life_inv (cycle w')"
    using whole_cycle [OF _ _ step] inv life_inv_step by (auto simp: whole_inv_def)
  ultimately show ?thesis using fits_step [OF inv step] by (simp add: whole_inv_def)
qed

lemma whole_inv_init:
  assumes "whole_init os w"
  shows "whole_inv w"
proof -
  have life: "life_inv (cycle w)" and core: "reachable (core w)"
    using assms life_inv_init reach_init [of sys_init] by (auto simp: whole_init_def)
  have start: "\<forall>i. wpcs (core w) i = WStart" "cpc (core w) = CIdle" "dropping (cycle w) = DLive"
    and flag: "\<not> shutdown_flag (dqueue (ldata (cycle w)))"
    and workers: "num_workers (core w) = pool_workers (cycle w)"
    using assms
    by (auto simp: whole_init_def life_init_def sys_init_def num_workers_def pool_workers_def
        dest: queue_new_fields(6))
  have "t_index ` live (cycle w) = {..<pool_workers (cycle w)}" using life flag by (simp add: life_inv_def)
  then have "thread_runs w i" if "i < pool_workers (cycle w)" for i
    using that unfolding thread_runs_def by (metis imageE lessThan_iff)
  with life core start flag workers show ?thesis
    by (simp add: whole_inv_def fits_def)
qed


interpretation whole_pool: invariant_system "whole_init os" "whole_step os" whole_inv for os
  by unfold_locales (erule whole_inv_init, erule whole_inv_step)

section \<open>The whole refines its halves\<close>

interpretation pool_queue: refinement "whole_init os" "whole_step os" whole_inv core sys_init sys_step
  for os
  by unfold_locales (simp_all add: whole_init_def whole_core)

interpretation pool_life: refinement "whole_init os" "whole_step os" whole_inv cycle
  "life_init os" "life_step os" for os
  by unfold_locales (auto simp: whole_init_def whole_inv_def whole_cycle)

end
