(* ===== verification/Whole_Drop.thy ===== *)
theory Whole_Drop
  imports Whole_Pool
begin

text \<open>
  What \<open>Drop for Threadpool\<close> comes to in the pool as a whole: it returns, nothing is left
  undone or running when it has, unless it is one of the pool's own jobs that runs it.
\<close>

section \<open>The drop finishes\<close>

text \<open>A step of a pool that is being dropped which is not a disturbance.\<close>

definition calm_whole :: "(nat \<Rightarrow> bool) \<Rightarrow> 'r whole \<Rightarrow> 'r whole \<Rightarrow> bool" where
  "calm_whole os w w' \<longleftrightarrow> whole_step os w w' \<and> w' \<noteq> w \<and> dropping (cycle w) \<noteq> DLive
     \<and> (core w' = core w \<or> calm_step (core w) (core w'))"

definition drop_over :: "'r whole \<Rightarrow> bool" where
  "drop_over w \<longleftrightarrow> drop_settled (cycle w)"

definition whole_rank ::
  "'r whole \<Rightarrow> ((nat \<times> nat) \<times> nat) \<times> _" where
  "whole_rank w = (life_rank (cycle w), rank (core w))"

definition whole_below where
  "whole_below = life_below <*lex*> below"

lemma calm_whole_rank:
  assumes inv: "whole_inv w" and calm: "calm_whole os w w'"
  shows "(whole_rank w', whole_rank w) \<in> whole_below"
proof -
  have less: "card (live (cycle w) - {t}) < card (live (cycle w))" if "t \<in> live (cycle w)" for t
    using that finite_live [of "cycle w"] inv by (intro card_Diff1_less) (simp_all add: whole_inv_def)
  have core: "prog_inv (core w)"
    using inv progress.reachable_inv [of "core w"] by (simp add: whole_inv_def)
  have step: "whole_step os w w'" and begun: "dropping (cycle w) \<noteq> DLive" and "w' \<noteq> w"
    and same: "core w' = core w \<or> calm_step (core w) (core w')"
    using calm by (simp_all add: calm_whole_def)
  show ?thesis
    using step
  proof cases
    case (whole_work s)
    with \<open>w' \<noteq> w\<close> same have "calm_step (core w) s" by auto
    with whole_work calm_lowers_rank [OF core] show ?thesis by (simp add: whole_rank_def whole_below_def)
  next
    case (whole_leave t s d)
    with less [of t] show ?thesis
      by (simp add: whole_rank_def whole_below_def life_rank_def life_below_def)
  next
    case (whole_unwind t s d)
    with same calm_step_keeps(2) [of "core w" s] show ?thesis by auto
  qed (use begun in \<open>simp_all add: whole_rank_def whole_below_def life_rank_def life_below_def\<close>)
qed

text \<open>A step moves one worker at most, and none that has left.\<close>

lemma step_moves_one:
  assumes "sys_step s s'" and "wpcs s' i \<noteq> wpcs s i"
  shows "wpcs s i \<noteq> WExit" and "\<And>j. j \<noteq> i \<Longrightarrow> wpcs s' j = wpcs s j" and "i < num_workers s"
proof -
  have "wpcs s i \<noteq> WExit \<and> (\<forall>j. j \<noteq> i \<longrightarrow> wpcs s' j = wpcs s j) \<and> i < num_workers s"
    using assms(1)
  proof cases
    case (worker_pop k q' c' pc')
    with assms(2) show ?thesis by (cases "k = i") (auto simp: no_step_at)
  qed (use assms(2) in \<open>auto split: if_splits\<close>)
  then show "wpcs s i \<noteq> WExit" and "\<And>j. j \<noteq> i \<Longrightarrow> wpcs s' j = wpcs s j" and "i < num_workers s"
    by blast+
qed

text \<open>A calm step of the queue by a thread that lives is a step of the whole.\<close>

lemma calm_core_lifts:
  assumes inv: "whole_inv w" and begun: "dropping (cycle w) \<noteq> DLive"
    and calm: "calm_step (core w) s"
    and lives: "\<forall>i. wpcs s i \<noteq> wpcs (core w) i \<longrightarrow> thread_runs w i"
  shows "\<exists>w'. calm_whole os w w'"
proof -
  have step: "sys_step (core w) s" and "s \<noteq> core w" using calm by (simp_all add: calm_step_def)
  have quiet: "\<forall>p. ppcs s p = HDone"
    using calm_step_quiet [OF calm] inv begun by (simp add: whole_inv_def fits_def quiet_step_def)
  show ?thesis
  proof (cases "\<exists>i. wpcs s i \<noteq> wpcs (core w) i \<and> wpcs s i = WExit")
    case False
    let ?w = "w\<lparr>core := s\<rparr>"
    have "whole_step os w ?w"
      using whole_work [OF step] calm_step_keeps(2,3) [OF calm] quiet lives False by blast
    moreover have "core ?w \<noteq> core w" using \<open>s \<noteq> core w\<close> by simp
    then have "?w \<noteq> w" by metis
    ultimately show ?thesis using begun calm by (intro exI [of _ ?w]) (simp add: calm_whole_def)
  next
    case True
    then obtain i where i: "wpcs s i \<noteq> wpcs (core w) i" "wpcs s i = WExit" by blast
    with lives have "thread_runs w i" by blast
    then obtain t where t: "t \<in> live (cycle w)" "t_index t = i" by (auto simp: thread_runs_def)
    let ?w = "w\<lparr>core := s, cycle := (cycle w)\<lparr>ldata := ldata (cycle w), live := live (cycle w) - {t}\<rparr>\<rparr>"
    have "whole_step os w ?w"
      using i t by (intro whole_leave [OF t(1) step _ _ cancelled_sentry]) auto
    moreover have "core ?w \<noteq> core w" using \<open>s \<noteq> core w\<close> by simp
    then have "?w \<noteq> w" by metis
    ultimately show ?thesis using begun calm by (intro exI [of _ ?w]) (simp add: calm_whole_def)
  qed
qed

lemma calm_cycle_lifts:
  assumes "whole_step os w (w\<lparr>cycle := c\<rparr>)" and "c \<noteq> cycle w" and "dropping (cycle w) \<noteq> DLive"
  shows "\<exists>w'. calm_whole os w w'"
proof -
  have "cycle (w\<lparr>cycle := c\<rparr>) \<noteq> cycle w" using assms(2) by simp
  then have "w\<lparr>cycle := c\<rparr> \<noteq> w" by metis
  with assms show ?thesis by (intro exI [of _ "w\<lparr>cycle := c\<rparr>"]) (simp add: calm_whole_def)
qed

text \<open>The thread that drops the pool moves on once the workers have gone.\<close>

lemma dropper_moves:
  assumes closed: "cpc (core w) = CDone" and empty: "live (cycle w) = {}"
    and begun: "dropping (cycle w) \<noteq> DLive" and going: "dropping (cycle w) \<noteq> DDone"
  shows "\<exists>w'. calm_whole os w w'"
proof (cases "dropping (cycle w)")
  case DDrain
  show ?thesis by (rule calm_cycle_lifts [OF whole_drain [OF DDrain closed] _ begun])
      (metis DDrain drop_pc.distinct(7) life.select_convs(3) life.surjective life.update_convs(1,3,4))
next
  case (DJoin hs)
  show ?thesis
  proof (cases hs)
    case Nil
    with DJoin have "dropping (cycle w) = DJoin []" by simp
    from calm_cycle_lifts [OF whole_reset [OF this] _ begun] DJoin show ?thesis
      by (metis drop_pc.distinct(11) life.select_convs(3) life.surjective life.update_convs(1,3))
  next
    case (Cons h hs')
    with DJoin have "dropping (cycle w) = DJoin (h # hs')" by simp
    from calm_cycle_lifts [OF whole_join [OF this] _ begun] empty this show ?thesis
      by (metis drop_pc.inject empty_iff life.select_convs(3) life.surjective life.update_convs(3) not_Cons_self)
  qed
qed (use begun going in simp_all)

lemma whole_never_stuck:
  assumes inv: "whole_inv w" and going: "\<not> drop_over w"
  shows "\<exists>w'. calm_whole os w w'"
proof -
  have fit: "fits w" and core: "reachable (core w)" and life: "life_inv (cycle w)"
    and prog: "prog_inv (core w)"
    using inv progress.reachable_inv [of "core w"] by (auto simp: whole_inv_def)
  have begun: "dropping (cycle w) \<noteq> DLive" using going by (simp add: drop_over_def drop_settled_def)
  define V where "V = {i. i < num_workers (core w) \<and> wpcs (core w) i \<noteq> WExit \<and> \<not> thread_runs w i}"
  have late: "wpcs (core w) i = WStart" if "i \<in> V" for i using that fit unfolding V_def fits_def by blast
  show ?thesis
  proof (cases "settled_but V (core w)")
    case False
    moreover have "\<forall>v \<in> V. \<not> w_holds (wpcs (core w) v)" using late by simp
    ultimately obtain s where s: "calm_step (core w) s" "\<forall>v \<in> V. wpcs s v = wpcs (core w) v"
      using others_move [OF prog] by blast
    have "thread_runs w i" if "wpcs s i \<noteq> wpcs (core w) i" for i
      using step_moves_one(1,3) [OF _ that] s that by (auto simp: V_def calm_step_def)
    then show ?thesis using calm_core_lifts [OF inv begun s(1)] by blast
  next
    case True
    then have closed: "cpc (core w) = CDone" using fit begun by (auto simp: settled_but_def fits_def)
    with full_invD(3) [OF core] have "\<not> asleep (core w) i" for i
      by (auto simp: closing_inv_def asleep_def)
    with True have rest: "i \<in> V \<or> wpcs (core w) i = WExit" if "i < num_workers (core w)" for i
      using that by (auto simp: settled_but_def)
    have empty: "live (cycle w) = {}"
    proof (rule ccontr)
      assume "live (cycle w) \<noteq> {}"
      then obtain t where t: "t \<in> live (cycle w)" by blast
      then have "t_index t < num_workers (core w)" "wpcs (core w) (t_index t) \<noteq> WExit"
        using life fit by (auto simp: life_inv_def fits_def)
      with rest t show False by (auto simp: V_def thread_runs_def)
    qed
    then have "dropping (cycle w) \<noteq> DDone" using going by (simp add: drop_over_def drop_settled_def)
    with dropper_moves closed empty begun show ?thesis by blast
  qed
qed

interpretation whole_progress: progress_system "whole_init os" "whole_step os" whole_inv
  "calm_whole os" drop_over whole_rank whole_below for os
proof unfold_locales
  show "wf whole_below"
    unfolding whole_below_def by (intro wf_lex_prod wf_below drop_progress.wf_below)
qed (auto simp: calm_whole_def intro: calm_whole_rank whole_never_stuck [unfolded calm_whole_def])


section \<open>A pool that has been dropped\<close>

lemma drop_over_leaves:
  assumes inv: "whole_inv w" and over: "dropping (cycle w) = DDone"
    and late: "drained_at (cycle w) = attempts (ldata (cycle w)) \<or> crashes (core w) = 0"
  shows "live (cycle w) = {}" and "\<forall>i < num_workers (core w). wpcs (core w) i = WExit"
proof -
  have fit: "fits w" and life: "life_inv (cycle w)" using inv by (simp_all add: whole_inv_def)
  then have same: "drained_at (cycle w) = attempts (ldata (cycle w))"
    using late over by (auto simp: fits_def)
  have "\<not> t \<in> live (cycle w)" for t
  proof
    assume "t \<in> live (cycle w)"
    with life over have "t_id t < attempts (ldata (cycle w))" "\<not> t_id t < drained_at (cycle w)"
      by (auto simp: life_inv_def)
    with same show False by simp
  qed
  then show "live (cycle w) = {}" by blast
  with fit same show "\<forall>i < num_workers (core w). wpcs (core w) i = WExit"
    by (auto simp: fits_def thread_runs_def)
qed

lemma calm_whole_keeps:
  assumes "calm_whole os w w'"
  shows "pushed (core w') = pushed (core w)" "crashes (core w') = crashes (core w)"
    "dropping (cycle w') \<noteq> DLive"
proof -
  show "pushed (core w') = pushed (core w)" "crashes (core w') = crashes (core w)"
    using assms calm_step_keeps [of "core w" "core w'"] by (auto simp: calm_whole_def)
  have "whole_step os w w'" "dropping (cycle w) \<noteq> DLive" using assms by (simp_all add: calm_whole_def)
  then show "dropping (cycle w') \<noteq> DLive" by cases auto
qed

lemma drop_inevitable:
  assumes "reachable_from (whole_init os) (whole_step os) w" and "dropping (cycle w) \<noteq> DLive"
  shows "inevitable (calm_whole os) (\<lambda>w'. drop_over w' \<and> dropping (cycle w') \<noteq> DLive
    \<and> reachable_from (whole_init os) (whole_step os) w'
    \<and> pushed (core w') = pushed (core w) \<and> crashes (core w') = crashes (core w)) w"
proof (rule inevitable_conseq [OF whole_progress.inevitable_goal [OF assms(1)],
      where I = "\<lambda>w'. dropping (cycle w') \<noteq> DLive \<and> reachable_from (whole_init os) (whole_step os) w'
        \<and> pushed (core w') = pushed (core w) \<and> crashes (core w') = crashes (core w)"])
  fix w' t
  assume "dropping (cycle w') \<noteq> DLive \<and> reachable_from (whole_init os) (whole_step os) w'
    \<and> pushed (core w') = pushed (core w) \<and> crashes (core w') = crashes (core w)"
    and calm: "calm_whole os w' t"
  with calm_whole_keeps [OF calm] reach_step [of "whole_init os" "whole_step os" w' t]
  show "dropping (cycle t) \<noteq> DLive \<and> reachable_from (whole_init os) (whole_step os) t
    \<and> pushed (core t) = pushed (core w) \<and> crashes (core t) = crashes (core w)"
    by (simp add: calm_whole_def)
qed (use assms in auto)

text \<open>As long as nobody drops the pool, it can do what its queue can do.\<close>

lemma crashes_grow: "sys_step s s' \<Longrightarrow> crashes s \<le> crashes s'"
  by (cases rule: sys_step.cases) auto

lemma idle_before: "sys_step s s' \<Longrightarrow> cpc s' = CIdle \<Longrightarrow> cpc s = CIdle"
  by (cases rule: sys_step.cases) (auto elim!: shutdown_stepE)

lemma open_run_lifts:
  assumes "reachable_from (whole_init os) (whole_step os) w" and "dropping (cycle w) = DLive"
    and "sys_step\<^sup>*\<^sup>* (core w) s" and "cpc s = CIdle" and "crashes s = crashes (core w)"
  shows "reachable_from (whole_init os) (whole_step os) (w\<lparr>core := s\<rparr>)"
proof -
  have "crashes (core w) \<le> crashes s \<and> (cpc s = CIdle \<longrightarrow> crashes s = crashes (core w) \<longrightarrow>
      reachable_from (whole_init os) (whole_step os) (w\<lparr>core := s\<rparr>))"
    using assms(3)
  proof (induction rule: rtranclp_induct)
    case base
    then show ?case using assms(1) by simp
  next
    case (step y z)
    have "reachable_from (whole_init os) (whole_step os) (w\<lparr>core := z\<rparr>)"
      if idle: "cpc z = CIdle" and calm: "crashes z = crashes (core w)"
    proof -
      let ?w = "w\<lparr>core := y\<rparr>"
      have "cpc y = CIdle" "crashes y = crashes z"
        using idle_before [OF step(2) idle] crashes_grow [OF step(2)] step.IH calm by simp_all
      with step.IH calm have w: "reachable_from (whole_init os) (whole_step os) ?w" by simp
      then have inv: "whole_inv ?w" by (rule whole_pool.reachable_inv)
      have "thread_runs ?w i \<and> wpcs z i \<noteq> WExit" if "wpcs z i \<noteq> wpcs y i" for i
      proof -
        have i: "wpcs y i \<noteq> WExit" "i < num_workers y" using step_moves_one [OF step(2) that] by blast+
        with inv assms(2) have "thread_runs ?w i" by (auto simp: whole_inv_def fits_def)
        moreover have "closing_inv z"
          using inv full_invD(3) [OF reach_step [of sys_init sys_step y z]] step(2) by (simp add: whole_inv_def)
        then have "wpcs z i \<noteq> WExit"
          using i idle sys_step_workers [OF step(2)] by (auto simp: closing_inv_def)
        ultimately show ?thesis by blast
      qed
      with step(2) idle \<open>cpc y = CIdle\<close> \<open>crashes y = crashes z\<close> assms(2)
      have "whole_step os ?w (?w\<lparr>core := z\<rparr>)" by (intro whole_work) simp_all
      from reach_step [OF w this] show ?thesis by simp
    qed
    with step.IH crashes_grow [OF step(2)] show ?case by linarith
  qed
  with assms(4,5) show ?thesis by blast
qed

section \<open>A small pool\<close>

definition small_pool :: "nat whole" where
  "small_pool = \<lparr>core = fresh_pool 1, cycle = solo_life False 1 [0] 1 0 DLive 0\<rparr>"


lemma small_pool_starts:
  "reachable_from (whole_init (\<lambda>_. True)) (whole_step (\<lambda>_. True)) small_pool"
proof (rule reach_init)
  have "life_init (\<lambda>_. True) (solo_life False 1 [0] 1 0 DLive 0)"
    by (rule solo_life_init)
  moreover have "que (fresh_pool 1) = dqueue (ldata (solo_life False 1 [0] 1 0 DLive 0))"
    by (simp add: fresh_pool_def solo_life_def solo_queue_def)
  ultimately show "whole_init (\<lambda>_. True) small_pool"
    using fresh_init [of 1] by (simp add: whole_init_def small_pool_def)
qed

text \<open>The worker of the small pool takes runnable 5 and runs it.\<close>

definition job_schedule :: "nat move list" where
  "job_schedule = [Push 0 5, Hand 0 0, Hand 0 0] @ replicate 4 (Pop 0 Half)"

lemma job_runs:
  "map_option waiting_view (replay job_schedule (fresh_pool 1))
     = Some (WRun 5, HDone, [Some 0], [], CIdle, False, True, 0)"
  by code_simp

lemma small_pool_at_work:
  obtains w :: "nat whole" where
    "reachable_from (whole_init (\<lambda>_. True)) (whole_step (\<lambda>_. True)) w"
    "dropping (cycle w) = DLive" "num_workers (core w) = 1" "wpcs (core w) 0 = WRun 5"
proof -
  obtain s where s: "replay job_schedule (fresh_pool 1) = Some s"
    "waiting_view s = (WRun 5, HDone, [Some 0], [], CIdle, False, True, 0)"
    using job_runs by auto
  have "reachable_from (whole_init (\<lambda>_. True)) (whole_step (\<lambda>_. True)) (small_pool\<lparr>core := s\<rparr>)"
    using replay_run [OF s(1)] s(2)
    by (intro open_run_lifts [OF small_pool_starts])
      (simp_all add: small_pool_def solo_life_def waiting_view_def fresh_pool_def)
  then show ?thesis
    using s(2) by (intro that [of "small_pool\<lparr>core := s\<rparr>"])
      (auto simp: small_pool_def solo_life_def waiting_view_def num_workers_def)
qed

text \<open>The small pool while it is being dropped, and afterwards.\<close>

lemma small_pool_dropping:
  obtains w :: "nat whole" where
    "reachable_from (whole_init (\<lambda>_. True)) (whole_step (\<lambda>_. True)) w"
    "dropping (cycle w) = DDrain" "crashes (core w) = 0"
proof -
  let ?s = "(core small_pool)\<lparr>que := (que (core small_pool))\<lparr>shutdown_flag := True\<rparr>, cpc := CLock\<rparr>"
  have idle: "cpc (core small_pool) = CIdle" by (simp add: small_pool_def fresh_pool_def)
  have step: "sys_step (core small_pool) ?s"
    by (rule closing) (simp add: idle store_flag)
  have live: "dropping (cycle small_pool) = DLive" "\<forall>p. ppcs (core small_pool) p = HDone"
    by (simp_all add: small_pool_def solo_life_def fresh_pool_def)
  have "cpc ?s \<noteq> CIdle" by simp
  from reach_step [OF small_pool_starts whole_shutdown [OF live step idle this]] show ?thesis
    by (rule that) (simp_all add: small_pool_def fresh_pool_def)
qed

section \<open>Properties\<close>



text \<open>
  C3. Dropping a pool finishes: once \<open>Drop for Threadpool\<close> has begun, every run in which
  nothing is pushed, no worker unwinds and no steal is contended any more ends with the drop
  over and no thread of the pool left; if no worker has ever unwound, everything pushed has
  then been run. The sleeping workers are woken, the working ones are waited for, and the joins
  never wait for a thread that waits for them.
\<close>
theorem dropping_a_pool_finishes:
  assumes "reachable_from (whole_init os) (whole_step os) w" and "dropping (cycle w) \<noteq> DLive"
  shows "inevitable (calm_whole os) (\<lambda>w'. dropping (cycle w') = DDone \<and> live (cycle w') = {}
    \<and> thread_count (ldata (cycle w')) = 0
    \<and> (crashes (core w) = 0 \<longrightarrow> ran (core w') = pushed (core w))) w"
proof (rule inevitable_conseq [OF drop_inevitable [OF assms], where I = "\<lambda>_. True"])
  fix w'
  assume "drop_over w' \<and> dropping (cycle w') \<noteq> DLive
    \<and> reachable_from (whole_init os) (whole_step os) w'
    \<and> pushed (core w') = pushed (core w) \<and> crashes (core w') = crashes (core w)"
  then have over: "dropping (cycle w') = DDone" "live (cycle w') = {}" and inv: "whole_inv w'"
    and same: "pushed (core w') = pushed (core w)" "crashes (core w') = crashes (core w)"
    using whole_pool.reachable_inv by (auto simp: drop_over_def drop_settled_def)
  have "reachable (core w')" "drain_inv (core w')" "thread_count (ldata (cycle w')) = 0"
    using inv over by (simp_all add: whole_inv_def fits_def life_inv_def)
  moreover from this drained_when_gone [of "core w'"] drop_over_leaves(2) [OF inv over(1)] same
  have "crashes (core w) = 0 \<longrightarrow> ran (core w') = pushed (core w)" by metis
  ultimately show "dropping (cycle w') = DDone \<and> live (cycle w') = {}
    \<and> thread_count (ldata (cycle w')) = 0
    \<and> (crashes (core w) = 0 \<longrightarrow> ran (core w') = pushed (core w))"
    using over by blast
qed simp_all

theorem dropping_a_pool_finishes_witness:
  "\<exists>w :: nat whole. dropping (cycle w) = DDrain \<and> inevitable (calm_whole (\<lambda>_. True))
     (\<lambda>w'. dropping (cycle w') = DDone \<and> live (cycle w') = {}) w"
proof -
  obtain w :: "nat whole" where w: "reachable_from (whole_init (\<lambda>_. True)) (whole_step (\<lambda>_. True)) w"
    "dropping (cycle w) = DDrain"
    by (rule small_pool_dropping)
  then have "dropping (cycle w) \<noteq> DLive" by simp
  from dropping_a_pool_finishes [OF w(1) this]
  have "inevitable (calm_whole (\<lambda>_. True)) (\<lambda>w'. dropping (cycle w') = DDone \<and> live (cycle w') = {}) w"
    by (rule inevitable_conseq [where I = "\<lambda>_. True"]) simp_all
  with w(2) show ?thesis by blast
qed




end
