(* ===== verification/Global.thy ===== *)
theory Global
  imports Future
begin

text \<open>
  The global pool: the \<open>OnceLock\<close> of \<open>src/global.rs\<close>, \<open>Error\<close> of \<open>src/error.rs\<close>, and
  \<open>build_global\<close> and the free \<open>spawn\<close> and \<open>spawn_local\<close> of \<open>src/lib.rs\<close>. \<open>build_global\<close>
  is a test followed by \<open>get_or_init\<close>; several threads may be in it at once. The pool of
  caller \<open>c\<close> is named \<open>c\<close>.
\<close>

datatype error = GlobalThreadpoolExists

section \<open>\<open>build_global\<close>\<close>

datatype build_pc = GCheck | GInit | GReturned "error + unit"

text \<open>\<open>dropped\<close> are the pools that were consumed without being installed: their drop runs.\<close>

record global =
  cell :: "nat option"
  callers :: "nat \<Rightarrow> build_pc"
  dropped :: "nat set"

text \<open>\<open>OnceLock::get_or_init\<close>: the first value stays, a later one is dropped by the caller.\<close>

definition get_or_init :: "nat \<Rightarrow> nat option \<Rightarrow> nat option \<times> bool" where
  "get_or_init c v = (case v of None \<Rightarrow> (Some c, False) | Some p \<Rightarrow> (Some p, True))"

definition build_global_step :: "nat \<Rightarrow> global \<Rightarrow> global" where
  "build_global_step c g =
     (case callers g c of
        GCheck \<Rightarrow>
          (case cell g of
             Some p \<Rightarrow> g\<lparr>callers := (callers g)(c := GReturned (Inl GlobalThreadpoolExists)),
                         dropped := insert c (dropped g)\<rparr>
           | None \<Rightarrow> g\<lparr>callers := (callers g)(c := GInit)\<rparr>)
      | GInit \<Rightarrow>
          (let (v, unused) = get_or_init c (cell g)
           in g\<lparr>cell := v, callers := (callers g)(c := GReturned (Inr ())),
                dropped := if unused then insert c (dropped g) else dropped g\<rparr>)
      | GReturned r \<Rightarrow> g)"

inductive global_step :: "global \<Rightarrow> global \<Rightarrow> bool" where
  "global_step g (build_global_step c g)"

definition global_init :: "global \<Rightarrow> bool" where
  "global_init g \<longleftrightarrow> cell g = None \<and> (\<forall>c. callers g c = GCheck) \<and> dropped g = {}"

text \<open>A call that nobody interrupts.\<close>

definition build_global :: "nat \<Rightarrow> global \<Rightarrow> global" where
  "build_global c g = build_global_step c (build_global_step c g)"

section \<open>The free functions\<close>

text \<open>
  With a global pool the closure runs on a worker, inside \<open>catch_unwind\<close>, and awaiting the
  future gives what its first reply that is not pending says; without one the closure runs in
  place, and a panic unwinds the caller. The result names the pool used.
\<close>

fun awaited :: "('r poll, 'e) reply list \<Rightarrow> ('r, 'e) reply option" where
  "awaited [] = None"
| "awaited (Returned (Ready v) # rs) = Some (Returned v)"
| "awaited (Returned Pending # rs) = awaited rs"
| "awaited (Resumed p # rs) = Some (Resumed p)"
| "awaited (Panicked msg # rs) = Some (Panicked msg)"

fun run_in_place :: "('r, 'e) outcome \<Rightarrow> ('r, 'e) reply" where
  "run_in_place (Value v) = Returned v"
| "run_in_place (Panic p) = Resumed p"

text \<open>
  \<open>n\<close> is how often the task is pending before the worker has run it; a task is represented by
  what its wrapped closure comes to.
\<close>

definition free_spawn :: "nat option \<Rightarrow> nat \<Rightarrow> ('r, 'e) outcome \<Rightarrow> ('r, 'e) reply option" where
  "free_spawn pool n closure =
     (case pool of
        Some p \<Rightarrow>
          (let (evs, h) = spawn (\<lambda>res. ((), res)) closure
           in awaited (map join_poll (replicate n Pending @ [Ready (jh_task h)])))
      | None \<Rightarrow> Some (run_in_place closure))"

definition free_spawn_local :: "nat option \<Rightarrow> nat \<Rightarrow> ('r, 'e) outcome \<Rightarrow> ('r, 'e) reply option" where
  "free_spawn_local pool n closure =
     (case pool of
        Some p \<Rightarrow>
          (let (evs, f) = spawn_local (\<lambda>res. ((), res)) closure
           in case sf_task f of
                Some res \<Rightarrow> awaited (snd (snd (sf_polls (replicate n Pending @ [Ready res]) f)))
              | None \<Rightarrow> None)
      | None \<Rightarrow> Some (run_in_place closure))"

section \<open>The invariant\<close>

fun returned :: "build_pc \<Rightarrow> bool" where
  "returned (GReturned r) = True"
| "returned _ = False"

definition global_inv :: "global \<Rightarrow> bool" where
  "global_inv g \<longleftrightarrow>
     (\<forall>p. cell g = Some p \<longrightarrow> callers g p = GReturned (Inr ()))
     \<and> (\<forall>c. returned (callers g c) \<longrightarrow> cell g \<noteq> None)
     \<and> (\<forall>c. c \<in> dropped g \<longleftrightarrow> returned (callers g c) \<and> cell g \<noteq> Some c)"

lemma global_invD:
  assumes "global_inv g"
  shows "cell g = Some p \<Longrightarrow> callers g p = GReturned (Inr ())"
    and "returned (callers g c) \<Longrightarrow> cell g \<noteq> None"
    and "c \<in> dropped g \<longleftrightarrow> returned (callers g c) \<and> cell g \<noteq> Some c"
  using assms unfolding global_inv_def by blast+

lemma global_inv_init: "global_init g \<Longrightarrow> global_inv g"
  by (simp add: global_init_def global_inv_def)

lemma global_inv_caller:
  assumes "global_inv g" and "\<not> returned (callers g c)" and "cell g = Some p"
  shows "global_inv (g\<lparr>callers := (callers g)(c := GReturned r), dropped := insert c (dropped g)\<rparr>)"
proof -
  note inv = global_invD [OF assms(1)]
  have "p \<noteq> c" using assms(2) inv(1) [OF assms(3)] by auto
  then show ?thesis
    unfolding global_inv_def using inv(1) inv(3) assms(3) by simp
qed

lemma global_inv_install:
  assumes "global_inv g" and "cell g = None"
  shows "global_inv (g\<lparr>cell := Some c, callers := (callers g)(c := GReturned (Inr ()))\<rparr>)"
proof -
  note inv = global_invD [OF assms(1)]
  have "\<not> returned (callers g q)" for q using inv(2) assms(2) by blast
  then show ?thesis
    unfolding global_inv_def using inv(3) by simp
qed

lemma build_global_step_inv:
  assumes "global_inv g"
  shows "global_inv (build_global_step c g)"
proof (cases "callers g c")
  case GCheck
  then show ?thesis
  proof (cases "cell g")
    case None
    then have "\<not> returned (callers g q)" for q using global_invD(2) [OF assms] by blast
    with None GCheck show ?thesis
      using global_invD(3) [OF assms] by (simp add: build_global_step_def global_inv_def)
  next
    case (Some p)
    with GCheck global_inv_caller [OF assms _ Some, of c] show ?thesis
      by (simp add: build_global_step_def)
  qed
next
  case GInit
  then show ?thesis
  proof (cases "cell g")
    case None
    with GInit global_inv_install [OF assms None, of c] show ?thesis
      by (simp add: build_global_step_def get_or_init_def)
  next
    case (Some p)
    then have "build_global_step c g = g\<lparr>callers := (callers g)(c := GReturned (Inr ())),
        dropped := insert c (dropped g)\<rparr>"
      using GInit by (cases g) (simp add: build_global_step_def get_or_init_def)
    with GInit global_inv_caller [OF assms _ Some, of c] show ?thesis by simp
  qed
next
  case (GReturned r)
  with assms show ?thesis by (simp add: build_global_step_def)
qed

interpretation global_pool: invariant_system global_init global_step global_inv
  by unfold_locales (auto simp: global_inv_init build_global_step_inv elim!: global_step.cases)

section \<open>Properties\<close>


text \<open>Two callers, step by step: both pass the test, then both initialise.\<close>

definition fresh_global :: global where
  "fresh_global = \<lparr>cell = None, callers = (\<lambda>_. GCheck), dropped = {}\<rparr>"

definition raced_global :: global where
  "raced_global = build_global_step 1 (build_global_step 0 (build_global_step 1
     (build_global_step 0 fresh_global)))"

lemma raced_reachable: "reachable_from global_init global_step raced_global"
proof -
  have step: "reachable_from global_init global_step (build_global_step c g)"
    if "reachable_from global_init global_step g" for c g
    using that by (rule reach_step) (rule global_step.intros)
  have "reachable_from global_init global_step fresh_global"
    by (rule reach_init) (simp add: fresh_global_def global_init_def)
  then show ?thesis unfolding raced_global_def by (intro step)
qed

lemma raced_state:
  "cell raced_global = Some 0" "callers raced_global 0 = GReturned (Inr ())"
  "callers raced_global 1 = GReturned (Inr ())" "dropped raced_global = {1}"
  by (simp_all add: raced_global_def fresh_global_def build_global_step_def get_or_init_def)


text \<open>
  Uninterrupted calls behave as documented: on an empty cell the pool is installed and
  the call returns \<open>Ok\<close>; on a full one nothing is installed, the pool is dropped, and the
  call returns \<open>GlobalThreadpoolExists\<close>.
\<close>
theorem sequential_build_global:
  assumes "callers g c = GCheck"
  shows "callers (build_global c g) c
      = GReturned (if cell g = None then Inr () else Inl GlobalThreadpoolExists)
    \<and> cell (build_global c g) = (if cell g = None then Some c else cell g)
    \<and> dropped (build_global c g) = (if cell g = None then dropped g else insert c (dropped g))"
  using assms
  by (cases "cell g") (auto simp: build_global_def build_global_step_def get_or_init_def)

theorem sequential_build_global_witness:
  "callers (build_global 3 fresh_global) 3 = GReturned (Inr ()) \<and> cell (build_global 3 fresh_global) = Some 3"
  using sequential_build_global [of fresh_global 3] by (simp add: fresh_global_def)

text \<open>
  C39. Concurrent calls do not: two callers can both get \<open>Ok\<close> although only one pool is
  installed; the other one is dropped, with its workers, behind the caller's back.
\<close>
theorem concurrent_build_global_race:
  "\<exists>g. reachable_from global_init global_step g
    \<and> callers g 0 = GReturned (Inr ()) \<and> callers g 1 = GReturned (Inr ())
    \<and> cell g = Some 0 \<and> 1 \<in> dropped g"
  by (intro exI [of _ raced_global] conjI raced_reachable raced_state) (simp add: raced_state)

lemma awaited_pending:
  "awaited (replicate n (Returned Pending) @ rs) = awaited rs"
  by (induction n) simp_all

lemma awaited_closure:
  "awaited (map join_poll (replicate n Pending @ [Ready (catch_unwind closure)]))
     = Some (run_in_place closure)"
  by (cases closure) (simp_all add: awaited_pending)

lemma sf_polls_replies:
  "snd (snd (sf_polls (replicate n Pending @ [Ready res]) (sf_new r t)))
     = map join_poll (replicate n Pending @ [Ready res])"
  using sf_polls_new [of "replicate n Pending @ [Ready res]" r t]
  by (auto simp: replies_until_ready)

text \<open>
  The free functions give the same result with and without a global pool, and
  \<open>spawn\<close> the same as \<open>spawn_local\<close>: the closure's value, or the closure's own panic raised
  at the caller, however long the task was pending.
\<close>
theorem free_functions_agree:
  "free_spawn pool n closure = Some (run_in_place closure)
   \<and> free_spawn_local pool n closure = free_spawn pool n closure"
proof (cases pool)
  case None
  then show ?thesis by (simp add: free_spawn_def free_spawn_local_def)
next
  case (Some p)
  moreover have "spawn_local (\<lambda>res. ((), res)) closure = ([], sf_new () (catch_unwind closure))"
    by (simp add: spawn_local_def)
  moreover have "sf_task (sf_new () (catch_unwind closure)) = Some (catch_unwind closure)"
    by (simp add: sf_new_def)
  ultimately show ?thesis
    by (simp add: free_spawn_def free_spawn_local_def spawn_def sf_polls_replies
        awaited_closure del: map_append)
qed

end
