(* ===== verification/Alloc_Probe.thy ===== *)
theory Alloc_Probe
  imports Prelude
begin

text \<open>
  The allocation probe of \<open>examples/alloc_count.rs\<close>: the counting allocator, its snapshots and
  the measured region of \<open>report_spawn\<close> and \<open>report_spawn_local\<close>. The system allocator is a
  parameter, and so is what one round trip through the pool allocates; sizes are the only part
  of a layout that is used. With overflow checks (a debug build) a subtraction that would be
  negative panics, which is \<open>None\<close>; without them it wraps.
\<close>

section \<open>The counting allocator\<close>

record alloc_counters =
  allocs :: usize
  deallocs :: usize
  bytes_allocated :: usize

definition counting_alloc ::
  "(usize \<Rightarrow> 'h \<Rightarrow> 'p \<times> 'h) \<Rightarrow> usize \<Rightarrow> alloc_counters \<times> 'h \<Rightarrow> 'p \<times> alloc_counters \<times> 'h" where
  "counting_alloc system_alloc sz s =
     (let (c, h) = s;
          c1 = c\<lparr>allocs := allocs c + 1\<rparr>;
          c2 = c1\<lparr>bytes_allocated := bytes_allocated c1 + sz\<rparr>;
          (p, h') = system_alloc sz h
      in (p, c2, h'))"

definition counting_dealloc ::
  "('p \<Rightarrow> usize \<Rightarrow> 'h \<Rightarrow> 'h) \<Rightarrow> 'p \<Rightarrow> usize \<Rightarrow> alloc_counters \<times> 'h \<Rightarrow> alloc_counters \<times> 'h" where
  "counting_dealloc system_dealloc p sz s =
     (let (c, h) = s in (c\<lparr>deallocs := deallocs c + 1\<rparr>, system_dealloc p sz h))"

section \<open>Snapshots\<close>

record snapshot =
  snap_allocs :: usize
  snap_deallocs :: usize
  snap_bytes :: usize

definition snapshot_take :: "alloc_counters \<Rightarrow> snapshot" where
  "snapshot_take c = \<lparr>snap_allocs = allocs c, snap_deallocs = deallocs c,
     snap_bytes = bytes_allocated c\<rparr>"

definition usize_minus :: "bool \<Rightarrow> usize \<Rightarrow> usize \<Rightarrow> usize option" where
  "usize_minus checks a b = (if checks \<and> a < b then None else Some (a - b))"

definition snapshot_delta :: "bool \<Rightarrow> snapshot \<Rightarrow> snapshot \<Rightarrow> (usize \<times> usize \<times> usize) option" where
  "snapshot_delta checks after prior =
     Option.bind (usize_minus checks (snap_allocs after) (snap_allocs prior)) (\<lambda>a.
     Option.bind (usize_minus checks (snap_deallocs after) (snap_deallocs prior)) (\<lambda>d.
     Option.bind (usize_minus checks (snap_bytes after) (snap_bytes prior)) (\<lambda>b.
     Some (a, d, b))))"

section \<open>The measured region\<close>

text \<open>What a piece of the program asks of the allocator, and what that does to the counters.\<close>

datatype heap_call = Alloc usize | Dealloc

fun count_call :: "heap_call \<Rightarrow> alloc_counters \<Rightarrow> alloc_counters" where
  "count_call (Alloc sz) c = fst (snd (counting_alloc (\<lambda>_ h. ((), h)) sz (c, ())))"
| "count_call Dealloc c = fst (counting_dealloc (\<lambda>_ _ h. h) () 0 (c, ()))"

text \<open>\<open>n\<close> round trips between two snapshots; the result is what is printed.\<close>

definition report_spawn ::
  "bool \<Rightarrow> heap_call list \<Rightarrow> nat \<Rightarrow> alloc_counters \<Rightarrow> (usize \<times> usize \<times> usize) option \<times> alloc_counters"
  where
  "report_spawn checks trip n c =
     (let prior = snapshot_take c;
          c' = (fold count_call trip ^^ n) c;
          after = snapshot_take c'
      in (snapshot_delta checks after prior, c'))"

definition report_spawn_local ::
  "bool \<Rightarrow> heap_call list \<Rightarrow> nat \<Rightarrow> alloc_counters \<Rightarrow> (usize \<times> usize \<times> usize) option \<times> alloc_counters"
  where
  "report_spawn_local checks local_trip n c =
     (let prior = snapshot_take c;
          c' = (fold count_call local_trip ^^ n) c;
          after = snapshot_take c'
      in (snapshot_delta checks after prior, c'))"

section \<open>What the counters count\<close>

lemma counting_is_transparent:
  "fst (counting_alloc system_alloc sz (c, h)) = fst (system_alloc sz h)"
  "snd (snd (counting_alloc system_alloc sz (c, h))) = snd (system_alloc sz h)"
  "snd (counting_dealloc system_dealloc p sz (c, h)) = system_dealloc p sz h"
  "fst (snd (counting_alloc system_alloc sz (c, h))) = count_call (Alloc sz) c"
  "fst (counting_dealloc system_dealloc p sz (c, h)) = count_call Dealloc c"
  by (simp_all add: counting_alloc_def counting_dealloc_def split: prod.splits)

fun is_alloc :: "heap_call \<Rightarrow> bool" where
  "is_alloc (Alloc sz) \<longleftrightarrow> True"
| "is_alloc Dealloc \<longleftrightarrow> False"

fun bytes_of :: "heap_call \<Rightarrow> nat" where
  "bytes_of (Alloc sz) = unat sz"
| "bytes_of Dealloc = 0"

definition num_allocs :: "heap_call list \<Rightarrow> nat" where
  "num_allocs calls = length (filter is_alloc calls)"

definition num_deallocs :: "heap_call list \<Rightarrow> nat" where
  "num_deallocs calls = length (filter (\<lambda>e. \<not> is_alloc e) calls)"

definition num_bytes :: "heap_call list \<Rightarrow> nat" where
  "num_bytes calls = sum_list (map bytes_of calls)"

lemma count_calls:
  "fold count_call calls c = \<lparr>allocs = allocs c + word_of_nat (num_allocs calls),
     deallocs = deallocs c + word_of_nat (num_deallocs calls),
     bytes_allocated = bytes_allocated c + word_of_nat (num_bytes calls)\<rparr>"
proof (induction calls arbitrary: c)
  case Nil
  then show ?case by (simp add: num_allocs_def num_deallocs_def num_bytes_def)
next
  case (Cons e calls)
  then show ?case
    by (cases e) (simp_all add: counting_alloc_def counting_dealloc_def num_allocs_def
        num_deallocs_def num_bytes_def ac_simps)
qed

lemma count_trips:
  "(fold count_call trip ^^ n) c = \<lparr>allocs = allocs c + word_of_nat (n * num_allocs trip),
     deallocs = deallocs c + word_of_nat (n * num_deallocs trip),
     bytes_allocated = bytes_allocated c + word_of_nat (n * num_bytes trip)\<rparr>"
  by (induction n) (simp_all add: count_calls algebra_simps)

lemma report_spawn_local_alike: "report_spawn_local checks trip n c = report_spawn checks trip n c"
  by (simp add: report_spawn_local_def report_spawn_def)

text \<open>A checked difference of a counter and its earlier value.\<close>

lemma usize_minus_grown:
  fixes x :: usize
  shows "usize_minus False (x + word_of_nat k) x = Some (word_of_nat k)"
    and "k < 2 ^ 64 \<Longrightarrow> usize_minus True (x + word_of_nat k) x
      = (if unat x + k < 2 ^ 64 then Some (word_of_nat k) else None)"
proof -
  show "usize_minus False (x + word_of_nat k) x = Some (word_of_nat k)"
    by (simp add: usize_minus_def)
  assume k: "k < 2 ^ 64"
  have "x + word_of_nat k < x \<longleftrightarrow> \<not> unat x + k < 2 ^ 64"
  proof (cases "unat x + k < 2 ^ 64")
    case True
    then have "unat (x + word_of_nat k) = unat x + k"
      using k by (simp add: unat_word_ariths unat_of_nat take_bit_nat_eq_self_iff)
    with True show ?thesis by (simp add: word_less_nat_alt)
  next
    case False
    have "unat x < 2 ^ 64" using unsigned_less [of x, where 'a = nat] by simp
    with False k have "unat (x + word_of_nat k) = unat x + k - 2 ^ 64"
      by (simp add: unat_word_ariths unat_of_nat mod_if)
    with False k show ?thesis by (simp add: word_less_nat_alt)
  qed
  then show "usize_minus True (x + word_of_nat k) x
      = (if unat x + k < 2 ^ 64 then Some (word_of_nat k) else None)"
    by (simp add: usize_minus_def)
qed

section \<open>Property\<close>



end
