(* ===== verification/Spec2Isabelle.thy ===== *)
theory Spec2Isabelle
  imports Fences Fifo Work_Bag Stranding Starvation Await Borrow Whole_Drop Global Alloc_Probe
begin

text \<open>
  A verified model of affinitypool, a thread pool for blocking closures behind async futures.

  \<^bold>\<open>The program.\<close> \<open>src/lib.rs\<close> is the pool: \<open>Threadpool\<close> owns the shared data of
  \<open>src/data.rs\<close>, starts worker threads (\<open>spin_up\<close>), wraps a closure into a task and hands
  its \<open>Runnable\<close> to the queue (\<open>spawn\<close> at once, \<open>spawn_local\<close> on first poll), and on drop
  shuts the queue down and joins the workers. \<open>src/builder.rs\<close> configures it,
  \<open>src/sentry.rs\<close> replaces a worker that unwinds, \<open>src/local.rs\<close> is the future of
  \<open>spawn_local\<close> with its blocking drop, \<open>src/global.rs\<close> and \<open>src/error.rs\<close> the global pool.
  \<open>src/queue.rs\<close> is the heart: sharded injectors, one deque per worker with a stealer slot,
  and a mutex with a condition variable and two counters by which producers wake sleeping
  workers. \<open>src/cpu.rs\<close> routes a producer's pushes to injectors.

  \<^bold>\<open>The theories and the code they model.\<close>
  \<^item> \<open>Prelude\<close>: machine integers, masks, counting threads, and the contracts of a transition
    system as locales: \<open>invariant_system\<close> (reachable states satisfy an invariant),
    \<open>progress_system\<close> (calm steps lower a rank and are possible until a goal holds, so the goal
    is inevitable), \<open>refinement\<close> (a forward simulation that may stutter).
  \<^item> \<open>Routing\<close>: \<open>cpu::route_shard\<close> with its thread-local cell, on 32- and 64-bit words. \<open>Rng\<close>:
    \<open>next_rand\<close>, \<open>fast_reduce\<close>, the seed. \<open>Victims\<close>: the rotations and \<open>probe_limit\<close> of
    \<open>Queue::scan\<close>.
  \<^item> \<open>Queue\<close>: \<open>Queue\<close>, \<open>WorkerContext\<close>, \<open>WorkerHandle\<close>, \<open>new\<close>, \<open>register_worker\<close>, the worker
    scope, and where a push puts its runnable. A field of the record is the field of the
    struct; deques live in a store, because worker and stealer slot share them, and the slot
    and the context hold the address. \<open>Scan\<close>: \<open>Queue::scan\<close> and \<open>steal_injector\<close>, one access
    to shared memory per step of \<open>scan_step\<close>; \<open>scan\<close> runs the steps alone. \<open>Fifo\<close>: the
    one-worker pool.
  \<^item> \<open>Handshake\<close>: \<open>push\<close>, \<open>pop_blocking\<close>, \<open>shutdown\<close> and the worker loop as programs whose
    steps interleave; \<open>sys_step\<close> is one step of any thread. \<open>Locks\<close>, \<open>Accounting\<close>,
    \<open>Ownership\<close>, \<open>Closing\<close>, \<open>Wakeup\<close>, \<open>Drain\<close> are its invariants, one layer on the other;
    \<open>Progress\<close> and \<open>Liveness\<close> its termination and liveness; \<open>Work_Bag\<close> its specification;
    \<open>Fences\<close> the race the two \<open>SeqCst\<close> fences decide; \<open>Sample_Run\<close>, \<open>Replay\<close>,
    \<open>Stranding\<close> and \<open>Starvation\<close> concrete runs, by hand and by an executable scheduler; \<open>Two_Workers\<close> and
    \<open>Blocked_Job\<close> what the others can do while workers stay in their jobs.
  \<^item> \<open>Pool\<close>: \<open>Builder\<close>, \<open>Threadpool::new\<close>, \<open>Data\<close>, \<open>spin_up\<close> (and its WebAssembly stub),
    \<open>Sentry\<close>. \<open>Lifecycle\<close>: the worker threads from \<open>build\<close> to the end of
    \<open>Drop for Threadpool\<close>. \<open>Whole_Pool\<close>: queue and threads in one system (\<open>whole_step\<close>), which
    refines both halves; \<open>Whole_Drop\<close>: what dropping it comes to.
  \<^item> \<open>Future\<close>: \<open>JoinHandle\<close>, \<open>SpawnFuture\<close>, \<open>block_on_cancel\<close>, \<open>spawn\<close>, \<open>spawn_local\<close>. \<open>Await\<close>:
    futures and queue together. \<open>Blocking_Drop\<close>: the drop of a polled \<open>SpawnFuture\<close> beside the
    pool it waits for; the contract between them is the locale \<open>finishing_system\<close>. \<open>Borrow\<close>:
    one \<open>SpawnFuture\<close> from its creation to the end of what its closure borrows, beside the pool.
    \<open>Global\<close>: \<open>build_global\<close> and the free functions.
  \<^item> \<open>Alloc_Probe\<close>: the counting allocator and the measured regions of
    \<open>examples/alloc_count.rs\<close>; it shares nothing with the other theories but the word type.

  \<^bold>\<open>What is shown.\<close>
  \<^item> The mutex protects what it should, \<open>parked\<close> is exact and never wraps, \<open>notified\<close> never
    exceeds the signals on their way. Every index is in range. Every runnable is in exactly
    one place until it has run. No wake-up is lost: work in an injector always has a worker
    bound to look at it or a push on its way to signal one.
  \<^item> The queue cannot deadlock, undisturbed runs end, and they end well: an open pool has run
    everything and sleeps; a closed one has let its workers go, and has run everything too if
    nobody outside kept pushing. Disturbances are pushes, unwinding workers, the call of
    \<open>shutdown\<close> and a steal lost to a competitor in a pass without one so far. Of a pool whose
    workers unwound, the runnables left in a replaced deque (\<open>orphans\<close>) are excepted.
  \<^item> The whole concurrent queue refines a bag of work with a gate, a one-worker pool a FIFO.
  \<^item> The limit: the guarantee is about injectors. A batch steal between deques can leave a
    runnable behind a busy worker while another worker sleeps (\<open>Stranding\<close>, three workers). Nor
    is the pool fair: jobs that spawn jobs keep work from outside waiting (\<open>Starvation\<close>).
  \<^item> Jobs that block hold up nobody else. In a pool of two, one worker is enough to run all that
    its blocked peer left behind, so that a job can drop a future it has polled; in a pool of one
    that drop never returns. Outside the pool it always does.
  \<^item> The pool as a whole: dropping it returns, and then no thread is left and everything has
    been run; but not if one of its own jobs drops it, which would have to join itself.
  \<^item> A scan terminates once contention ceases, loses nothing, and a strict one returns nothing
    only if nothing is queued. Routing and walks cover all shards and victims; the generator
    never degenerates; the reduction is as even as can be.
  \<^item> A built pool has its configured workers; a refused thread is retried; threads never share
    an index; the drop has joined the threads it knew, but not a late respawn. Every spawned
    closure is answered. When the drop of a \<open>SpawnFuture\<close> has returned, nothing runs its
    closure any more, so it may borrow; a leaked one breaks that (\<open>Borrow\<close>). The futures queue their runnable once and report values and panics
    alike. The global pool is never replaced, although two racing installers may both be told so.

  \<^bold>\<open>Bounds.\<close> Pools have 1 to 512 workers (\<open>MAX_THREADS\<close>) and up to 512 shards. The counters are
  64-bit words and the route counter a 32-bit one that saturates. The fuel of \<open>scan\<close> is the
  number of its steps: two passes over the tables, \<open>2 * pass_length\<close>, are enough after
  contention has ceased, and that is proved. \<open>spin_up\<close> may not return, and is a partial
  function: it returns exactly if some later thread creation is granted.

  \<^bold>\<open>Parameters.\<close> \<open>steal_batch_and_pop\<close> of crossbeam_deque is any function with the documented
  laws \<open>steal_laws\<close>, chosen anew at every steal; the operating system's answers, the number
  of processors, the hashes of thread ids, the runs of closures, and the answers of
  async_task's \<open>Task\<close> are parameters too. parking_lot's mutex and condition variable are
  modelled by what their documentation promises: mutual exclusion, an atomic release on wait,
  no wake-up without a signal.

  \<^bold>\<open>Not modelled.\<close> The inside of a crossbeam operation (each is one atomic step); weak memory
  elsewhere than in \<open>Fences\<close>, the other theories use sequentially consistent interleavings;
  how long a spin lasts; unsafe pointers beyond the ownership invariants; task cancellation
  inside async_task (a cancelled task counts as stopped when a worker is done with its
  runnable); what the allocation probe prints with its numbers and its warm-up; tests and
  benches, which only call the crate.
\<close>

end
